theory Spec2Isabelle
  imports Main "HOL-Library.Monad_Syntax" "HOL-Library.Sublist"
begin


section \<open>Package token: the token catalog\<close>

text \<open>
  \<^verbatim>\<open>type Token int\<close> with the constants numbered by \<^verbatim>\<open>iota\<close>. The constants are
  written \<open>token_X\<close> for Go's \<^verbatim>\<open>token.X\<close>; each abbreviates the number \<^verbatim>\<open>iota\<close>
  gives it, so the band tests of the source stay comparisons of integers.
\<close>

type_synonym Token = int

abbreviation (input) token_Illegal :: Token where "token_Illegal \<equiv> 0"
abbreviation (input) token_EOF :: Token where "token_EOF \<equiv> 1"
abbreviation (input) token_Comment :: Token where "token_Comment \<equiv> 2"
abbreviation (input) token_literalA :: Token where "token_literalA \<equiv> 3"
abbreviation (input) token_Ident :: Token where "token_Ident \<equiv> 4"
abbreviation (input) token_Int :: Token where "token_Int \<equiv> 5"
abbreviation (input) token_Float :: Token where "token_Float \<equiv> 6"
abbreviation (input) token_Char :: Token where "token_Char \<equiv> 7"
abbreviation (input) token_String :: Token where "token_String \<equiv> 8"
abbreviation (input) token_literalZ :: Token where "token_literalZ \<equiv> 9"
abbreviation (input) token_operatorA :: Token where "token_operatorA \<equiv> 10"
abbreviation (input) token_Add :: Token where "token_Add \<equiv> 11"
abbreviation (input) token_Sub :: Token where "token_Sub \<equiv> 12"
abbreviation (input) token_Mul :: Token where "token_Mul \<equiv> 13"
abbreviation (input) token_Quo :: Token where "token_Quo \<equiv> 14"
abbreviation (input) token_Rem :: Token where "token_Rem \<equiv> 15"
abbreviation (input) token_And :: Token where "token_And \<equiv> 16"
abbreviation (input) token_Or :: Token where "token_Or \<equiv> 17"
abbreviation (input) token_Xor :: Token where "token_Xor \<equiv> 18"
abbreviation (input) token_AndNot :: Token where "token_AndNot \<equiv> 19"
abbreviation (input) token_Shl :: Token where "token_Shl \<equiv> 20"
abbreviation (input) token_Shr :: Token where "token_Shr \<equiv> 21"
abbreviation (input) token_Concat :: Token where "token_Concat \<equiv> 22"
abbreviation (input) token_Assign :: Token where "token_Assign \<equiv> 23"
abbreviation (input) token_AddAssign :: Token where "token_AddAssign \<equiv> 24"
abbreviation (input) token_SubAssign :: Token where "token_SubAssign \<equiv> 25"
abbreviation (input) token_MulAssign :: Token where "token_MulAssign \<equiv> 26"
abbreviation (input) token_QuoAssign :: Token where "token_QuoAssign \<equiv> 27"
abbreviation (input) token_RemAssign :: Token where "token_RemAssign \<equiv> 28"
abbreviation (input) token_AndAssign :: Token where "token_AndAssign \<equiv> 29"
abbreviation (input) token_OrAssign :: Token where "token_OrAssign \<equiv> 30"
abbreviation (input) token_XorAssign :: Token where "token_XorAssign \<equiv> 31"
abbreviation (input) token_AndNotAssign :: Token where "token_AndNotAssign \<equiv> 32"
abbreviation (input) token_ShlAssign :: Token where "token_ShlAssign \<equiv> 33"
abbreviation (input) token_ShrAssign :: Token where "token_ShrAssign \<equiv> 34"
abbreviation (input) token_ConcatAssign :: Token where "token_ConcatAssign \<equiv> 35"
abbreviation (input) token_LogicAnd :: Token where "token_LogicAnd \<equiv> 36"
abbreviation (input) token_LogicOr :: Token where "token_LogicOr \<equiv> 37"
abbreviation (input) token_LogicNot :: Token where "token_LogicNot \<equiv> 38"
abbreviation (input) token_Equal :: Token where "token_Equal \<equiv> 39"
abbreviation (input) token_NotEqual :: Token where "token_NotEqual \<equiv> 40"
abbreviation (input) token_Less :: Token where "token_Less \<equiv> 41"
abbreviation (input) token_Greater :: Token where "token_Greater \<equiv> 42"
abbreviation (input) token_LessEqual :: Token where "token_LessEqual \<equiv> 43"
abbreviation (input) token_GreaterEqual :: Token where "token_GreaterEqual \<equiv> 44"
abbreviation (input) token_Define :: Token where "token_Define \<equiv> 45"
abbreviation (input) token_Ellipsis :: Token where "token_Ellipsis \<equiv> 46"
abbreviation (input) token_Comma :: Token where "token_Comma \<equiv> 47"
abbreviation (input) token_Period :: Token where "token_Period \<equiv> 48"
abbreviation (input) token_Colon :: Token where "token_Colon \<equiv> 49"
abbreviation (input) token_Semicolon :: Token where "token_Semicolon \<equiv> 50"
abbreviation (input) token_LeftParen :: Token where "token_LeftParen \<equiv> 51"
abbreviation (input) token_LeftBrack :: Token where "token_LeftBrack \<equiv> 52"
abbreviation (input) token_LeftBrace :: Token where "token_LeftBrace \<equiv> 53"
abbreviation (input) token_RightParen :: Token where "token_RightParen \<equiv> 54"
abbreviation (input) token_RightBrack :: Token where "token_RightBrack \<equiv> 55"
abbreviation (input) token_RightBrace :: Token where "token_RightBrace \<equiv> 56"
abbreviation (input) token_operatorZ :: Token where "token_operatorZ \<equiv> 57"
abbreviation (input) token_keywordA :: Token where "token_keywordA \<equiv> 58"
abbreviation (input) token_Any :: Token where "token_Any \<equiv> 59"
abbreviation (input) token_Bool :: Token where "token_Bool \<equiv> 60"
abbreviation (input) token_Break :: Token where "token_Break \<equiv> 61"
abbreviation (input) token_Case :: Token where "token_Case \<equiv> 62"
abbreviation (input) token_Const :: Token where "token_Const \<equiv> 63"
abbreviation (input) token_Continue :: Token where "token_Continue \<equiv> 64"
abbreviation (input) token_Defer :: Token where "token_Defer \<equiv> 65"
abbreviation (input) token_Else :: Token where "token_Else \<equiv> 66"
abbreviation (input) token_Fallthrough :: Token where "token_Fallthrough \<equiv> 67"
abbreviation (input) token_False :: Token where "token_False \<equiv> 68"
abbreviation (input) token_For :: Token where "token_For \<equiv> 69"
abbreviation (input) token_Func :: Token where "token_Func \<equiv> 70"
abbreviation (input) token_Goto :: Token where "token_Goto \<equiv> 71"
abbreviation (input) token_If :: Token where "token_If \<equiv> 72"
abbreviation (input) token_Import :: Token where "token_Import \<equiv> 73"
abbreviation (input) token_Nil :: Token where "token_Nil \<equiv> 74"
abbreviation (input) token_Package :: Token where "token_Package \<equiv> 75"
abbreviation (input) token_Return :: Token where "token_Return \<equiv> 76"
abbreviation (input) token_Struct :: Token where "token_Struct \<equiv> 77"
abbreviation (input) token_Switch :: Token where "token_Switch \<equiv> 78"
abbreviation (input) token_True :: Token where "token_True \<equiv> 79"
abbreviation (input) token_Typedef :: Token where "token_Typedef \<equiv> 80"
abbreviation (input) token_Var :: Token where "token_Var \<equiv> 81"
abbreviation (input) token_Void :: Token where "token_Void \<equiv> 82"
abbreviation (input) token_keywordZ :: Token where "token_keywordZ \<equiv> 83"
abbreviation (input) token_tokenMax :: Token where "token_tokenMax \<equiv> 84"

text \<open>
  \<^verbatim>\<open>var tokens = [...]string{Illegal: "ILLEGAL", ...}\<close>: a keyed array literal. Its
  length is the largest key plus one (\<^verbatim>\<open>Void + 1\<close>), and an index without a key (the band
  markers) holds the empty string.
\<close>

definition tokens :: "(Token \<times> string) list" where
  "tokens = [
    (token_Illegal, ''ILLEGAL''), (token_EOF, ''EOF''), (token_Comment, ''COMMENT''),
    (token_Ident, ''IDENT''), (token_Int, ''INT''), (token_Float, ''FLOAT''),
    (token_Char, ''CHAR''), (token_String, ''STRING''),
    (token_Add, ''+''), (token_Sub, ''-''), (token_Mul, ''*''), (token_Quo, ''/''),
    (token_Rem, ''%''), (token_And, ''&''), (token_Or, ''|''), (token_Xor, ''^''),
    (token_AndNot, ''&^''), (token_Shl, ''<<''), (token_Shr, ''>>''), (token_Concat, ''++''),
    (token_Assign, ''=''), (token_AddAssign, ''+=''), (token_SubAssign, ''-=''),
    (token_MulAssign, ''*=''), (token_QuoAssign, ''/=''), (token_RemAssign, ''%=''),
    (token_AndAssign, ''&=''), (token_OrAssign, ''|=''), (token_XorAssign, ''^=''),
    (token_AndNotAssign, ''&^=''), (token_ShlAssign, ''<<=''), (token_ShrAssign, ''>>=''),
    (token_ConcatAssign, ''++=''),
    (token_LogicAnd, ''&&''), (token_LogicOr, ''||''), (token_LogicNot, ''!''),
    (token_Equal, ''==''), (token_NotEqual, ''!=''), (token_Less, ''<''),
    (token_Greater, ''>''), (token_LessEqual, ''<=''), (token_GreaterEqual, ''>=''),
    (token_Define, '':=''), (token_Ellipsis, ''...''), (token_Comma, '',''),
    (token_Period, ''.''), (token_Colon, '':''), (token_Semicolon, '';''),
    (token_LeftParen, ''(''), (token_LeftBrack, ''[''), (token_LeftBrace, ''{''),
    (token_RightParen, '')''), (token_RightBrack, '']''), (token_RightBrace, ''}''),
    (token_Any, ''any''), (token_Bool, ''bool''), (token_Break, ''break''),
    (token_Case, ''case''), (token_Const, ''const''), (token_Continue, ''continue''),
    (token_Defer, ''defer''), (token_Else, ''else''), (token_Fallthrough, ''fallthrough''),
    (token_False, ''false''), (token_For, ''for''), (token_Func, ''func''),
    (token_Goto, ''goto''), (token_If, ''if''), (token_Import, ''import''),
    (token_Nil, ''nil''), (token_Package, ''package''), (token_Return, ''return''),
    (token_Struct, ''struct''), (token_Switch, ''switch''), (token_True, ''true''),
    (token_Typedef, ''typedef''), (token_Var, ''var''), (token_Void, ''void'')]"

definition tokens_len :: int where
  "tokens_len = token_Void + 1"

definition tokens_at :: "Token \<Rightarrow> string" where
  "tokens_at i = (case map_of tokens i of Some s \<Rightarrow> s | None \<Rightarrow> [])"

text \<open>\<^verbatim>\<open>strconv.Itoa\<close> of the Go standard library: the decimal form of an integer.\<close>

fun decimal :: "nat \<Rightarrow> string" where
  "decimal n =
     (if n < 10 then [''0123456789'' ! n]
      else decimal (n div 10) @ [''0123456789'' ! (n mod 10)])"

declare decimal.simps [simp del]

definition strconv_Itoa :: "int \<Rightarrow> string" where
  "strconv_Itoa i = (if i < 0 then CHR ''-'' # decimal (nat (- i)) else decimal (nat i))"

definition Token_String :: "Token \<Rightarrow> string" where
  "Token_String tok =
     (if 0 \<le> tok \<and> tok < tokens_len then tokens_at tok
      else ''Token('' @ strconv_Itoa tok @ '')'')"

definition Token_IsLiteral :: "Token \<Rightarrow> bool" where
  "Token_IsLiteral tok = (token_literalA < tok \<and> tok < token_literalZ)"

definition Token_IsOperator :: "Token \<Rightarrow> bool" where
  "Token_IsOperator tok = (token_operatorA < tok \<and> tok < token_operatorZ)"

definition Token_IsKeyword :: "Token \<Rightarrow> bool" where
  "Token_IsKeyword tok = (token_keywordA < tok \<and> tok < token_keywordZ)"

text \<open>
  \<^verbatim>\<open>func init()\<close>: the keyword table is filled by the loop
  \<^verbatim>\<open>for i := Any + 1; i < Void; i++ { keywords[tokens[i]] = i }\<close>.
\<close>

definition keywords_map :: "string \<rightharpoonup> Token" where
  "keywords_map = foldl (\<lambda>m i. m(tokens_at i \<mapsto> i)) Map.empty [token_Any + 1..token_Void - 1]"

definition token_IsKeyword :: "string \<Rightarrow> bool" where
  "token_IsKeyword name = (keywords_map name \<noteq> None)"

definition token_Lookup :: "string \<Rightarrow> Token" where
  "token_Lookup ident = (case keywords_map ident of Some tok \<Rightarrow> tok | None \<Rightarrow> token_Ident)"


section \<open>Package token: positions, files and the file set\<close>

text \<open>
  Go's \<^verbatim>\<open>int\<close> is modelled by \<open>int\<close>. The one place where the source tests for
  wrap-around (\<^verbatim>\<open>FileSet.AddFile\<close>) wraps its sum with \<open>wrap_int\<close>, the 64-bit
  two's complement value; \<open>is_int\<close> says that a number is a value of Go's \<^verbatim>\<open>int\<close>.
  A panic is a value: \<open>Inl (Panic msg)\<close>.
\<close>

datatype panic = Panic string

definition wrap_int :: "int \<Rightarrow> int" where
  "wrap_int x = (x + 2 ^ 63) mod 2 ^ 64 - 2 ^ 63"

definition is_int :: "int \<Rightarrow> bool" where
  "is_int x = (- (2 ^ 63) \<le> x \<and> x < 2 ^ 63)"

type_synonym Pos = int

abbreviation (input) NoPos :: Pos where "NoPos \<equiv> 0"

definition Pos_IsValid :: "Pos \<Rightarrow> bool" where
  "Pos_IsValid p = (p \<noteq> NoPos)"

record Position =
  Filename :: string
  Offset :: int
  Line :: int
  Column :: int

text \<open>\<^verbatim>\<open>Position{}\<close>, the zero value.\<close>

definition Position_zero :: Position where
  "Position_zero = \<lparr>Filename = [], Offset = 0, Line = 0, Column = 0\<rparr>"

definition Position_IsValid :: "Position \<Rightarrow> bool" where
  "Position_IsValid pos = (Line pos > 0)"

definition Position_String :: "Position \<Rightarrow> string" where
  "Position_String pos =
     (let s = Filename pos;
          s = (if Position_IsValid pos
               then (let s = (if s \<noteq> [] then s @ '':'' else s);
                         s = s @ strconv_Itoa (Line pos)
                     in if Column pos \<noteq> 0 then s @ '':'' @ strconv_Itoa (Column pos) else s)
               else s)
      in if s = [] then ''-'' else s)"

record File =
  f_name :: string
  f_base :: int
  f_size :: int
  f_lines :: "int list"

definition File_LineCount :: "File \<Rightarrow> int" where
  "File_LineCount f = int (length (f_lines f))"

definition File_AddLine :: "File \<Rightarrow> int \<Rightarrow> File" where
  "File_AddLine f offset =
     (let i = length (f_lines f)
      in if (i = 0 \<or> f_lines f ! (i - 1) < offset) \<and> offset < f_size f
         then f\<lparr>f_lines := f_lines f @ [offset]\<rparr>
         else f)"

definition File_LineStart :: "File \<Rightarrow> int \<Rightarrow> panic + Pos" where
  "File_LineStart f line =
     (if line < 1 then Inl (Panic ''invalid line number (should be >= 1)'')
      else if line > int (length (f_lines f)) then Inl (Panic ''invalid line number (should be < line count)'')
      else Inr (f_base f + f_lines f ! nat (line - 1)))"

definition File_fixOffset :: "File \<Rightarrow> int \<Rightarrow> int" where
  "File_fixOffset f offset =
     (if offset < 0 then 0
      else if offset > f_size f then f_size f
      else offset)"

definition File_Pos :: "File \<Rightarrow> int \<Rightarrow> Pos" where
  "File_Pos f offset = f_base f + File_fixOffset f offset"

definition File_Offset :: "File \<Rightarrow> Pos \<Rightarrow> int" where
  "File_Offset f p = File_fixOffset f (p - f_base f)"

text \<open>
  \<^verbatim>\<open>searchInts\<close>: the loop on \<^verbatim>\<open>i, j\<close> is the recursive function; it halves the
  distance of its bounds.
\<close>

function searchInts_loop :: "int list \<Rightarrow> int \<Rightarrow> nat \<Rightarrow> nat \<Rightarrow> nat" where
  "searchInts_loop a x i j =
     (if i < j
      then (let h = i + (j - i) div 2
            in if a ! h \<le> x then searchInts_loop a x (h + 1) j
               else searchInts_loop a x i h)
      else i)"
  by pat_completeness auto
termination
  by (relation "measure (\<lambda>(a, x, i, j). j - i)") auto

declare searchInts_loop.simps [simp del]

definition searchInts :: "int list \<Rightarrow> int \<Rightarrow> int" where
  "searchInts a x = int (searchInts_loop a x 0 (length a)) - 1"

definition File_unpack :: "File \<Rightarrow> int \<Rightarrow> string \<times> int \<times> int" where
  "File_unpack f offset =
     (let i = searchInts (f_lines f) offset
      in if i \<ge> 0 then (f_name f, i + 1, offset - f_lines f ! nat i + 1)
         else (f_name f, 0, 0))"

definition File_position :: "File \<Rightarrow> Pos \<Rightarrow> Position" where
  "File_position f p =
     (let offset = File_fixOffset f (p - f_base f);
          (filename, line, column) = File_unpack f offset
      in \<lparr>Filename = filename, Offset = offset, Line = line, Column = column\<rparr>)"

definition File_Position :: "File \<Rightarrow> Pos \<Rightarrow> Position" where
  "File_Position f p = (if p = NoPos then Position_zero else File_position f p)"

definition File_Line :: "File \<Rightarrow> Pos \<Rightarrow> int" where
  "File_Line f p = Line (File_Position f p)"

text \<open>
  The file set. \<^verbatim>\<open>files []*File\<close> is the list of the files; a pointer to one of them
  (\<^verbatim>\<open>last *File\<close>, and the result of \<^verbatim>\<open>AddFile\<close> and \<^verbatim>\<open>File\<close>) is its index in
  the list, \<^verbatim>\<open>nil\<close> is \<open>None\<close>.
\<close>

record FileSet =
  s_base :: int
  s_files :: "File list"
  s_last :: "nat option"

definition NewFileSet :: FileSet where
  "NewFileSet = \<lparr>s_base = 1, s_files = [], s_last = None\<rparr>"

definition FileSet_Base :: "FileSet \<Rightarrow> int" where
  "FileSet_Base s = s_base s"

definition FileSet_AddFile :: "FileSet \<Rightarrow> string \<Rightarrow> int \<Rightarrow> int \<Rightarrow> panic + (FileSet \<times> nat)" where
  "FileSet_AddFile s filename base0 size0 =
     (let base = (if base0 < 0 then s_base s else base0)
      in if base < s_base s then Inl (Panic ''invalid base'')
         else if size0 < 0 then Inl (Panic ''invalid size'')
         else (let f = \<lparr>f_name = filename, f_base = base, f_size = size0, f_lines = [0]\<rparr>;
                   base = wrap_int (base + (size0 + 1))
               in if base < 0
                  then Inl (Panic ''token.Pos offset overflow (> 2G of source code in file set)'')
                  else Inr (s\<lparr>s_base := base, s_files := s_files s @ [f],
                                s_last := Some (length (s_files s))\<rparr>,
                            length (s_files s))))"

text \<open>\<^verbatim>\<open>cmp.Compare\<close> and \<^verbatim>\<open>slices.BinarySearchFunc\<close> of the Go standard library.\<close>

definition cmp_Compare :: "int \<Rightarrow> int \<Rightarrow> int" where
  "cmp_Compare x y = (if x < y then - 1 else if x > y then 1 else 0)"

function BinarySearchFunc_loop :: "'e list \<Rightarrow> 't \<Rightarrow> ('e \<Rightarrow> 't \<Rightarrow> int) \<Rightarrow> nat \<Rightarrow> nat \<Rightarrow> nat" where
  "BinarySearchFunc_loop x target cmp i j =
     (if i < j
      then (let h = (i + j) div 2
            in if cmp (x ! h) target < 0 then BinarySearchFunc_loop x target cmp (h + 1) j
               else BinarySearchFunc_loop x target cmp i h)
      else i)"
  by pat_completeness auto
termination
  by (relation "measure (\<lambda>(x, target, cmp, i, j). j - i)") auto

declare BinarySearchFunc_loop.simps [simp del]

definition slices_BinarySearchFunc :: "'e list \<Rightarrow> 't \<Rightarrow> ('e \<Rightarrow> 't \<Rightarrow> int) \<Rightarrow> nat \<times> bool" where
  "slices_BinarySearchFunc x target cmp =
     (let n = length x; i = BinarySearchFunc_loop x target cmp 0 n
      in (i, i < n \<and> cmp (x ! i) target = 0))"

definition searchFiles :: "File list \<Rightarrow> int \<Rightarrow> int" where
  "searchFiles a x =
     (let (i, found) = slices_BinarySearchFunc a x (\<lambda>a x. cmp_Compare (f_base a) x)
      in if \<not> found then int i - 1 else int i)"

definition FileSet_file :: "FileSet \<Rightarrow> Pos \<Rightarrow> FileSet \<times> nat option" where
  "FileSet_file s p =
     (if (case s_last s of None \<Rightarrow> False
          | Some k \<Rightarrow> f_base (s_files s ! k) \<le> p \<and> p \<le> f_base (s_files s ! k) + f_size (s_files s ! k))
      then (s, s_last s)
      else (let i = searchFiles (s_files s) p
            in if i \<ge> 0 \<and> p \<le> f_base (s_files s ! nat i) + f_size (s_files s ! nat i)
               then (s\<lparr>s_last := Some (nat i)\<rparr>, Some (nat i))
               else (s, None)))"

definition FileSet_File :: "FileSet \<Rightarrow> Pos \<Rightarrow> FileSet \<times> nat option" where
  "FileSet_File s p = (if p = NoPos then (s, None) else FileSet_file s p)"

definition FileSet_Position :: "FileSet \<Rightarrow> Pos \<Rightarrow> FileSet \<times> Position" where
  "FileSet_Position s p =
     (if p = NoPos then (s, Position_zero)
      else (case FileSet_file s p of
              (s', Some k) \<Rightarrow> (s', File_position (s_files s' ! k) p)
            | (s', None) \<Rightarrow> (s', Position_zero)))"

text \<open>
  A run of a registry: \<^verbatim>\<open>AddFile\<close> calls (with Go \<^verbatim>\<open>int\<close> arguments), lookups, which
  move the cache, and \<^verbatim>\<open>AddLine\<close> calls on a file of the set. A panic ends the run.
\<close>

datatype fs_op = OpAddFile string int int | OpFile Pos | OpAddLine nat int

fun fs_step :: "FileSet \<Rightarrow> fs_op \<Rightarrow> panic + FileSet" where
  "fs_step s (OpAddFile filename b sz) =
     (if is_int b \<and> is_int sz
      then (case FileSet_AddFile s filename b sz of Inl e \<Rightarrow> Inl e | Inr (s', k) \<Rightarrow> Inr s')
      else Inl (Panic ''not an int''))"
| "fs_step s (OpFile p) = Inr (fst (FileSet_File s p))"
| "fs_step s (OpAddLine k offset) =
     (if k < length (s_files s)
      then Inr (s\<lparr>s_files := (s_files s)[k := File_AddLine (s_files s ! k) offset]\<rparr>)
      else Inl (Panic ''nil pointer dereference''))"

fun fs_run :: "FileSet \<Rightarrow> fs_op list \<Rightarrow> panic + FileSet" where
  "fs_run s [] = Inr s"
| "fs_run s (x # xs) = (case fs_step s x of Inl e \<Rightarrow> Inl e | Inr s' \<Rightarrow> fs_run s' xs)"

definition file_contains :: "File \<Rightarrow> Pos \<Rightarrow> bool" where
  "file_contains f p = (f_base f \<le> p \<and> p \<le> f_base f + f_size f)"

section \<open>Package parser: the error list\<close>

record Error =
  e_Pos :: Position
  e_Msg :: string

definition Error_Error :: "Error \<Rightarrow> string" where
  "Error_Error e =
     (if Filename (e_Pos e) \<noteq> [] \<or> Position_IsValid (e_Pos e)
      then Position_String (e_Pos e) @ '': '' @ e_Msg e
      else e_Msg e)"

type_synonym ErrorList = "Error list"

text \<open>
  \<^verbatim>\<open>fmt.Sprintf("%s (and %d more errors)", p[0], len(p)-1)\<close>: the verb \<^verbatim>\<open>%s\<close> prints
  an \<^verbatim>\<open>Error\<close> through its \<^verbatim>\<open>Error()\<close> method, \<^verbatim>\<open>%d\<close> prints the decimal form.
\<close>

definition ErrorList_Error :: "ErrorList \<Rightarrow> string" where
  "ErrorList_Error p =
     (if length p = 0 then ''no errors''
      else if length p = 1 then Error_Error (p ! 0)
      else Error_Error (p ! 0) @ '' (and '' @ strconv_Itoa (int (length p) - 1) @ '' more errors)'')"

text \<open>The result of \<^verbatim>\<open>Err\<close> is an \<^verbatim>\<open>error\<close> interface value: \<^verbatim>\<open>nil\<close> is \<open>None\<close>.\<close>

definition ErrorList_Err :: "ErrorList \<Rightarrow> ErrorList option" where
  "ErrorList_Err p = (if length p = 0 then None else Some p)"

definition ErrorList_Len :: "ErrorList \<Rightarrow> int" where
  "ErrorList_Len p = int (length p)"

definition ErrorList_Reset :: "ErrorList \<Rightarrow> ErrorList" where
  "ErrorList_Reset p = take 0 p"

definition ErrorList_Add :: "ErrorList \<Rightarrow> Position \<Rightarrow> string \<Rightarrow> ErrorList" where
  "ErrorList_Add p pos msg = p @ [\<lparr>e_Pos = pos, e_Msg = msg\<rparr>]"

text \<open>\<^verbatim>\<open>strings.Compare\<close>: the order of the bytes, the shorter string first.\<close>

fun strings_Compare :: "string \<Rightarrow> string \<Rightarrow> int" where
  "strings_Compare [] [] = 0"
| "strings_Compare [] (y # ys) = - 1"
| "strings_Compare (x # xs) [] = 1"
| "strings_Compare (x # xs) (y # ys) =
     (if (of_char x :: nat) < of_char y then - 1
      else if (of_char x :: nat) > of_char y then 1
      else strings_Compare xs ys)"

text \<open>\<^verbatim>\<open>cmp.Or\<close>: the first of its arguments that is not zero.\<close>

fun cmp_Or :: "int list \<Rightarrow> int" where
  "cmp_Or [] = 0"
| "cmp_Or (v # vs) = (if v \<noteq> 0 then v else cmp_Or vs)"

definition Error_cmp :: "Error \<Rightarrow> Error \<Rightarrow> int" where
  "Error_cmp ee ff =
     (let e = e_Pos ee; f = e_Pos ff
      in cmp_Or [strings_Compare (Filename e) (Filename f),
                 cmp_Compare (Line e) (Line f),
                 cmp_Compare (Column e) (Column f),
                 strings_Compare (e_Msg ee) (e_Msg ff)])"

text \<open>
  \<^verbatim>\<open>slices.SortFunc\<close> of the Go standard library sorts by the comparison and keeps no
  order among entries that compare equal. The model is an insertion sort; it gives the
  list the library gives whenever entries that compare equal are equal.
\<close>

fun SortFunc_insert :: "('a \<Rightarrow> 'a \<Rightarrow> int) \<Rightarrow> 'a \<Rightarrow> 'a list \<Rightarrow> 'a list" where
  "SortFunc_insert c e [] = [e]"
| "SortFunc_insert c e (f # fs) =
     (if c e f \<le> 0 then e # f # fs else f # SortFunc_insert c e fs)"

definition slices_SortFunc :: "'a list \<Rightarrow> ('a \<Rightarrow> 'a \<Rightarrow> int) \<Rightarrow> 'a list" where
  "slices_SortFunc p c = foldr (SortFunc_insert c) p []"

definition ErrorList_sort :: "ErrorList \<Rightarrow> ErrorList" where
  "ErrorList_sort p = slices_SortFunc p Error_cmp"

fun removeMultiples_loop :: "Position \<Rightarrow> ErrorList \<Rightarrow> ErrorList" where
  "removeMultiples_loop last' [] = []"
| "removeMultiples_loop last' (e # es) =
     (if Filename (e_Pos e) \<noteq> Filename last' \<or> Line (e_Pos e) \<noteq> Line last'
      then e # removeMultiples_loop (e_Pos e) es
      else removeMultiples_loop last' es)"

definition ErrorList_removeMultiples :: "ErrorList \<Rightarrow> ErrorList" where
  "ErrorList_removeMultiples p = removeMultiples_loop Position_zero (ErrorList_sort p)"

section \<open>Package lexer\<close>

subsection \<open>Runes, UTF-8 and formatting (Go standard library)\<close>

text \<open>
  A source is a \<^verbatim>\<open>[]byte\<close>: a list of \<open>char\<close>, each one byte. A \<^verbatim>\<open>rune\<close> is an \<open>int\<close>;
  \<open>rune c\<close> is the rune of the ASCII character \<open>c\<close>, as a Go character literal.
\<close>

type_synonym rune = int

abbreviation (input) rune :: "char \<Rightarrow> rune" where
  "rune c \<equiv> of_char c"

abbreviation (input) bom :: rune where "bom \<equiv> 0xFEFF"
abbreviation (input) eof :: rune where "eof \<equiv> - 1"
abbreviation (input) utf8_RuneError :: rune where "utf8_RuneError \<equiv> 0xFFFD"
abbreviation (input) utf8_MaxRune :: rune where "utf8_MaxRune \<equiv> 0x10FFFF"
abbreviation (input) utf8_RuneSelf :: rune where "utf8_RuneSelf \<equiv> 0x80"

text \<open>
  \<^verbatim>\<open>utf8.DecodeRune\<close>. The library reads the class of the first byte from a table; the
  model writes the table's ranges out: the size of the sequence and the range accepted
  for the second byte. A wrong or short sequence decodes to \<^verbatim>\<open>(RuneError, 1)\<close>.
\<close>

definition utf8_DecodeRune :: "string \<Rightarrow> rune \<times> nat" where
  "utf8_DecodeRune p =
     (let n = length p
      in if n < 1 then (utf8_RuneError, 0)
         else (let p0 = (of_char (p ! 0) :: int)
               in if p0 < 0x80 then (p0, 1)
                  else if p0 < 0xC2 \<or> 0xF4 < p0 then (utf8_RuneError, 1)
                  else (let sz = (if p0 < 0xE0 then 2 else if p0 < 0xF0 then 3 else 4 :: nat);
                            lo = (if p0 = 0xE0 then 0xA0 else if p0 = 0xF0 then 0x90 else 0x80 :: int);
                            hi = (if p0 = 0xED then 0x9F else if p0 = 0xF4 then 0x8F else 0xBF :: int)
                        in if n < sz then (utf8_RuneError, 1)
                           else (let b1 = (of_char (p ! 1) :: int)
                                 in if b1 < lo \<or> hi < b1 then (utf8_RuneError, 1)
                                    else if sz \<le> 2 then ((p0 mod 32) * 64 + b1 mod 64, 2)
                                    else (let b2 = (of_char (p ! 2) :: int)
                                          in if b2 < 0x80 \<or> 0xBF < b2 then (utf8_RuneError, 1)
                                             else if sz \<le> 3
                                             then ((p0 mod 16) * 4096 + (b1 mod 64) * 64 + b2 mod 64, 3)
                                             else (let b3 = (of_char (p ! 3) :: int)
                                                   in if b3 < 0x80 \<or> 0xBF < b3 then (utf8_RuneError, 1)
                                                      else ((p0 mod 8) * 262144 + (b1 mod 64) * 4096 +
                                                            (b2 mod 64) * 64 + b3 mod 64, 4)))))))"

text \<open>\<^verbatim>\<open>string(r)\<close> for a rune: its UTF-8 bytes, those of U+FFFD for an invalid rune.\<close>

definition utf8_encode :: "rune \<Rightarrow> string" where
  "utf8_encode r =
     (if r < 0x80 then [char_of r]
      else if r < 0x800 then [char_of (0xC0 + r div 64), char_of (0x80 + r mod 64)]
      else if r < 0x10000
      then [char_of (0xE0 + r div 4096), char_of (0x80 + (r div 64) mod 64), char_of (0x80 + r mod 64)]
      else [char_of (0xF0 + r div 262144), char_of (0x80 + (r div 4096) mod 64),
            char_of (0x80 + (r div 64) mod 64), char_of (0x80 + r mod 64)])"

definition string_of_rune :: "rune \<Rightarrow> string" where
  "string_of_rune r =
     (if r < 0 \<or> utf8_MaxRune < r \<or> (0xD800 \<le> r \<and> r < 0xE000) then utf8_encode utf8_RuneError
      else utf8_encode r)"

text \<open>
  The verbs of \<^verbatim>\<open>fmt\<close> that the lexer's messages use. \<^verbatim>\<open>%#U\<close> prints \<^verbatim>\<open>U+0040 '@'\<close>:
  the code point in upper-case hexadecimal, four digits at least, and the character itself
  when \<^verbatim>\<open>strconv.IsPrint\<close> holds. The Unicode tables behind \<^verbatim>\<open>IsPrint\<close> are not part of
  this repository: the model writes out ASCII and Latin-1 and leaves the answer for a larger
  rune to \<open>isPrint_table\<close>, about which nothing is known.
\<close>

fun hexadecimal :: "nat \<Rightarrow> string" where
  "hexadecimal n =
     (if n < 16 then [''0123456789ABCDEF'' ! n]
      else hexadecimal (n div 16) @ [''0123456789ABCDEF'' ! (n mod 16)])"

declare hexadecimal.simps [simp del]

definition isPrint_table :: "rune \<Rightarrow> bool" where
  "isPrint_table = undefined"

definition strconv_IsPrint :: "rune \<Rightarrow> bool" where
  "strconv_IsPrint r =
     (if r < 0x80 then 0x20 \<le> r \<and> r < 0x7F
      else if r < 0x100 then 0xA1 \<le> r \<and> r \<noteq> 0xAD
      else isPrint_table r)"

definition fmt_sharpU :: "rune \<Rightarrow> string" where
  "fmt_sharpU r =
     (let h = hexadecimal (nat r);
          s = ''U+'' @ replicate (4 - length h) CHR ''0'' @ h
      in if r \<le> utf8_MaxRune \<and> strconv_IsPrint r
         then s @ '' '' @ [CHR 0x27] @ string_of_rune r @ [CHR 0x27]
         else s)"

text \<open>
  \<^verbatim>\<open>%q\<close> of a character that is printable and is neither a quote nor a backslash: the
  character between single quotes. The lexer prints with \<^verbatim>\<open>%q\<close> only a curly quotation
  mark, the neutral quotation mark and a hexadecimal digit.
\<close>

definition fmt_q :: "string \<Rightarrow> string" where
  "fmt_q c = [CHR 0x27] @ c @ [CHR 0x27]"

subsection \<open>Slices\<close>

text \<open>
  \<^verbatim>\<open>b[lo:hi]\<close> and \<^verbatim>\<open>b[i]\<close> panic out of range; the model returns the panic.
  \<open>bindP\<close> passes a result on and stops at a panic.
\<close>

definition go_slice :: "'a list \<Rightarrow> int \<Rightarrow> int \<Rightarrow> panic + 'a list" where
  "go_slice b lo hi =
     (if 0 \<le> lo \<and> lo \<le> hi \<and> hi \<le> int (length b)
      then Inr (take (nat (hi - lo)) (drop (nat lo) b))
      else Inl (Panic ''slice bounds out of range''))"

definition go_index :: "'a list \<Rightarrow> int \<Rightarrow> panic + 'a" where
  "go_index b i =
     (if 0 \<le> i \<and> i < int (length b) then Inr (b ! nat i)
      else Inl (Panic ''index out of range''))"

definition bindP :: "panic + 'a \<Rightarrow> ('a \<Rightarrow> panic + 'b) \<Rightarrow> panic + 'b" where
  "bindP m f = (case m of Inl e \<Rightarrow> Inl e | Inr x \<Rightarrow> f x)"

subsection \<open>The lexer's state\<close>

text \<open>
  \<^verbatim>\<open>type Lexer struct\<close>. The offsets are Go \<^verbatim>\<open>int\<close>s that start at 0 and only grow:
  they are natural numbers. The file is the \<^verbatim>\<open>*token.File\<close> the lexer adds lines to.
  The error handler is a callback: \<open>l_errFn\<close> says whether one is set, and \<open>l_errors\<close> is the
  list of the calls it has received, in order.
\<close>

record Lexer =
  l_file :: File
  l_src :: string
  l_errFn :: bool
  l_errors :: ErrorList
  l_errCount :: int
  l_ch :: rune
  l_offset :: nat
  l_readOffset :: nat
  l_lineOffset :: nat
  l_insertSemi :: bool
  l_nlPos :: Pos
  l_noNewSemi :: bool

definition Lexer_error :: "Lexer \<Rightarrow> int \<Rightarrow> string \<Rightarrow> Lexer" where
  "Lexer_error l offs msg =
     l\<lparr>l_errCount := l_errCount l + 1,
       l_errors := (if l_errFn l
                    then ErrorList_Add (l_errors l) (File_Position (l_file l) (File_Pos (l_file l) offs)) msg
                    else l_errors l)\<rparr>"

definition Lexer_errorf :: "Lexer \<Rightarrow> int \<Rightarrow> string \<Rightarrow> Lexer" where
  "Lexer_errorf l offs msg = Lexer_error l offs msg"

definition Lexer_next :: "Lexer \<Rightarrow> Lexer" where
  "Lexer_next l =
     (if l_readOffset l \<ge> length (l_src l)
      then (let l = l\<lparr>l_offset := length (l_src l)\<rparr>;
                l = (if l_ch l = rune CHR 0x0A
                     then l\<lparr>l_lineOffset := l_offset l,
                            l_file := File_AddLine (l_file l) (int (l_offset l))\<rparr>
                     else l)
            in l\<lparr>l_ch := eof\<rparr>)
      else (let l = l\<lparr>l_offset := l_readOffset l\<rparr>;
                l = (if l_ch l = rune CHR 0x0A
                     then l\<lparr>l_lineOffset := l_offset l,
                            l_file := File_AddLine (l_file l) (int (l_offset l))\<rparr>
                     else l);
                r = (of_char (l_src l ! l_readOffset l) :: int)
            in if r = 0
               then (let l = Lexer_error l (int (l_offset l)) ''illegal character NUL''
                     in l\<lparr>l_readOffset := l_readOffset l + 1, l_ch := r\<rparr>)
               else if r \<ge> utf8_RuneSelf
               then (let (r, w) = utf8_DecodeRune (drop (l_readOffset l) (l_src l));
                         l = (if r = utf8_RuneError \<and> w = 1
                              then (let in' = drop (l_readOffset l) (l_src l)
                                    in if l_offset l = 0 \<and> length in' \<ge> 2 \<and>
                                          ((of_char (in' ! 0) :: int) = 0xFF \<and> (of_char (in' ! 1) :: int) = 0xFE \<or>
                                           (of_char (in' ! 0) :: int) = 0xFE \<and> (of_char (in' ! 1) :: int) = 0xFF)
                                       then (let l = Lexer_error l (int (l_offset l)) ''illegal UTF-8 encoding (got UTF-16)''
                                             in l\<lparr>l_readOffset := l_readOffset l + length in'\<rparr>)
                                       else Lexer_error l (int (l_offset l)) ''illegal UTF-8 encoding'')
                              else if r = bom \<and> l_offset l > 0
                              then Lexer_error l (int (l_offset l)) ''illegal byte order mark''
                              else l)
                     in l\<lparr>l_readOffset := l_readOffset l + w, l_ch := r\<rparr>)
               else l\<lparr>l_readOffset := l_readOffset l + 1, l_ch := r\<rparr>))"

definition Lexer_peek :: "Lexer \<Rightarrow> int" where
  "Lexer_peek l =
     (if l_readOffset l < length (l_src l) then of_char (l_src l ! l_readOffset l) else 0)"

text \<open>
  \<^verbatim>\<open>NewLexer\<close>. \<open>err\<close> says whether an error handler is given. The size of the file must be
  the length of the source, or the constructor panics.
\<close>

definition NewLexer :: "File \<Rightarrow> string \<Rightarrow> bool \<Rightarrow> panic + Lexer" where
  "NewLexer file src err =
     (if f_size file \<noteq> int (length src)
      then Inl (Panic ''file size does not match src len'')
      else (let l = \<lparr>l_file = file, l_src = src, l_errFn = err, l_errors = [], l_errCount = 0,
                      l_ch = rune CHR '' '', l_offset = 0, l_readOffset = 0, l_lineOffset = 0,
                      l_insertSemi = False, l_nlPos = NoPos, l_noNewSemi = False\<rparr>;
                l = Lexer_next l
            in Inr (if l_ch l = bom then Lexer_next l else l)))"

subsection \<open>Character classes\<close>

definition digitVal :: "rune \<Rightarrow> int" where
  "digitVal ch =
     (if rune CHR ''0'' \<le> ch \<and> ch \<le> rune CHR ''9'' then ch - rune CHR ''0''
      else if rune CHR ''a'' \<le> ch \<and> ch \<le> rune CHR ''f'' then ch - rune CHR ''a'' + 10
      else if rune CHR ''A'' \<le> ch \<and> ch \<le> rune CHR ''F'' then ch - rune CHR ''A'' + 10
      else 16)"

definition isLetter :: "rune \<Rightarrow> bool" where
  "isLetter ch =
     (rune CHR ''a'' \<le> ch \<and> ch \<le> rune CHR ''z'' \<or>
      rune CHR ''A'' \<le> ch \<and> ch \<le> rune CHR ''Z'' \<or>
      ch = rune CHR ''_'')"

definition lower :: "rune \<Rightarrow> rune" where
  "lower ch = or (rune CHR ''a'' - rune CHR ''A'') ch"

definition isDecimal :: "rune \<Rightarrow> bool" where
  "isDecimal ch = (rune CHR ''0'' \<le> ch \<and> ch \<le> rune CHR ''9'')"

definition isHex :: "rune \<Rightarrow> bool" where
  "isHex ch =
     (rune CHR ''0'' \<le> ch \<and> ch \<le> rune CHR ''9'' \<or>
      rune CHR ''a'' \<le> ch \<and> ch \<le> rune CHR ''f'' \<or>
      rune CHR ''A'' \<le> ch \<and> ch \<le> rune CHR ''F'')"

definition litname :: "int \<Rightarrow> string" where
  "litname base =
     (if base = 2 then ''binary literal''
      else if base = 8 then ''octal literal''
      else if base = 16 then ''hexadecimal literal''
      else ''decimal literal'')"

fun stripCR_loop :: "bool \<Rightarrow> string \<Rightarrow> string \<Rightarrow> string" where
  "stripCR_loop comment c [] = c"
| "stripCR_loop comment c (ch # b) =
     (if ch \<noteq> CHR 0x0D \<or>
         comment \<and> length c > length ''/*'' \<and> c ! (length c - 1) = CHR ''*'' \<and>
           b \<noteq> [] \<and> b ! 0 = CHR ''/''
      then stripCR_loop comment (c @ [ch]) b
      else stripCR_loop comment c b)"

definition stripCR :: "string \<Rightarrow> bool \<Rightarrow> string" where
  "stripCR b comment = stripCR_loop comment [] b"

subsection \<open>Progress of \<^verbatim>\<open>next\<close>\<close>

text \<open>
  The loops of the lexer call \<^verbatim>\<open>next\<close> while the current character is not the end of the
  file. \<open>lexer_fuel\<close> counts what is left to read; \<^verbatim>\<open>next\<close> never raises it and lowers it
  whenever the current character is not the end of the file. It is the measure of every
  loop below.
\<close>

definition lexer_fuel :: "Lexer \<Rightarrow> nat" where
  "lexer_fuel l = 2 * (length (l_src l) - l_readOffset l) + (if 0 \<le> l_ch l then 1 else 0)"

lemma of_char_int_range: "(0::int) \<le> of_char c" "(of_char c :: int) < 256"
proof -
  have eq: "(of_char c :: int) = int (of_char c)" by (simp add: of_nat_of_char)
  show "(0::int) \<le> of_char c" unfolding eq by simp
  show "(of_char c :: int) < 256" unfolding eq using nat_of_char_less_256[of c] by linarith
qed

lemma utf8_DecodeRune_width: "p \<noteq> [] \<Longrightarrow> 1 \<le> snd (utf8_DecodeRune p)"
  by (cases p) (simp_all add: utf8_DecodeRune_def Let_def)

lemma utf8_DecodeRune_nonneg: "0 \<le> fst (utf8_DecodeRune p)"
  using of_char_int_range(1)[of "p ! 0"] of_char_int_range(1)[of "p ! 1"]
    of_char_int_range(1)[of "p ! 2"] of_char_int_range(1)[of "p ! 3"]
  by (simp add: utf8_DecodeRune_def Let_def)

lemma Lexer_error_frame [simp]:
  "l_file (Lexer_error l offs msg) = l_file l"
  "l_src (Lexer_error l offs msg) = l_src l"
  "l_errFn (Lexer_error l offs msg) = l_errFn l"
  "l_ch (Lexer_error l offs msg) = l_ch l"
  "l_offset (Lexer_error l offs msg) = l_offset l"
  "l_readOffset (Lexer_error l offs msg) = l_readOffset l"
  "l_lineOffset (Lexer_error l offs msg) = l_lineOffset l"
  "l_insertSemi (Lexer_error l offs msg) = l_insertSemi l"
  "l_nlPos (Lexer_error l offs msg) = l_nlPos l"
  "l_noNewSemi (Lexer_error l offs msg) = l_noNewSemi l"
  by (simp_all add: Lexer_error_def)

lemma Lexer_error_fuel [simp]: "lexer_fuel (Lexer_error l offs msg) = lexer_fuel l"
  by (simp add: lexer_fuel_def)

lemma File_AddLine_frame [simp]:
  "f_name (File_AddLine f offset) = f_name f"
  "f_base (File_AddLine f offset) = f_base f"
  "f_size (File_AddLine f offset) = f_size f"
  by (simp_all add: File_AddLine_def Let_def)

lemma Lexer_next_frame [simp]:
  "l_src (Lexer_next l) = l_src l"
  "l_errFn (Lexer_next l) = l_errFn l"
  "l_insertSemi (Lexer_next l) = l_insertSemi l"
  "l_nlPos (Lexer_next l) = l_nlPos l"
  "l_noNewSemi (Lexer_next l) = l_noNewSemi l"
  "f_name (l_file (Lexer_next l)) = f_name (l_file l)"
  "f_base (l_file (Lexer_next l)) = f_base (l_file l)"
  "f_size (l_file (Lexer_next l)) = f_size (l_file l)"
  by (simp_all add: Lexer_next_def Let_def split: prod.splits)

lemma Lexer_next_at_end:
  assumes "length (l_src l) \<le> l_readOffset l"
  shows "l_ch (Lexer_next l) = eof" "l_offset (Lexer_next l) = length (l_src l)"
    "l_readOffset (Lexer_next l) = l_readOffset l"
  using assms by (simp_all add: Lexer_next_def Let_def)

lemma Lexer_next_inside:
  assumes "l_readOffset l < length (l_src l)"
  shows "0 \<le> l_ch (Lexer_next l)" "l_offset (Lexer_next l) = l_readOffset l"
    "l_readOffset l < l_readOffset (Lexer_next l)"
proof -
  have ne: "drop (l_readOffset l) (l_src l) \<noteq> []" using assms by simp
  note w = utf8_DecodeRune_width[OF ne] and r = utf8_DecodeRune_nonneg[of "drop (l_readOffset l) (l_src l)"]
  show "0 \<le> l_ch (Lexer_next l)"
    using assms r of_char_int_range(1)[of "l_src l ! l_readOffset l"]
    by (auto simp: Lexer_next_def Let_def split: prod.splits)
  show "l_offset (Lexer_next l) = l_readOffset l"
    using assms by (simp add: Lexer_next_def Let_def split: prod.splits)
  show "l_readOffset l < l_readOffset (Lexer_next l)"
    using assms w by (auto simp: Lexer_next_def Let_def split: prod.splits)
qed

lemma Lexer_next_fuel_le: "lexer_fuel (Lexer_next l) \<le> lexer_fuel l"
proof (cases "l_readOffset l < length (l_src l)")
  case True
  from Lexer_next_inside[OF True] True show ?thesis unfolding lexer_fuel_def Lexer_next_frame
    by (simp split: if_splits)
next
  case False
  then have "length (l_src l) \<le> l_readOffset l" by simp
  from Lexer_next_at_end[OF this] show ?thesis by (simp add: lexer_fuel_def)
qed

lemma Lexer_next_fuel_less:
  assumes "0 \<le> l_ch l"
  shows "lexer_fuel (Lexer_next l) < lexer_fuel l"
proof (cases "l_readOffset l < length (l_src l)")
  case True
  from Lexer_next_inside[OF True] True show ?thesis by (simp add: lexer_fuel_def)
next
  case False
  then have "length (l_src l) \<le> l_readOffset l" by simp
  from Lexer_next_at_end[OF this] assms show ?thesis by (simp add: lexer_fuel_def)
qed

subsection \<open>Scanning\<close>

function skipWhitespace_loop :: "Lexer \<Rightarrow> Lexer" where
  "skipWhitespace_loop l =
     (if l_ch l = rune CHR '' '' \<or>
         l_ch l = rune CHR 0x09 \<or>
         l_ch l = rune CHR 0x0A \<and> \<not> l_insertSemi l \<or>
         l_ch l = rune CHR 0x0D
      then skipWhitespace_loop (Lexer_next l)
      else l)"
  by pat_completeness auto
termination
  by (relation "measure lexer_fuel") (auto intro!: Lexer_next_fuel_less)

declare skipWhitespace_loop.simps [simp del]

definition Lexer_skipWhitespace :: "Lexer \<Rightarrow> Lexer" where
  "Lexer_skipWhitespace l = skipWhitespace_loop l"

text \<open>\<^verbatim>\<open>switch2\<close>, \<^verbatim>\<open>switch3\<close>, \<^verbatim>\<open>switch4\<close>: the lexer after the call, and the token.\<close>

definition Lexer_switch2 :: "Lexer \<Rightarrow> Token \<Rightarrow> Token \<Rightarrow> Lexer \<times> Token" where
  "Lexer_switch2 l tok0 tok1 =
     (if l_ch l = rune CHR ''='' then (Lexer_next l, tok1) else (l, tok0))"

definition Lexer_switch3 :: "Lexer \<Rightarrow> Token \<Rightarrow> Token \<Rightarrow> rune \<Rightarrow> Token \<Rightarrow> Lexer \<times> Token" where
  "Lexer_switch3 l tok0 tok1 ch2 tok2 =
     (if l_ch l = rune CHR ''='' then (Lexer_next l, tok1)
      else if l_ch l = ch2 then (Lexer_next l, tok2)
      else (l, tok0))"

definition Lexer_switch4 :: "Lexer \<Rightarrow> Token \<Rightarrow> Token \<Rightarrow> rune \<Rightarrow> Token \<Rightarrow> Token \<Rightarrow> Lexer \<times> Token" where
  "Lexer_switch4 l tok0 tok1 ch2 tok2 tok3 =
     (if l_ch l = rune CHR ''='' then (Lexer_next l, tok1)
      else if l_ch l = ch2
      then (let l = Lexer_next l
            in if l_ch l = rune CHR ''='' then (Lexer_next l, tok3) else (l, tok2))
      else (l, tok0))"

text \<open>\<^verbatim>\<open>scanIdent\<close>: the loop, then the slice of the source it went over.\<close>

function scanIdent_loop :: "Lexer \<Rightarrow> Lexer" where
  "scanIdent_loop l =
     (if isLetter (l_ch l) \<or> isDecimal (l_ch l) then scanIdent_loop (Lexer_next l) else l)"
  by pat_completeness auto
termination
  by (relation "measure lexer_fuel") (auto intro!: Lexer_next_fuel_less simp: isLetter_def isDecimal_def)

declare scanIdent_loop.simps [simp del]

definition Lexer_scanIdent :: "Lexer \<Rightarrow> panic + (Lexer \<times> string)" where
  "Lexer_scanIdent l =
     (let offs = int (l_offset l);
          l = scanIdent_loop l
      in bindP (go_slice (l_src l) offs (int (l_offset l))) (\<lambda>lit. Inr (l, lit)))"

text \<open>
  \<^verbatim>\<open>type digSep byte\<close>: a set of two bits. \<^verbatim>\<open>scanDigits\<close> returns the lexer, the bits
  and the value of \<^verbatim>\<open>*invalid\<close>.
\<close>

type_synonym digSep = nat

definition digSep_IsEmpty :: "digSep \<Rightarrow> bool" where
  "digSep_IsEmpty d = (and d 1 = 0)"

definition digSep_HasDig :: "digSep \<Rightarrow> bool" where
  "digSep_HasDig d = (and d 1 = 1)"

definition digSep_HasSep :: "digSep \<Rightarrow> bool" where
  "digSep_HasSep d = (and d 2 \<noteq> 0)"

function scanDigits_loop1 :: "rune \<Rightarrow> Lexer \<Rightarrow> digSep \<Rightarrow> int \<Rightarrow> Lexer \<times> digSep \<times> int" where
  "scanDigits_loop1 maxDigit l digsep invalid =
     (if isHex (l_ch l) \<or> l_ch l = rune CHR ''_''
      then (let ds = (if l_ch l = rune CHR ''_'' then 2 else 1);
                invalid = (if l_ch l \<noteq> rune CHR ''_'' \<and> l_ch l \<ge> maxDigit \<and> invalid < 0
                           then int (l_offset l) else invalid)
            in scanDigits_loop1 maxDigit (Lexer_next l) (or digsep ds) invalid)
      else (l, digsep, invalid))"
  by pat_completeness auto
termination
  by (relation "measure (\<lambda>(m, l, d, i). lexer_fuel l)")
     (auto intro!: Lexer_next_fuel_less simp: isHex_def)

declare scanDigits_loop1.simps [simp del]

function scanDigits_loop2 :: "Lexer \<Rightarrow> digSep \<Rightarrow> Lexer \<times> digSep" where
  "scanDigits_loop2 l digsep =
     (if isHex (l_ch l) \<or> l_ch l = rune CHR ''_''
      then (let ds = (if l_ch l = rune CHR ''_'' then 2 else 1)
            in scanDigits_loop2 (Lexer_next l) (or digsep ds))
      else (l, digsep))"
  by pat_completeness auto
termination
  by (relation "measure (\<lambda>(l, d). lexer_fuel l)")
     (auto intro!: Lexer_next_fuel_less simp: isHex_def)

declare scanDigits_loop2.simps [simp del]

definition Lexer_scanDigits :: "Lexer \<Rightarrow> int \<Rightarrow> int \<Rightarrow> Lexer \<times> digSep \<times> int" where
  "Lexer_scanDigits l base invalid =
     (if base \<le> 10
      then scanDigits_loop1 (rune CHR ''0'' + base) l 0 invalid
      else (let (l, digsep) = scanDigits_loop2 l 0 in (l, digsep, invalid)))"

function invalidSep_loop :: "string \<Rightarrow> rune \<Rightarrow> rune \<Rightarrow> nat \<Rightarrow> int" where
  "invalidSep_loop x x1 d i =
     (if i < length x
      then (let p = d; d = (of_char (x ! i) :: int)
            in if d = rune CHR ''_''
               then (if p \<noteq> rune CHR ''0'' then int i else invalidSep_loop x x1 d (i + 1))
               else if isDecimal d \<or> x1 = rune CHR ''x'' \<and> isHex d
               then invalidSep_loop x x1 (rune CHR ''0'') (i + 1)
               else if p = rune CHR ''_'' then int i - 1
               else invalidSep_loop x x1 (rune CHR ''.'') (i + 1))
      else (if d = rune CHR ''_'' then int (length x) - 1 else - 1))"
  by pat_completeness auto
termination
  by (relation "measure (\<lambda>(x, x1, d, i). length x - i)") auto

declare invalidSep_loop.simps [simp del]

definition invalidSep :: "string \<Rightarrow> int" where
  "invalidSep x =
     (let x1 = (if length x \<ge> 2 \<and> x ! 0 = CHR ''0'' then lower (of_char (x ! 1)) else rune CHR '' '')
      in if length x \<ge> 2 \<and> x ! 0 = CHR ''0'' \<and>
            (x1 = rune CHR ''b'' \<or> x1 = rune CHR ''o'' \<or> x1 = rune CHR ''x'')
         then invalidSep_loop x x1 (rune CHR ''0'') 2
         else invalidSep_loop x x1 (rune CHR ''.'') 0)"

definition Lexer_scanNumber :: "Lexer \<Rightarrow> panic + (Lexer \<times> Token \<times> string)" where
  "Lexer_scanNumber l =
     (let offs = int (l_offset l);
          (l, base) =
            (if l_ch l = rune CHR ''0''
             then (if Lexer_peek l = rune CHR ''b'' \<or> Lexer_peek l = rune CHR ''B''
                   then (Lexer_next (Lexer_next l), 2)
                   else if Lexer_peek l = rune CHR ''o'' \<or> Lexer_peek l = rune CHR ''O''
                   then (Lexer_next (Lexer_next l), 8)
                   else if Lexer_peek l = rune CHR ''x'' \<or> Lexer_peek l = rune CHR ''X''
                   then (Lexer_next (Lexer_next l), 16)
                   else (l, 10))
             else (l, 10 :: int));
          (l, digsep, invalid) = Lexer_scanDigits l base (- 1);
          l = (if digSep_IsEmpty digsep
               then Lexer_error l (int (l_offset l)) (litname base @ '' has no digits'')
               else l);
          (l, tok, digsepFrac, invalid) =
            (if l_ch l = rune CHR ''.''
             then (let l = Lexer_next l;
                       l = (if base \<noteq> 10 then Lexer_error l offs ''only decimal floats are possible'' else l);
                       (l, digsepFrac, invalid) = Lexer_scanDigits l 10 invalid
                   in (l, token_Float, digsepFrac, invalid))
             else (l, token_Int, 0, invalid))
      in bindP (go_slice (l_src l) offs (int (l_offset l))) (\<lambda>lit.
         bindP (if tok = token_Int \<and> invalid \<ge> 0
                then bindP (go_index lit (invalid - offs)) (\<lambda>c.
                       Inr (Lexer_errorf l invalid (''invalid digit '' @ fmt_q [c] @ '' in '' @ litname base)))
                else Inr l) (\<lambda>l.
         (let l = (if digSep_HasSep digsep \<or> digSep_HasSep digsepFrac
                   then (let i = invalidSep lit
                         in if i \<ge> 0
                            then Lexer_error l (offs + i) ([CHR 0x27] @ ''_'' @ [CHR 0x27] @ '' must separate successive digits'')
                            else l)
                   else l);
              l = (if tok = token_Float \<and> digSep_IsEmpty digsepFrac
                   then Lexer_error l offs ''no fraction part for the float''
                   else l)
          in Inr (l, tok, lit)))))"

text \<open>
  \<^verbatim>\<open>scanEscape\<close>. The digits of a numeric escape are read by a loop that counts \<open>n\<close> down;
  its value stays below \<open>2 ^ 32\<close> (eight hexadecimal digits at most), so the \<^verbatim>\<open>uint32\<close>
  of the source never wraps. The loop returns \<open>None\<close> where the source returns \<^verbatim>\<open>false\<close>.
\<close>

fun scanEscape_digits :: "nat \<Rightarrow> int \<Rightarrow> Lexer \<Rightarrow> int \<Rightarrow> Lexer \<times> int option" where
  "scanEscape_digits 0 base l x = (l, Some x)"
| "scanEscape_digits (Suc n) base l x =
     (let d = digitVal (l_ch l)
      in if d \<ge> base
         then (Lexer_error l (int (l_offset l))
                 (if l_ch l < 0 then ''escape sequence not terminated''
                  else ''illegal character '' @ fmt_sharpU (l_ch l) @ '' in escape sequence''),
               None)
         else scanEscape_digits n base (Lexer_next l) (x * base + d))"

definition scanEscape_number :: "Lexer \<Rightarrow> int \<Rightarrow> nat \<Rightarrow> int \<Rightarrow> int \<Rightarrow> Lexer \<times> bool" where
  "scanEscape_number l offs n base maxValue =
     (case scanEscape_digits n base l 0 of
        (l, None) \<Rightarrow> (l, False)
      | (l, Some x) \<Rightarrow>
          if x > maxValue \<or> 0xD800 \<le> x \<and> x < 0xE000
          then (Lexer_error l offs ''escape sequence is invalid Unicode code point'', False)
          else (l, True))"

definition Lexer_scanEscape :: "Lexer \<Rightarrow> rune \<Rightarrow> Lexer \<times> bool" where
  "Lexer_scanEscape l quote =
     (let offs = int (l_offset l); ch = l_ch l
      in if ch = rune CHR ''a'' \<or> ch = rune CHR ''b'' \<or> ch = rune CHR ''f'' \<or> ch = rune CHR ''n'' \<or>
            ch = rune CHR ''r'' \<or> ch = rune CHR ''t'' \<or> ch = rune CHR ''v'' \<or> ch = rune CHR 0x5C \<or>
            ch = quote
         then (Lexer_next l, True)
         else if rune CHR ''0'' \<le> ch \<and> ch \<le> rune CHR ''7''
         then scanEscape_number l offs 3 8 255
         else if ch = rune CHR ''x'' then scanEscape_number (Lexer_next l) offs 2 16 255
         else if ch = rune CHR ''u'' then scanEscape_number (Lexer_next l) offs 4 16 utf8_MaxRune
         else if ch = rune CHR ''U'' then scanEscape_number (Lexer_next l) offs 8 16 utf8_MaxRune
         else (Lexer_error l offs
                 (if ch < 0 then ''escape sequence not terminated'' else ''unknown escape sequence''),
               False))"

lemma scanEscape_digits_fuel: "lexer_fuel (fst (scanEscape_digits n base l x)) \<le> lexer_fuel l"
proof (induction n arbitrary: l x)
  case 0
  then show ?case by simp
next
  case (Suc n)
  show ?case
  proof (cases "digitVal (l_ch l) \<ge> base")
    case True
    then show ?thesis by (simp add: Let_def)
  next
    case False
    have "lexer_fuel (fst (scanEscape_digits n base (Lexer_next l) (x * base + digitVal (l_ch l))))
        \<le> lexer_fuel (Lexer_next l)" by (rule Suc.IH)
    also have "\<dots> \<le> lexer_fuel l" by (rule Lexer_next_fuel_le)
    finally show ?thesis using False by (simp add: Let_def)
  qed
qed

lemma scanEscape_number_fuel: "lexer_fuel (fst (scanEscape_number l offs n base maxValue)) \<le> lexer_fuel l"
  using scanEscape_digits_fuel[of n base l 0]
  by (auto simp: scanEscape_number_def split: prod.splits option.splits)

lemma Lexer_scanEscape_fuel: "lexer_fuel (fst (Lexer_scanEscape l quote)) \<le> lexer_fuel l"
proof -
  have n: "lexer_fuel (fst (scanEscape_number (Lexer_next l) offs n base maxValue)) \<le> lexer_fuel l"
    for offs n base maxValue
    using scanEscape_number_fuel[of "Lexer_next l" offs n base maxValue] Lexer_next_fuel_le[of l]
    by linarith
  show ?thesis
    unfolding Lexer_scanEscape_def Let_def
    using n scanEscape_number_fuel[of l] Lexer_next_fuel_le[of l]
    by (simp split: if_splits)
qed

text \<open>
  \<^verbatim>\<open>scanString\<close>, \<^verbatim>\<open>scanRune\<close>, \<^verbatim>\<open>scanRawString\<close>: the loop of each, then the slice from
  the opening quote.
\<close>

function scanString_loop :: "Lexer \<Rightarrow> int \<Rightarrow> Lexer" where
  "scanString_loop l offs =
     (let ch = l_ch l
      in if ch = rune CHR 0x0A \<or> ch < 0
         then Lexer_error l offs ''string literal not terminated''
         else (let l = Lexer_next l
               in if ch = rune CHR 0x22 then l
                  else if ch = rune CHR 0x5C
                  then scanString_loop (fst (Lexer_scanEscape l (rune CHR 0x22))) offs
                  else scanString_loop l offs))"
  by pat_completeness auto
termination
proof (relation "measure (\<lambda>(l, offs). lexer_fuel l)", goal_cases)
  case 1
  then show ?case by simp
next
  case (2 l offs ch l')
  then have "lexer_fuel l' < lexer_fuel l" by (auto intro!: Lexer_next_fuel_less)
  then show ?case using Lexer_scanEscape_fuel[of l' "rune CHR 0x22"] by simp
next
  case (3 l offs ch l')
  then show ?case by (auto intro!: Lexer_next_fuel_less)
qed

declare scanString_loop.simps [simp del]

definition Lexer_scanString :: "Lexer \<Rightarrow> panic + (Lexer \<times> string)" where
  "Lexer_scanString l =
     (let offs = int (l_offset l) - 1;
          l = scanString_loop l offs
      in bindP (go_slice (l_src l) offs (int (l_offset l))) (\<lambda>lit. Inr (l, lit)))"

function scanRune_loop :: "Lexer \<Rightarrow> int \<Rightarrow> bool \<Rightarrow> int \<Rightarrow> Lexer \<times> bool \<times> int" where
  "scanRune_loop l offs valid n =
     (let ch = l_ch l
      in if ch = rune CHR 0x0A \<or> ch < 0
         then (if valid then (Lexer_error l offs ''rune literal not terminated'', False, n)
               else (l, valid, n))
         else (let l = Lexer_next l
               in if ch = rune CHR 0x27 then (l, valid, n)
                  else (let n = n + 1
                        in if ch = rune CHR 0x5C
                           then (let (l, ok) = Lexer_scanEscape l (rune CHR 0x27)
                                 in scanRune_loop l offs (if \<not> ok then False else valid) n)
                           else scanRune_loop l offs valid n)))"
  by pat_completeness auto
termination
proof (relation "measure (\<lambda>(l, offs, valid, n). lexer_fuel l)", goal_cases)
  case 1
  then show ?case by simp
next
  case (2 l offs valid n ch l' n' x l'' ok)
  then have "lexer_fuel l' < lexer_fuel l" by (auto intro!: Lexer_next_fuel_less)
  moreover have "lexer_fuel l'' \<le> lexer_fuel l'"
    using Lexer_scanEscape_fuel[of l' "rune CHR 0x27"] 2 by (metis fst_conv)
  ultimately show ?case by simp
next
  case (3 l offs valid n ch l' n')
  then show ?case by (auto intro!: Lexer_next_fuel_less)
qed

declare scanRune_loop.simps [simp del]

definition Lexer_scanRune :: "Lexer \<Rightarrow> panic + (Lexer \<times> string)" where
  "Lexer_scanRune l =
     (let offs = int (l_offset l) - 1;
          (l, valid, n) = scanRune_loop l offs True 0;
          l = (if valid \<and> n \<noteq> 1 then Lexer_error l offs ''illegal rune literal'' else l)
      in bindP (go_slice (l_src l) offs (int (l_offset l))) (\<lambda>lit. Inr (l, lit)))"

function scanRawString_loop :: "Lexer \<Rightarrow> int \<Rightarrow> bool \<Rightarrow> Lexer \<times> bool" where
  "scanRawString_loop l offs hasCR =
     (let ch = l_ch l
      in if ch < 0 then (Lexer_error l offs ''raw string literal not terminated'', hasCR)
         else (let l = Lexer_next l
               in if ch = rune CHR 0x60 then (l, hasCR)
                  else scanRawString_loop l offs (if ch = rune CHR 0x0D then True else hasCR)))"
  by pat_completeness auto
termination
  by (relation "measure (\<lambda>(l, offs, hasCR). lexer_fuel l)") (auto intro!: Lexer_next_fuel_less)

declare scanRawString_loop.simps [simp del]

definition Lexer_scanRawString :: "Lexer \<Rightarrow> panic + (Lexer \<times> string)" where
  "Lexer_scanRawString l =
     (let offs = int (l_offset l) - 1;
          (l, hasCR) = scanRawString_loop l offs False
      in bindP (go_slice (l_src l) offs (int (l_offset l))) (\<lambda>lit.
           Inr (l, if hasCR then stripCR lit False else lit)))"

text \<open>
  \<^verbatim>\<open>scanComment\<close> returns the text of the comment and the offset of the first newline in
  a \<^verbatim>\<open>/*\<close> comment (0 for none). The loop of a \<^verbatim>\<open>/*\<close> comment also says whether it found
  the closing \<^verbatim>\<open>*/\<close>. (The local \<^verbatim>\<open>next\<close> of the source is assigned and never read.)
\<close>

function scanComment_line :: "Lexer \<Rightarrow> int \<Rightarrow> Lexer \<times> int" where
  "scanComment_line l numCR =
     (if l_ch l \<noteq> rune CHR 0x0A \<and> l_ch l \<ge> 0
      then scanComment_line (Lexer_next l) (if l_ch l = rune CHR 0x0D then numCR + 1 else numCR)
      else (l, numCR))"
  by pat_completeness auto
termination
  by (relation "measure (\<lambda>(l, n). lexer_fuel l)") (auto intro!: Lexer_next_fuel_less)

declare scanComment_line.simps [simp del]

function scanComment_block :: "Lexer \<Rightarrow> int \<Rightarrow> int \<Rightarrow> Lexer \<times> int \<times> int \<times> bool" where
  "scanComment_block l numCR nlOffset =
     (if l_ch l \<ge> 0
      then (let ch = l_ch l;
                numCR = (if ch = rune CHR 0x0D then numCR + 1 else numCR);
                nlOffset = (if ch \<noteq> rune CHR 0x0D \<and> ch = rune CHR 0x0A \<and> nlOffset = 0
                            then int (l_offset l) else nlOffset);
                l = Lexer_next l
            in if ch = rune CHR ''*'' \<and> l_ch l = rune CHR ''/''
               then (Lexer_next l, numCR, nlOffset, True)
               else scanComment_block l numCR nlOffset)
      else (l, numCR, nlOffset, False))"
  by pat_completeness auto
termination
  by (relation "measure (\<lambda>(l, n, m). lexer_fuel l)") (auto intro!: Lexer_next_fuel_less)

declare scanComment_block.simps [simp del]

definition Lexer_scanComment :: "Lexer \<Rightarrow> panic + (Lexer \<times> string \<times> int)" where
  "Lexer_scanComment l =
     (let offs = int (l_offset l) - 1;
          (l, numCR, nlOffset) =
            (if l_ch l = rune CHR ''/''
             then (let (l, numCR) = scanComment_line (Lexer_next l) 0 in (l, numCR, 0))
             else (let (l, numCR, nlOffset, closed) = scanComment_block (Lexer_next l) 0 0
                   in (if closed then l else Lexer_error l offs ''comment not terminated'',
                       numCR, nlOffset)))
      in bindP (go_slice (l_src l) offs (int (l_offset l))) (\<lambda>lit.
           (let (lit, numCR) =
                  (if numCR > 0 \<and> length lit \<ge> 2 \<and> lit ! 1 = CHR ''/'' \<and>
                      lit ! (length lit - 1) = CHR 0x0D
                   then (take (length lit - 1) lit, numCR - 1)
                   else (lit, numCR))
            in if numCR > 0
               then bindP (go_index lit 1) (\<lambda>c. Inr (l, stripCR lit (c = CHR ''*''), nlOffset))
               else Inr (l, lit, nlOffset))))"

subsection \<open>\<^verbatim>\<open>Scan\<close>\<close>

text \<open>
  The end of \<^verbatim>\<open>Scan\<close>: \<^verbatim>\<open>if !l.noNewSemi { l.insertSemi = insertSemi }\<close>, then the
  return of the position, the token and the literal.
\<close>

definition Scan_return ::
  "Lexer \<Rightarrow> bool \<Rightarrow> Pos \<Rightarrow> Token \<Rightarrow> string \<Rightarrow> panic + (Lexer \<times> Pos \<times> Token \<times> string)" where
  "Scan_return l insertSemi pos tok lit =
     Inr (if \<not> l_noNewSemi l then l\<lparr>l_insertSemi := insertSemi\<rparr> else l, pos, tok, lit)"

text \<open>
  The \<^verbatim>\<open>default\<close> branch of the first switch, after its \<^verbatim>\<open>l.next()\<close>: the switch on the
  character \<open>ch\<close> that was current before.
\<close>

definition Scan_default ::
  "Lexer \<Rightarrow> Pos \<Rightarrow> rune \<Rightarrow> panic + (Lexer \<times> Pos \<times> Token \<times> string)" where
  "Scan_default l pos ch =
     (if ch = eof
      then (if l_insertSemi l
            then Inr (l\<lparr>l_insertSemi := False\<rparr>, pos, token_Semicolon, [CHR 0x0A])
            else Scan_return l False pos token_EOF [])
      else if ch = rune CHR 0x0A
      then Inr (l\<lparr>l_insertSemi := False\<rparr>, pos, token_Semicolon, [CHR 0x0A])
      else if ch = rune CHR 0x22
      then bindP (Lexer_scanString l) (\<lambda>(l, lit). Scan_return l True pos token_String lit)
      else if ch = rune CHR 0x27
      then bindP (Lexer_scanRune l) (\<lambda>(l, lit). Scan_return l True pos token_Char lit)
      else if ch = rune CHR 0x60
      then bindP (Lexer_scanRawString l) (\<lambda>(l, lit). Scan_return l True pos token_String lit)
      else if ch = rune CHR '',''
      then Scan_return l False pos token_Comma []
      else if ch = rune CHR ''.''
      then (if l_ch l = rune CHR ''.'' \<and> Lexer_peek l = rune CHR ''.''
            then Scan_return (Lexer_next (Lexer_next l)) False pos token_Ellipsis []
            else Scan_return l False pos token_Period [])
      else if ch = rune CHR '':''
      then (let (l, tok) = Lexer_switch2 l token_Colon token_Define in Scan_return l False pos tok [])
      else if ch = rune CHR '';''
      then Scan_return l False pos token_Semicolon '';''
      else if ch = rune CHR ''(''
      then Scan_return l False pos token_LeftParen []
      else if ch = rune CHR ''[''
      then Scan_return l False pos token_LeftBrack []
      else if ch = rune CHR ''{''
      then Scan_return l False pos token_LeftBrace []
      else if ch = rune CHR '')''
      then Scan_return l True pos token_RightParen []
      else if ch = rune CHR '']''
      then Scan_return l True pos token_RightBrack []
      else if ch = rune CHR ''}''
      then Scan_return l True pos token_RightBrace []
      else if ch = rune CHR ''+''
      then (let (l, tok) = Lexer_switch4 l token_Add token_AddAssign (rune CHR ''+'') token_Concat token_ConcatAssign
            in Scan_return l False pos tok [])
      else if ch = rune CHR ''-''
      then (let (l, tok) = Lexer_switch2 l token_Sub token_SubAssign in Scan_return l False pos tok [])
      else if ch = rune CHR ''*''
      then (let (l, tok) = Lexer_switch2 l token_Mul token_MulAssign in Scan_return l False pos tok [])
      else if ch = rune CHR ''/''
      then (if l_ch l = rune CHR ''/'' \<or> l_ch l = rune CHR ''*''
            then bindP (Lexer_scanComment l) (\<lambda>(l, comment, nlOffset).
                   if l_insertSemi l \<and> nlOffset \<noteq> 0
                   then Scan_return (l\<lparr>l_nlPos := File_Pos (l_file l) nlOffset, l_insertSemi := False\<rparr>)
                          False pos token_Comment comment
                   else Scan_return l (l_insertSemi l) pos token_Comment comment)
            else (let (l, tok) = Lexer_switch2 l token_Quo token_QuoAssign
                  in Scan_return l False pos tok []))
      else if ch = rune CHR ''%''
      then (let (l, tok) = Lexer_switch2 l token_Rem token_RemAssign in Scan_return l False pos tok [])
      else if ch = rune CHR ''^''
      then (let (l, tok) = Lexer_switch2 l token_Xor token_XorAssign in Scan_return l False pos tok [])
      else if ch = rune CHR ''<''
      then (let (l, tok) = Lexer_switch4 l token_Less token_LessEqual (rune CHR ''<'') token_Shl token_ShlAssign
            in Scan_return l False pos tok [])
      else if ch = rune CHR ''>''
      then (let (l, tok) = Lexer_switch4 l token_Greater token_GreaterEqual (rune CHR ''>'') token_Shr token_ShrAssign
            in Scan_return l False pos tok [])
      else if ch = rune CHR ''=''
      then (let (l, tok) = Lexer_switch2 l token_Assign token_Equal in Scan_return l False pos tok [])
      else if ch = rune CHR ''!''
      then (let (l, tok) = Lexer_switch2 l token_LogicNot token_NotEqual in Scan_return l False pos tok [])
      else if ch = rune CHR ''&''
      then (if l_ch l = rune CHR ''^''
            then (let (l, tok) = Lexer_switch2 (Lexer_next l) token_AndNot token_AndNotAssign
                  in Scan_return l False pos tok [])
            else (let (l, tok) = Lexer_switch3 l token_And token_AndAssign (rune CHR ''&'') token_LogicAnd
                  in Scan_return l False pos tok []))
      else if ch = rune CHR ''|''
      then (let (l, tok) = Lexer_switch3 l token_Or token_OrAssign (rune CHR ''|'') token_LogicOr
            in Scan_return l False pos tok [])
      else (let l = (if ch \<noteq> bom
                     then (if ch = 0x201C \<or> ch = 0x201D
                           then Lexer_errorf l (File_Offset (l_file l) pos)
                                  (''curly quotation mark '' @ fmt_q (string_of_rune ch) @
                                   '' (use neutral '' @ fmt_q [CHR 0x22] @ '')'')
                           else Lexer_errorf l (File_Offset (l_file l) pos)
                                  (''illegal character '' @ fmt_sharpU ch))
                     else l)
            in Scan_return l (l_insertSemi l) pos token_Illegal (string_of_rune ch)))"

definition Lexer_Scan :: "Lexer \<Rightarrow> panic + (Lexer \<times> Pos \<times> Token \<times> string)" where
  "Lexer_Scan l =
     (if Pos_IsValid (l_nlPos l)
      then Inr (l\<lparr>l_nlPos := NoPos\<rparr>, l_nlPos l, token_Semicolon, [CHR 0x0A])
      else (let l = Lexer_skipWhitespace l;
                pos = File_Pos (l_file l) (int (l_offset l));
                ch = l_ch l
            in if isLetter ch
               then bindP (Lexer_scanIdent l) (\<lambda>(l, lit).
                      (let tok = token_Lookup lit
                       in Scan_return l
                            (tok = token_Ident \<or> tok = token_Break \<or> tok = token_Continue \<or>
                             tok = token_Fallthrough \<or> tok = token_Return)
                            pos tok lit))
               else if isDecimal ch \<or> (ch = rune CHR ''.'' \<and> isDecimal (Lexer_peek l))
               then bindP (Lexer_scanNumber l) (\<lambda>(l, tok, lit). Scan_return l True pos tok lit)
               else Scan_default (Lexer_next l) pos ch))"

text \<open>
  Repeated calls. \<open>Scan_tokens n l\<close> is the list of the \<open>(position, token, literal)\<close>
  results of \<open>n\<close> calls of \<^verbatim>\<open>Scan\<close> from the state \<open>l\<close>, and \<open>Scan_iter n l\<close> the state
  after them.
\<close>

fun Scan_iter :: "nat \<Rightarrow> Lexer \<Rightarrow> panic + Lexer" where
  "Scan_iter 0 l = Inr l"
| "Scan_iter (Suc n) l = bindP (Lexer_Scan l) (\<lambda>(l, pos, tok, lit). Scan_iter n l)"

fun Scan_tokens :: "nat \<Rightarrow> Lexer \<Rightarrow> panic + (Pos \<times> Token \<times> string) list" where
  "Scan_tokens 0 l = Inr []"
| "Scan_tokens (Suc n) l =
     bindP (Lexer_Scan l) (\<lambda>(l, pos, tok, lit).
       bindP (Scan_tokens n l) (\<lambda>rest. Inr ((pos, tok, lit) # rest)))"

section \<open>Package parser: the line on which a comment ends\<close>

text \<open>
  The first part of \<^verbatim>\<open>consumeComment\<close>: the line on which the comment \<open>lit\<close> at \<open>pos\<close>
  ends. The read \<^verbatim>\<open>p.lit[1]\<close> panics when the literal is shorter than two bytes.
\<close>

definition consumeComment_endline :: "File \<Rightarrow> Pos \<Rightarrow> string \<Rightarrow> panic + int" where
  "consumeComment_endline file pos lit =
     bindP (go_index lit 1) (\<lambda>c.
       Inr (if c = CHR ''*''
            then foldl (\<lambda>endline x. if x = CHR 0x0A then endline + 1 else endline) (File_Line file pos) lit
            else File_Line file pos))"


section \<open>Package ast: the nodes that the parser builds\<close>

text \<open>
  A pointer to a node is the node, and a pointer that may be \<^verbatim>\<open>nil\<close> is an option: the
  parser never changes a node after it has built it. An interface value (\<^verbatim>\<open>Expr\<close>,
  \<^verbatim>\<open>Decl\<close>, \<^verbatim>\<open>Stmt\<close>) is a datatype with one constructor for each node type that the
  parser stores in it.
\<close>

record ast_Comment =
  Comment_Slash :: Pos
  Comment_Text :: string

record ast_CommentGroup =
  CommentGroup_List :: "ast_Comment list"

record ast_Ident =
  Ident_NamePos :: Pos
  Ident_Name :: string

record ast_BasicLit =
  BasicLit_ValuePos :: Pos
  BasicLit_Kind :: Token
  BasicLit_Value :: string

datatype ast_Expr =
    Expr_Ident ast_Ident
  | Expr_SelectorExpr ast_Expr ast_Ident
  | Expr_BadExpr Pos Pos

record ast_Field =
  Field_Doc :: "ast_CommentGroup option"
  Field_Names :: "ast_Ident list"
  Field_Type :: "ast_Expr option"
  Field_Comment :: "ast_CommentGroup option"

record ast_FieldList =
  FieldList_Opening :: Pos
  FieldList_List :: "ast_Field list"
  FieldList_Closing :: Pos

record ast_FuncType =
  FuncType_Func :: Pos
  FuncType_Params :: "ast_FieldList option"
  FuncType_Results :: "ast_FieldList option"

datatype ast_Stmt = Stmt_BadStmt Pos Pos

record ast_BlockStmt =
  BlockStmt_LeftBrace :: Pos
  BlockStmt_List :: "ast_Stmt list"
  BlockStmt_RightBrace :: Pos

record ast_ConstDecl =
  ConstDecl_Doc :: "ast_CommentGroup option"
  ConstDecl_Name :: ast_Ident
  ConstDecl_Type :: "ast_Expr option"
  ConstDecl_Value :: ast_Expr
  ConstDecl_Comment :: "ast_CommentGroup option"

record ast_FuncDecl =
  FuncDecl_Doc :: "ast_CommentGroup option"
  FuncDecl_Recv :: "ast_Ident option"
  FuncDecl_Name :: ast_Ident
  FuncDecl_Type :: ast_FuncType
  FuncDecl_Body :: "ast_BlockStmt option"

record ast_ImportDecl =
  ImportDecl_Doc :: "ast_CommentGroup option"
  ImportDecl_Name :: "ast_Ident option"
  ImportDecl_Path :: ast_BasicLit
  ImportDecl_Comment :: "ast_CommentGroup option"
  ImportDecl_EndPos :: Pos

record ast_StructDecl =
  StructDecl_Doc :: "ast_CommentGroup option"
  StructDecl_Name :: ast_Ident
  StructDecl_Fields :: ast_FieldList
  StructDecl_Comment :: "ast_CommentGroup option"

record ast_TypedefDecl =
  TypedefDecl_Doc :: "ast_CommentGroup option"
  TypedefDecl_Name :: ast_Ident
  TypedefDecl_Assign :: Pos
  TypedefDecl_Type :: ast_Expr
  TypedefDecl_Comment :: "ast_CommentGroup option"

record ast_VarDecl =
  VarDecl_Doc :: "ast_CommentGroup option"
  VarDecl_Name :: ast_Ident
  VarDecl_Type :: "ast_Expr option"
  VarDecl_Value :: ast_Expr
  VarDecl_Comment :: "ast_CommentGroup option"

datatype ast_Decl =
    Decl_BadDecl Pos Pos
  | Decl_ConstDecl ast_ConstDecl
  | Decl_FuncDecl ast_FuncDecl
  | Decl_ImportDecl ast_ImportDecl
  | Decl_StructDecl ast_StructDecl
  | Decl_TypedefDecl ast_TypedefDecl
  | Decl_VarDecl ast_VarDecl

record ast_File =
  File_FileStart :: Pos
  File_FileEnd :: Pos
  File_Doc :: "ast_CommentGroup option"
  File_Package :: Pos
  File_PkgName :: "ast_Ident option"
  File_Imports :: "ast_ImportDecl list"
  File_Decls :: "ast_Decl list"
  File_Comments :: "ast_CommentGroup list"

text \<open>\<^verbatim>\<open>new(ast.Ident)\<close>, and the file node that \<^verbatim>\<open>ParseFile\<close> makes when it has none.\<close>

definition ast_Ident_zero :: ast_Ident where
  "ast_Ident_zero = \<lparr>Ident_NamePos = 0, Ident_Name = []\<rparr>"

definition ast_File_placeholder :: ast_File where
  "ast_File_placeholder =
     \<lparr>File_FileStart = 0, File_FileEnd = 0, File_Doc = None, File_Package = 0,
      File_PkgName = Some ast_Ident_zero, File_Imports = [], File_Decls = [], File_Comments = []\<rparr>"

section \<open>Package parser\<close>

text \<open>
  The state of the parser. The lexer \<^verbatim>\<open>p.scanner\<close> holds the file \<^verbatim>\<open>p.file\<close> (the same
  pointer), and the error handler that \<^verbatim>\<open>init\<close> gives it appends to \<^verbatim>\<open>p.errors\<close>: so
  \<^verbatim>\<open>p.file\<close> is the file of the lexer and \<^verbatim>\<open>p.errors\<close> is the log of its handler.

  A function of the parser returns \<open>None\<close> when it does not return, \<open>Some (Inl e)\<close> when
  it panics, and \<open>Some (Inr (x, p))\<close> with its result and the state after it otherwise.
\<close>

record parser =
  p_scanner :: Lexer
  p_comments :: "ast_CommentGroup list"
  p_leadComment :: "ast_CommentGroup option"
  p_lineComment :: "ast_CommentGroup option"
  p_pos :: Pos
  p_tok :: Token
  p_lit :: string
  p_syncPos :: Pos
  p_syncCount :: int
  p_exprLevel :: int
  p_inRHS :: bool
  p_nestLevel :: int

definition p_file :: "parser \<Rightarrow> File" where
  "p_file p = l_file (p_scanner p)"

definition p_errors :: "parser \<Rightarrow> ErrorList" where
  "p_errors p = l_errors (p_scanner p)"

definition bindR :: "(panic + 'a) option \<Rightarrow> ('a \<Rightarrow> (panic + 'b) option) \<Rightarrow> (panic + 'b) option" where
  "bindR m f = Option.bind m (\<lambda>r. case r of Inl e \<Rightarrow> Some (Inl e) | Inr x \<Rightarrow> f x)"

definition returnR :: "'a \<Rightarrow> (panic + 'a) option" where
  "returnR x = Some (Inr x)"

lemma bindR_mono [partial_function_mono]:
  assumes mf: "mono_option B" and mg: "\<And>y. mono_option (\<lambda>f. C y f)"
  shows "mono_option (\<lambda>f. bindR (B f) (\<lambda>y. C y f))"
  unfolding bindR_def
proof (rule bind_mono[OF mf])
  fix y
  show "mono_option (\<lambda>f. case y of Inl e \<Rightarrow> Some (Inl e) | Inr x \<Rightarrow> C x f)"
    by (cases y) (simp_all add: mg option.const_mono)
qed

lemma bindR_simps [simp]:
  "bindR None f = None" "bindR (Some (Inl e)) f = Some (Inl e)" "bindR (Some (Inr x)) f = f x"
  "bindR (returnR x) f = f x"
  by (simp_all add: bindR_def returnR_def)

partial_function (option) next0 :: "parser \<Rightarrow> (panic + parser) option" where
  "next0 p =
     bindR (Some (Lexer_Scan (p_scanner p))) (\<lambda>(l, pos, tok, lit).
       (let p = p\<lparr>p_scanner := l, p_pos := pos, p_tok := tok, p_lit := lit\<rparr>
        in if tok \<noteq> token_Comment then returnR p else next0 p))"


subsection \<open>Errors\<close>

text \<open>
  \<^verbatim>\<open>fmt.Sprintf\<close>, as far as the parser needs it: text without a verb is copied, and the
  verb \<^verbatim>\<open>%s\<close> prints a string operand as it is. What the library does with any other
  verb, with a verb that has no operand and with operands left over is not modelled.
\<close>

definition fmt_other :: "string \<Rightarrow> string list \<Rightarrow> string" where
  "fmt_other = undefined"

fun fmt_Sprintf :: "string \<Rightarrow> string list \<Rightarrow> string" where
  "fmt_Sprintf [] [] = []"
| "fmt_Sprintf [] (a # args) = fmt_other [] (a # args)"
| "fmt_Sprintf (c # cs) args =
     (if c \<noteq> CHR ''%'' then c # fmt_Sprintf cs args
      else (case cs of
              [] \<Rightarrow> fmt_other (c # cs) args
            | v # cs' \<Rightarrow>
                (case args of
                   [] \<Rightarrow> fmt_other (c # cs) args
                 | a # args' \<Rightarrow>
                     if v = CHR ''s'' then a @ fmt_Sprintf cs' args' else fmt_other (c # cs) args)))"

definition parser_error :: "parser \<Rightarrow> Pos \<Rightarrow> string \<Rightarrow> string list \<Rightarrow> parser" where
  "parser_error p pos msg args =
     (let epos = File_Position (p_file p) pos
      in p\<lparr>p_scanner := (p_scanner p)\<lparr>l_errors := ErrorList_Add (p_errors p) epos (fmt_Sprintf msg args)\<rparr>\<rparr>)"

definition parser_errorExpected :: "parser \<Rightarrow> Pos \<Rightarrow> string \<Rightarrow> parser" where
  "parser_errorExpected p pos msg =
     (let msg = ''expected '' @ msg;
          msg = (if pos = p_pos p
                 then (if p_tok p = token_Semicolon \<and> p_lit p = [CHR 0x0A] then msg @ '', found newline''
                       else if Token_IsLiteral (p_tok p) then msg @ '', found '' @ p_lit p
                       else msg @ '', found '' @ [CHR 0x27] @ Token_String (p_tok p) @ [CHR 0x27])
                 else msg)
      in parser_error p pos msg [])"

subsection \<open>The token stream\<close>

text \<open>\<^verbatim>\<open>next0\<close>: the loop ends at the first token that is not a comment.\<close>

partial_function (option) parser_next0 :: "parser \<Rightarrow> (panic + parser) option" where
  "parser_next0 p =
     bindR (Some (Lexer_Scan (p_scanner p))) (\<lambda>(l, pos, tok, lit).
       (let p = p\<lparr>p_scanner := l, p_pos := pos, p_tok := tok, p_lit := lit\<rparr>
        in if tok \<noteq> token_Comment then returnR p else parser_next0 p))"

declare parser_next0.simps [code]

definition parser_consumeComment :: "parser \<Rightarrow> (panic + ((ast_Comment \<times> int) \<times> parser)) option" where
  "parser_consumeComment p =
     bindR (Some (consumeComment_endline (p_file p) (p_pos p) (p_lit p))) (\<lambda>endline.
       (let comment = \<lparr>Comment_Slash = p_pos p, Comment_Text = p_lit p\<rparr>
        in bindR (parser_next0 p) (\<lambda>p. returnR ((comment, endline), p))))"

partial_function (option) consumeCommentGroup_loop ::
  "int \<Rightarrow> ast_Comment list \<Rightarrow> int \<Rightarrow> parser \<Rightarrow> (panic + ((ast_Comment list \<times> int) \<times> parser)) option" where
  "consumeCommentGroup_loop n list endline p =
     (if p_tok p = token_Comment \<and> File_Line (p_file p) (p_pos p) \<le> endline + n
      then bindR (parser_consumeComment p) (\<lambda>((comment, endline), p).
             consumeCommentGroup_loop n (list @ [comment]) endline p)
      else returnR ((list, endline), p))"

declare consumeCommentGroup_loop.simps [code]

definition parser_consumeCommentGroup ::
  "parser \<Rightarrow> int \<Rightarrow> (panic + ((ast_CommentGroup \<times> int) \<times> parser)) option" where
  "parser_consumeCommentGroup p n =
     bindR (consumeCommentGroup_loop n [] (File_Line (p_file p) (p_pos p)) p) (\<lambda>((list, endline), p).
       (let comments = \<lparr>CommentGroup_List = list\<rparr>
        in returnR ((comments, endline), p\<lparr>p_comments := p_comments p @ [comments]\<rparr>)))"

text \<open>The loop of \<^verbatim>\<open>next\<close> over the comment groups that follow.\<close>

partial_function (option) next_loop ::
  "ast_CommentGroup option \<Rightarrow> int \<Rightarrow> parser \<Rightarrow>
   (panic + ((ast_CommentGroup option \<times> int) \<times> parser)) option" where
  "next_loop comment endline p =
     (if p_tok p = token_Comment
      then bindR (parser_consumeCommentGroup p 1) (\<lambda>((comment, endline), p).
             next_loop (Some comment) endline p)
      else returnR ((comment, endline), p))"

declare next_loop.simps [code]

definition parser_next :: "parser \<Rightarrow> (panic + parser) option" where
  "parser_next p =
     (let p = p\<lparr>p_leadComment := None, p_lineComment := None\<rparr>;
          prev = p_pos p
      in bindR (parser_next0 p) (\<lambda>p.
           if p_tok p \<noteq> token_Comment then returnR p
           else bindR (if File_Line (p_file p) (p_pos p) = File_Line (p_file p) prev
                       then bindR (parser_consumeCommentGroup p 0) (\<lambda>((comment, endline), p).
                              returnR ((Some comment, endline),
                                if File_Line (p_file p) (p_pos p) \<noteq> endline \<or>
                                   p_tok p = token_Semicolon \<or> p_tok p = token_EOF
                                then p\<lparr>p_lineComment := Some comment\<rparr>
                                else p))
                       else returnR ((None, 0), p)) (\<lambda>((comment, endline), p).
                  bindR (next_loop comment (- 1) p) (\<lambda>((comment, endline), p).
                    returnR (if endline + 1 = File_Line (p_file p) (p_pos p)
                             then p\<lparr>p_leadComment := comment\<rparr>
                             else p)))))"

definition declStart :: "Token \<Rightarrow> bool" where
  "declStart tok =
     (tok = token_Const \<or> tok = token_Func \<or> tok = token_Import \<or> tok = token_Struct \<or>
      tok = token_Typedef \<or> tok = token_Var)"

definition stmtStart :: "Token \<Rightarrow> bool" where
  "stmtStart tok =
     (tok = token_Break \<or> tok = token_Const \<or> tok = token_Continue \<or> tok = token_Defer \<or>
      tok = token_Fallthrough \<or> tok = token_For \<or> tok = token_Goto \<or> tok = token_If \<or>
      tok = token_Return \<or> tok = token_Switch \<or> tok = token_Typedef \<or> tok = token_Var)"

definition exprEnd :: "Token \<Rightarrow> bool" where
  "exprEnd tok =
     (tok = token_Comma \<or> tok = token_Colon \<or> tok = token_Semicolon \<or> tok = token_RightParen \<or>
      tok = token_RightBrack \<or> tok = token_RightBrace)"

partial_function (option) parser_advance :: "(Token \<Rightarrow> bool) \<Rightarrow> parser \<Rightarrow> (panic + parser) option" where
  "parser_advance to p =
     (if p_tok p \<noteq> token_EOF
      then (if \<not> to (p_tok p) then bindR (parser_next p) (parser_advance to)
            else if p_pos p = p_syncPos p \<and> p_syncCount p < 10
            then returnR (p\<lparr>p_syncCount := p_syncCount p + 1\<rparr>)
            else if p_pos p > p_syncPos p
            then returnR (p\<lparr>p_syncPos := p_pos p, p_syncCount := 0\<rparr>)
            else bindR (parser_next p) (parser_advance to))
      else returnR p)"

declare parser_advance.simps [code]

definition parser_expect :: "parser \<Rightarrow> Token \<Rightarrow> (panic + (Pos \<times> parser)) option" where
  "parser_expect p tok =
     (let pos = p_pos p;
          p = (if p_tok p \<noteq> tok
               then parser_errorExpected p pos ([CHR 0x27] @ Token_String tok @ [CHR 0x27])
               else p)
      in bindR (parser_next p) (\<lambda>p. returnR (pos, p)))"

definition parser_expectSemi :: "parser \<Rightarrow> (panic + (ast_CommentGroup option \<times> parser)) option" where
  "parser_expectSemi p =
     (if p_tok p \<noteq> token_RightParen \<and> p_tok p \<noteq> token_RightBrace
      then (if p_tok p = token_Comma \<or> p_tok p = token_Semicolon
            then (let p = (if p_tok p = token_Comma
                           then parser_errorExpected p (p_pos p) ([CHR 0x27] @ '';'' @ [CHR 0x27])
                           else p)
                  in if p_lit p = '';''
                     then bindR (parser_next p) (\<lambda>p. returnR (p_lineComment p, p))
                     else (let comment = p_lineComment p
                           in bindR (parser_next p) (\<lambda>p. returnR (comment, p))))
            else bindR (parser_advance stmtStart
                          (parser_errorExpected p (p_pos p) ([CHR 0x27] @ '';'' @ [CHR 0x27])))
                   (\<lambda>p. returnR (None, p)))
      else returnR (None, p))"


subsection \<open>Identifiers and types\<close>

definition parser_parseIdent :: "parser \<Rightarrow> (panic + (ast_Ident \<times> parser)) option" where
  "parser_parseIdent p =
     (let pos = p_pos p
      in if p_tok p = token_Ident
         then (let name = p_lit p
               in bindR (parser_next p) (\<lambda>p. returnR (\<lparr>Ident_NamePos = pos, Ident_Name = name\<rparr>, p)))
         else bindR (parser_expect p token_Ident) (\<lambda>(x, p).
                returnR (\<lparr>Ident_NamePos = pos, Ident_Name = ''_''\<rparr>, p)))"

definition parser_parseTypeName ::
  "parser \<Rightarrow> ast_Ident option \<Rightarrow> (panic + (ast_Expr \<times> parser)) option" where
  "parser_parseTypeName p ident =
     bindR (case ident of None \<Rightarrow> parser_parseIdent p | Some i \<Rightarrow> returnR (i, p)) (\<lambda>(ident, p).
       if p_tok p = token_Period
       then bindR (parser_next p) (\<lambda>p.
            bindR (parser_parseIdent p) (\<lambda>(sel, p).
              returnR (Expr_SelectorExpr (Expr_Ident ident) sel, p)))
       else returnR (Expr_Ident ident, p))"

definition parser_tryIdentOrType :: "parser \<Rightarrow> (panic + (ast_Expr option \<times> parser)) option" where
  "parser_tryIdentOrType p =
     (if p_tok p = token_Any \<or> p_tok p = token_Bool \<or> p_tok p = token_Void
      then bindR (parser_next p) (\<lambda>p.
             returnR (Some (Expr_Ident \<lparr>Ident_NamePos = p_pos p, Ident_Name = Token_String (p_tok p)\<rparr>), p))
      else if p_tok p = token_Ident
      then bindR (parser_parseTypeName p None) (\<lambda>(typ, p). returnR (Some typ, p))
      else returnR (None, p))"

definition parser_parseType :: "parser \<Rightarrow> (panic + (ast_Expr \<times> parser)) option" where
  "parser_parseType p =
     bindR (parser_tryIdentOrType p) (\<lambda>(typ, p).
       case typ of
         Some typ \<Rightarrow> returnR (typ, p)
       | None \<Rightarrow>
           (let pos = p_pos p
            in bindR (parser_advance exprEnd (parser_errorExpected p pos ''type'')) (\<lambda>p.
                 returnR (Expr_BadExpr pos (p_pos p), p))))"

subsection \<open>Declarations\<close>

definition parser_parsePackageDecl ::
  "parser \<Rightarrow> (panic + ((ast_CommentGroup option \<times> Pos \<times> ast_Ident) \<times> parser)) option" where
  "parser_parsePackageDecl p =
     (let doc = p_leadComment p
      in bindR (parser_expect p token_Package) (\<lambda>(pos, p).
         bindR (parser_parseIdent p) (\<lambda>(ident, p).
           (let p = (if Ident_Name ident = ''_''
                     then parser_error p (p_pos p) ''invalid package name _'' []
                     else if Ident_Name ident = ''builtin'' \<or> Ident_Name ident = ''init'' \<or>
                             Ident_Name ident = ''internal'' \<or> Ident_Name ident = ''vendor''
                     then parser_error p (p_pos p)
                            (''package name '' @ [CHR 0x27] @ ''%s'' @ [CHR 0x27] @ '' is reserved'')
                            [Ident_Name ident]
                     else p)
            in bindR (parser_expectSemi p) (\<lambda>(x, p). returnR ((doc, pos, ident), p))))))"

definition parser_parseConstDecl :: "parser \<Rightarrow> (panic + (ast_ConstDecl \<times> parser)) option" where
  "parser_parseConstDecl p =
     (let doc = p_leadComment p
      in bindR (parser_expect p token_Const) (\<lambda>(x, p).
         bindR (parser_parseIdent p) (\<lambda>(name, p).
         bindR (parser_tryIdentOrType p) (\<lambda>(typ, p).
         bindR (parser_expect p token_Assign) (\<lambda>(x, p).
         bindR (parser_parseIdent p) (\<lambda>(val, p).
         bindR (parser_expectSemi p) (\<lambda>(comment, p).
           returnR (\<lparr>ConstDecl_Doc = doc, ConstDecl_Name = name, ConstDecl_Type = typ,
                     ConstDecl_Value = Expr_Ident val, ConstDecl_Comment = comment\<rparr>, p))))))))"

definition parser_parseVarDecl :: "parser \<Rightarrow> (panic + (ast_VarDecl \<times> parser)) option" where
  "parser_parseVarDecl p =
     (let doc = p_leadComment p
      in bindR (parser_expect p token_Var) (\<lambda>(x, p).
         bindR (parser_parseIdent p) (\<lambda>(name, p).
         bindR (parser_tryIdentOrType p) (\<lambda>(typ, p).
         bindR (parser_expect p token_Assign) (\<lambda>(x, p).
         bindR (parser_parseIdent p) (\<lambda>(val, p).
         bindR (parser_expectSemi p) (\<lambda>(comment, p).
           returnR (\<lparr>VarDecl_Doc = doc, VarDecl_Name = name, VarDecl_Type = typ,
                     VarDecl_Value = Expr_Ident val, VarDecl_Comment = comment\<rparr>, p))))))))"

definition parser_parseTypedefDecl :: "parser \<Rightarrow> (panic + (ast_TypedefDecl \<times> parser)) option" where
  "parser_parseTypedefDecl p =
     (let doc = p_leadComment p
      in bindR (parser_expect p token_Typedef) (\<lambda>(x, p).
         bindR (parser_parseIdent p) (\<lambda>(name, p).
         bindR (if p_tok p = token_Assign
                then (let assignPos = p_pos p in bindR (parser_next p) (\<lambda>p. returnR (assignPos, p)))
                else returnR (0, p)) (\<lambda>(assignPos, p).
         bindR (parser_parseType p) (\<lambda>(typ, p).
         bindR (parser_expectSemi p) (\<lambda>(comment, p).
           returnR (\<lparr>TypedefDecl_Doc = doc, TypedefDecl_Name = name, TypedefDecl_Assign = assignPos,
                     TypedefDecl_Type = typ, TypedefDecl_Comment = comment\<rparr>, p)))))))"

definition parser_parseImportDecl :: "parser \<Rightarrow> (panic + (ast_ImportDecl \<times> parser)) option" where
  "parser_parseImportDecl p =
     (let doc = p_leadComment p
      in bindR (parser_expect p token_Import) (\<lambda>(pos, p).
         bindR (if p_tok p = token_Ident
                then bindR (parser_parseIdent p) (\<lambda>(ident, p). returnR (Some ident, p))
                else if p_tok p = token_Period
                then (let ident = \<lparr>Ident_NamePos = p_pos p, Ident_Name = ''.''\<rparr>
                      in bindR (parser_next p) (\<lambda>p. returnR (Some ident, p)))
                else returnR (None, p)) (\<lambda>(ident, p).
         bindR (if p_tok p = token_String
                then (let path = p_lit p in bindR (parser_next p) (\<lambda>p. returnR (path, p)))
                else if Token_IsLiteral (p_tok p)
                then bindR (parser_next (parser_error p pos ''import path must be a string'' []))
                       (\<lambda>p. returnR ([], p))
                else bindR (parser_advance exprEnd (parser_error p pos ''missing import path'' []))
                       (\<lambda>p. returnR ([], p))) (\<lambda>(path, p).
         bindR (parser_expectSemi p) (\<lambda>(comment, p).
           returnR (\<lparr>ImportDecl_Doc = doc, ImportDecl_Name = ident,
                     ImportDecl_Path = \<lparr>BasicLit_ValuePos = pos, BasicLit_Kind = token_String,
                                        BasicLit_Value = path\<rparr>,
                     ImportDecl_Comment = comment, ImportDecl_EndPos = 0\<rparr>, p))))))"

text \<open>\<^verbatim>\<open>parseFieldDecl\<close>; the first loop is the one over the names after a comma.\<close>

partial_function (option) parseFieldDecl_loop ::
  "ast_Ident list \<Rightarrow> parser \<Rightarrow> (panic + (ast_Ident list \<times> parser)) option" where
  "parseFieldDecl_loop names p =
     (if p_tok p = token_Comma
      then bindR (parser_next p) (\<lambda>p.
           bindR (parser_parseIdent p) (\<lambda>(name, p). parseFieldDecl_loop (names @ [name]) p))
      else returnR (names, p))"

declare parseFieldDecl_loop.simps [code]

definition parser_parseFieldDecl :: "parser \<Rightarrow> (panic + (ast_Field \<times> parser)) option" where
  "parser_parseFieldDecl p =
     (let doc = p_leadComment p
      in bindR (if p_tok p = token_Ident
                then bindR (parser_parseIdent p) (\<lambda>(name, p).
                     bindR (parseFieldDecl_loop [name] p) (\<lambda>(names, p).
                     bindR (parser_parseType p) (\<lambda>(typ, p). returnR ((names, typ), p))))
                else (let pos = p_pos p
                      in bindR (parser_advance exprEnd (parser_errorExpected p pos ''field name'')) (\<lambda>p.
                           returnR (([], Expr_BadExpr pos (p_pos p)), p)))) (\<lambda>((names, typ), p).
         bindR (parser_expectSemi p) (\<lambda>(comment, p).
           returnR (\<lparr>Field_Doc = doc, Field_Names = names, Field_Type = Some typ,
                     Field_Comment = comment\<rparr>, p))))"

partial_function (option) parseStructDecl_loop ::
  "ast_Field list \<Rightarrow> parser \<Rightarrow> (panic + (ast_Field list \<times> parser)) option" where
  "parseStructDecl_loop list p =
     (if p_tok p = token_Ident
      then bindR (parser_parseFieldDecl p) (\<lambda>(field, p). parseStructDecl_loop (list @ [field]) p)
      else returnR (list, p))"

declare parseStructDecl_loop.simps [code]

definition parser_parseStructDecl :: "parser \<Rightarrow> (panic + (ast_StructDecl \<times> parser)) option" where
  "parser_parseStructDecl p =
     (let doc = p_leadComment p
      in bindR (parser_expect p token_Struct) (\<lambda>(x, p).
         bindR (parser_parseIdent p) (\<lambda>(name, p).
         bindR (parser_expect p token_LeftBrace) (\<lambda>(leftBrace, p).
         bindR (parseStructDecl_loop [] p) (\<lambda>(list, p).
         bindR (parser_expect p token_RightBrace) (\<lambda>(rightBrace, p).
         bindR (parser_expectSemi p) (\<lambda>(x, p).
           returnR (\<lparr>StructDecl_Doc = doc, StructDecl_Name = name,
                     StructDecl_Fields = \<lparr>FieldList_Opening = leftBrace, FieldList_List = list,
                                          FieldList_Closing = rightBrace\<rparr>,
                     StructDecl_Comment = None\<rparr>, p))))))))"

text \<open>
  \<^verbatim>\<open>parseParameterList\<close> reads on to the next \<^verbatim>\<open>)\<close>. At the end of the file \<^verbatim>\<open>next\<close>
  returns \<^verbatim>\<open>EOF\<close> again and again, and the loop does not end.
\<close>

partial_function (option) parser_parseParameterList ::
  "parser \<Rightarrow> (panic + (ast_Field list \<times> parser)) option" where
  "parser_parseParameterList p =
     (if p_tok p \<noteq> token_RightParen
      then bindR (parser_next p) parser_parseParameterList
      else returnR ([], p))"

declare parser_parseParameterList.simps [code]

definition parser_parseParameters :: "parser \<Rightarrow> (panic + (ast_FieldList \<times> parser)) option" where
  "parser_parseParameters p =
     bindR (parser_expect p token_LeftParen) (\<lambda>(leftParen, p).
     bindR (if p_tok p \<noteq> token_RightParen then parser_parseParameterList p else returnR ([], p))
       (\<lambda>(fields, p).
     bindR (parser_expect p token_RightParen) (\<lambda>(rightParen, p).
       returnR (\<lparr>FieldList_Opening = leftParen, FieldList_List = fields,
                 FieldList_Closing = rightParen\<rparr>, p))))"

definition parser_parseResult :: "parser \<Rightarrow> (panic + (ast_FieldList option \<times> parser)) option" where
  "parser_parseResult p =
     (if p_tok p = token_LeftParen
      then bindR (parser_parseParameters p) (\<lambda>(params, p). returnR (Some params, p))
      else bindR (parser_tryIdentOrType p) (\<lambda>(typ, p).
             case typ of
               Some typ \<Rightarrow>
                 returnR (Some \<lparr>FieldList_Opening = 0,
                                FieldList_List = [\<lparr>Field_Doc = None, Field_Names = [],
                                                   Field_Type = Some typ, Field_Comment = None\<rparr>],
                                FieldList_Closing = 0\<rparr>, p)
             | None \<Rightarrow> returnR (None, p)))"

definition parser_parseStmtList :: "parser \<Rightarrow> (panic + (ast_Stmt list \<times> parser)) option" where
  "parser_parseStmtList p = returnR ([], p)"

definition parser_parseBlockStmt :: "parser \<Rightarrow> (panic + (ast_BlockStmt \<times> parser)) option" where
  "parser_parseBlockStmt p =
     bindR (parser_expect p token_LeftBrace) (\<lambda>(leftBrace, p).
     bindR (parser_parseStmtList p) (\<lambda>(list, p).
     bindR (parser_expect p token_RightBrace) (\<lambda>(rightBrace, p).
       returnR (\<lparr>BlockStmt_LeftBrace = leftBrace, BlockStmt_List = list,
                 BlockStmt_RightBrace = rightBrace\<rparr>, p))))"

definition parser_parseFuncDecl :: "parser \<Rightarrow> (panic + (ast_FuncDecl \<times> parser)) option" where
  "parser_parseFuncDecl p =
     (let doc = p_leadComment p
      in bindR (parser_expect p token_Func) (\<lambda>(pos, p).
         bindR (if p_tok p = token_LeftParen
                then bindR (parser_next p) (\<lambda>p.
                     bindR (parser_parseIdent p) (\<lambda>(recv, p).
                     bindR (parser_expect p token_RightParen) (\<lambda>(x, p). returnR (Some recv, p))))
                else returnR (None, p)) (\<lambda>(recv, p).
         bindR (parser_parseIdent p) (\<lambda>(name, p).
         bindR (parser_parseParameters p) (\<lambda>(params, p).
         bindR (parser_parseResult p) (\<lambda>(results, p).
         bindR (if p_tok p = token_Semicolon
                then bindR (parser_next p) (\<lambda>p.
                       if p_tok p = token_LeftBrace
                       then bindR (parser_parseBlockStmt
                                     (parser_error p (p_pos p) ''unexpected semicolon or newline before {'' []))
                              (\<lambda>(body, p).
                            bindR (parser_expectSemi p) (\<lambda>(x, p). returnR (Some body, p)))
                       else bindR (parser_expect p token_LeftBrace) (\<lambda>(x, p). returnR (None, p)))
                else bindR (parser_parseBlockStmt p) (\<lambda>(body, p).
                     bindR (parser_expectSemi p) (\<lambda>(x, p). returnR (Some body, p)))) (\<lambda>(body, p).
           returnR (\<lparr>FuncDecl_Doc = doc, FuncDecl_Recv = recv, FuncDecl_Name = name,
                     FuncDecl_Type = \<lparr>FuncType_Func = pos, FuncType_Params = Some params,
                                      FuncType_Results = results\<rparr>,
                     FuncDecl_Body = body\<rparr>, p))))))))"

definition parser_parseDecl :: "parser \<Rightarrow> (Token \<Rightarrow> bool) \<Rightarrow> (panic + (ast_Decl \<times> parser)) option" where
  "parser_parseDecl p sync =
     (if p_tok p = token_Const
      then bindR (parser_parseConstDecl p) (\<lambda>(d, p). returnR (Decl_ConstDecl d, p))
      else if p_tok p = token_Func
      then bindR (parser_parseFuncDecl p) (\<lambda>(d, p). returnR (Decl_FuncDecl d, p))
      else if p_tok p = token_Import
      then bindR (parser_parseImportDecl p) (\<lambda>(d, p). returnR (Decl_ImportDecl d, p))
      else if p_tok p = token_Struct
      then bindR (parser_parseStructDecl p) (\<lambda>(d, p). returnR (Decl_StructDecl d, p))
      else if p_tok p = token_Typedef
      then bindR (parser_parseTypedefDecl p) (\<lambda>(d, p). returnR (Decl_TypedefDecl d, p))
      else if p_tok p = token_Var
      then bindR (parser_parseVarDecl p) (\<lambda>(d, p). returnR (Decl_VarDecl d, p))
      else (let pos = p_pos p
            in bindR (parser_advance sync (parser_errorExpected p pos ''declaration'')) (\<lambda>p.
                 returnR (Decl_BadDecl pos (p_pos p), p))))"

subsection \<open>The file\<close>

text \<open>The two loops of \<^verbatim>\<open>parseFile\<close>: the imports at the head, then all declarations.\<close>

partial_function (option) parseFile_imports ::
  "ast_Decl list \<Rightarrow> ast_ImportDecl list \<Rightarrow> parser \<Rightarrow>
   (panic + ((ast_Decl list \<times> ast_ImportDecl list) \<times> parser)) option" where
  "parseFile_imports decls imports p =
     (if p_tok p = token_Import
      then bindR (parser_parseImportDecl p) (\<lambda>(decl, p).
             parseFile_imports (decls @ [Decl_ImportDecl decl]) (imports @ [decl]) p)
      else returnR ((decls, imports), p))"

declare parseFile_imports.simps [code]

partial_function (option) parseFile_decls ::
  "Token \<Rightarrow> ast_Decl list \<Rightarrow> ast_ImportDecl list \<Rightarrow> parser \<Rightarrow>
   (panic + ((ast_Decl list \<times> ast_ImportDecl list) \<times> parser)) option" where
  "parseFile_decls prev decls imports p =
     (if p_tok p \<noteq> token_EOF
      then (let p = (if p_tok p = token_Import \<and> prev \<noteq> token_Import
                     then parser_error p (p_pos p) ''imports must appear before other declarations'' []
                     else p);
                prev = p_tok p
            in bindR (parser_parseDecl p declStart) (\<lambda>(decl, p).
                 parseFile_decls prev (decls @ [decl])
                   (case decl of Decl_ImportDecl imp \<Rightarrow> imports @ [imp] | _ \<Rightarrow> imports) p))
      else returnR ((decls, imports), p))"

declare parseFile_decls.simps [code]

definition parser_parseFile :: "parser \<Rightarrow> (panic + (ast_File option \<times> parser)) option" where
  "parser_parseFile p =
     (if ErrorList_Len (p_errors p) \<noteq> 0 then returnR (None, p)
      else bindR (parser_parsePackageDecl p) (\<lambda>((doc, pos, ident), p).
             if ErrorList_Len (p_errors p) \<noteq> 0 then returnR (None, p)
             else bindR (parseFile_imports [] [] p) (\<lambda>((decls, imports), p).
                  bindR (parseFile_decls token_Import decls imports p) (\<lambda>((decls, imports), p).
                    returnR (Some \<lparr>File_FileStart = 0, File_FileEnd = 0, File_Doc = doc,
                                   File_Package = pos, File_PkgName = Some ident,
                                   File_Imports = imports, File_Decls = decls,
                                   File_Comments = p_comments p\<rparr>, p)))))"

definition parser_init :: "File \<Rightarrow> string \<Rightarrow> (panic + parser) option" where
  "parser_init file src =
     bindR (Some (NewLexer file src True)) (\<lambda>l.
       parser_next \<lparr>p_scanner = l, p_comments = [], p_leadComment = None, p_lineComment = None,
                    p_pos = 0, p_tok = 0, p_lit = [], p_syncPos = 0, p_syncCount = 0,
                    p_exprLevel = 0, p_inRHS = False, p_nestLevel = 0\<rparr>)"

text \<open>
  The source argument of \<^verbatim>\<open>ParseFile\<close>. A string, a byte slice and a buffer hold their
  bytes; for a reader, a file system and the file \<open>filename\<close> the value is what the read
  returns, the bytes or an error.
\<close>

datatype go_error = Err_New string | Err_ErrorList ErrorList

datatype Source =
    Src_nil "go_error + string"
  | Src_string string
  | Src_bytes string
  | Src_Buffer "string option"
  | Src_Reader "go_error + string"
  | Src_FS "go_error + string"

fun readSource :: "string \<Rightarrow> Source \<Rightarrow> go_error + string" where
  "readSource filename (Src_string s) = Inr s"
| "readSource filename (Src_bytes s) = Inr s"
| "readSource filename (Src_Buffer b) =
     (case b of Some s \<Rightarrow> Inr s | None \<Rightarrow> Inl (Err_New ''invalid source''))"
| "readSource filename (Src_Reader r) = r"
| "readSource filename (Src_FS r) = r"
| "readSource filename (Src_nil r) = r"

text \<open>
  \<^verbatim>\<open>ParseFile\<close>. The deferred function passes a panic on, so a panic of the body is the
  result; otherwise it gives the file node its bounds, from the file that \<^verbatim>\<open>AddFile\<close>
  made, and sorts the errors. The file of the registry is the one the lexer has added
  lines to.
\<close>

definition ParseFile ::
  "FileSet option \<Rightarrow> string \<Rightarrow> Source \<Rightarrow>
   (panic + (FileSet option \<times> ast_File option \<times> go_error option)) option" where
  "ParseFile fset filename src =
     (case fset of
        None \<Rightarrow> Some (Inl (Panic ''parser.ParseFile: no token.FileSet provided''))
      | Some s \<Rightarrow>
          (case readSource filename src of
             Inl err \<Rightarrow> returnR (fset, None, Some err)
           | Inr text \<Rightarrow>
               bindR (Some (FileSet_AddFile s filename (- 1) (int (length text)))) (\<lambda>(s, k).
                 (let file = s_files s ! k
                  in bindR (parser_init file text) (\<lambda>p.
                     bindR (parser_parseFile p) (\<lambda>(f, p).
                       (let f = (case f of None \<Rightarrow> ast_File_placeholder | Some f \<Rightarrow> f);
                            f = f\<lparr>File_FileStart := f_base file,
                                  File_FileEnd := f_base file + f_size file\<rparr>;
                            errors = ErrorList_sort (p_errors p);
                            err = (case ErrorList_Err errors of
                                     None \<Rightarrow> None
                                   | Some e \<Rightarrow> Some (Err_ErrorList e))
                        in returnR (Some (s\<lparr>s_files := (s_files s)[k := p_file p]\<rparr>), Some f, err))))))))"

section \<open>Invariants of the position registry\<close>

definition file_ok :: "File \<Rightarrow> bool" where
  "file_ok f = (f_lines f \<noteq> [] \<and> f_lines f ! 0 = 0 \<and> sorted_wrt (<) (f_lines f) \<and>
     (\<forall>x \<in> set (f_lines f). x \<le> f_size f) \<and> 1 \<le> f_base f \<and> 0 \<le> f_size f)"

definition fs_inv :: "FileSet \<Rightarrow> bool" where
  "fs_inv s = (1 \<le> s_base s \<and> s_base s < 2 ^ 63 \<and>
     (\<forall>k < length (s_files s). file_ok (s_files s ! k) \<and> f_base (s_files s ! k) + f_size (s_files s ! k) < s_base s) \<and>
     (\<forall>i j. i < j \<and> j < length (s_files s) \<longrightarrow>
        f_base (s_files s ! i) + f_size (s_files s ! i) < f_base (s_files s ! j)) \<and>
     (\<forall>k. s_last s = Some k \<longrightarrow> k < length (s_files s)))"


section \<open>Invariants of the lexer\<close>

text \<open>
  \<open>lexer_ok\<close>: the current character and the two offsets agree with the source. The
  offset is inside the source exactly when the current character is not the end of the
  file, and an ASCII character is the byte at the offset, one byte before the reading
  offset. \<open>lexer_adv\<close> relates a state to a later one reached by reading on.
\<close>

definition lexer_ok :: "Lexer \<Rightarrow> bool" where
  "lexer_ok l =
     (l_offset l \<le> length (l_src l) \<and>
      (0 \<le> l_ch l \<longrightarrow> l_offset l < length (l_src l) \<and> l_offset l < l_readOffset l) \<and>
      (l_ch l < 0 \<longrightarrow> l_ch l = eof \<and> l_offset l = length (l_src l) \<and> length (l_src l) \<le> l_readOffset l) \<and>
      (0 \<le> l_ch l \<and> l_ch l < utf8_RuneSelf \<longrightarrow>
         l_readOffset l = l_offset l + 1 \<and> of_char (l_src l ! l_offset l) = l_ch l))"

definition lexer_frame :: "Lexer \<Rightarrow> Lexer \<Rightarrow> bool" where
  "lexer_frame l l' =
     (l_src l' = l_src l \<and> l_errFn l' = l_errFn l \<and> l_insertSemi l' = l_insertSemi l \<and>
      l_nlPos l' = l_nlPos l \<and> l_noNewSemi l' = l_noNewSemi l \<and>
      f_name (l_file l') = f_name (l_file l) \<and> f_base (l_file l') = f_base (l_file l) \<and>
      f_size (l_file l') = f_size (l_file l) \<and> prefix (l_errors l) (l_errors l'))"

definition lexer_adv :: "Lexer \<Rightarrow> Lexer \<Rightarrow> bool" where
  "lexer_adv l l' =
     (lexer_frame l l' \<and> lexer_fuel l' \<le> lexer_fuel l \<and>
      (lexer_ok l \<longrightarrow> lexer_ok l' \<and> l_offset l \<le> l_offset l'))"


text \<open>
  What one call of \<^verbatim>\<open>Scan\<close> keeps and what it returns. \<open>flag_token\<close>: the tokens after
  which a newline ends a statement. \<open>lexer_inv\<close>: the state agrees with the source, a
  deferred semicolon is pending only while the flag is clear, and the file is one of a
  registry (its base is positive). \<open>scan_measure\<close> falls with every token but
  \<^verbatim>\<open>EOF\<close>; \<open>lexer_done\<close> is the state in which \<^verbatim>\<open>Scan\<close> returns \<^verbatim>\<open>EOF\<close> for good.
\<close>

definition flag_token :: "Token \<Rightarrow> bool" where
  "flag_token tok =
     (tok = token_Ident \<or> tok = token_Int \<or> tok = token_Float \<or> tok = token_Char \<or>
      tok = token_String \<or> tok = token_Break \<or> tok = token_Continue \<or>
      tok = token_Fallthrough \<or> tok = token_Return \<or> tok = token_RightParen \<or>
      tok = token_RightBrack \<or> tok = token_RightBrace)"

definition lexer_inv :: "Lexer \<Rightarrow> bool" where
  "lexer_inv l =
     (lexer_ok l \<and> (l_nlPos l \<noteq> NoPos \<longrightarrow> \<not> l_insertSemi l) \<and>
      1 \<le> f_base (l_file l) \<and> 0 \<le> f_size (l_file l))"

definition scan_measure :: "Lexer \<Rightarrow> nat" where
  "scan_measure l =
     2 * lexer_fuel l + (if l_nlPos l \<noteq> NoPos then 1 else 0) + (if l_insertSemi l then 1 else 0)"

definition lexer_done :: "Lexer \<Rightarrow> bool" where
  "lexer_done l =
     (l_ch l = eof \<and> \<not> l_insertSemi l \<and> l_nlPos l = NoPos \<and> length (l_src l) \<le> l_readOffset l)"

definition scan_post :: "Lexer \<Rightarrow> Lexer \<Rightarrow> Token \<Rightarrow> string \<Rightarrow> bool" where
  "scan_post l l' tok lit =
     (lexer_inv l' \<and> l_src l' = l_src l \<and> l_noNewSemi l' = l_noNewSemi l \<and> l_errFn l' = l_errFn l \<and>
      prefix (l_errors l) (l_errors l') \<and>
      f_name (l_file l') = f_name (l_file l) \<and> f_base (l_file l') = f_base (l_file l) \<and>
      f_size (l_file l') = f_size (l_file l) \<and>
      scan_measure l' \<le> scan_measure l \<and> (tok \<noteq> token_EOF \<longrightarrow> scan_measure l' < scan_measure l) \<and>
      (tok = token_EOF \<longrightarrow> lexer_done l') \<and>
      (tok = token_Comment \<longrightarrow>
         2 \<le> length lit \<and> lit ! 0 = CHR ''/'' \<and> (lit ! 1 = CHR ''/'' \<or> lit ! 1 = CHR ''*'')) \<and>
      (\<not> l_noNewSemi l \<longrightarrow>
         (flag_token tok \<longrightarrow> l_insertSemi l') \<and>
         (\<not> flag_token tok \<and> tok \<noteq> token_Comment \<and> tok \<noteq> token_Illegal \<longrightarrow> \<not> l_insertSemi l') \<and>
         (tok = token_Illegal \<longrightarrow> l_insertSemi l' = l_insertSemi l) \<and>
         (tok = token_Comment \<longrightarrow> l_insertSemi l' = (l_insertSemi l \<and> l_nlPos l' = NoPos))))"

definition scan_ret :: "Lexer \<Rightarrow> Pos \<Rightarrow> panic + (Lexer \<times> Pos \<times> Token \<times> string) \<Rightarrow> bool" where
  "scan_ret l pos r = (\<exists>l' tok lit. r = Inr (l', pos, tok, lit) \<and> scan_post l l' tok lit)"

definition scan_ctx :: "Lexer \<Rightarrow> Lexer \<Rightarrow> bool" where
  "scan_ctx l a =
     (lexer_inv l \<and> l_nlPos l = NoPos \<and> lexer_adv l a \<and> lexer_fuel a < lexer_fuel l \<and>
      1 \<le> l_offset a)"

text \<open>
  \<open>lexer_at l k\<close>: the state \<open>l\<close> moved to the character that starts at the byte \<open>k\<close>
  of its source (or to the end of the source), as \<^verbatim>\<open>next\<close> leaves it when it reads that
  character without an error.
\<close>

definition lexer_at :: "Lexer \<Rightarrow> nat \<Rightarrow> Lexer" where
  "lexer_at l k =
     l\<lparr>l_offset := min k (length (l_src l)),
       l_readOffset := (if k < length (l_src l)
                        then k + snd (utf8_DecodeRune (drop k (l_src l)))
                        else length (l_src l)),
       l_ch := (if k < length (l_src l) then fst (utf8_DecodeRune (drop k (l_src l))) else eof)\<rparr>"

section \<open>Invariants of the parser\<close>

text \<open>
  \<open>parser_pre f0 es p\<close>: the lexer of the parser satisfies its invariant, its file is
  \<open>f0\<close> with more lines at most, and the errors \<open>es\<close> are still the first ones of
  \<^verbatim>\<open>p.errors\<close>. \<open>parser_inv\<close> adds what holds once a token has been read: its position
  is valid, and lies in the file unless the token is a semicolon.
\<close>

definition parser_pre :: "File \<Rightarrow> ErrorList \<Rightarrow> parser \<Rightarrow> bool" where
  "parser_pre f0 es p =
     (lexer_inv (p_scanner p) \<and> prefix es (p_errors p) \<and>
      f_name (p_file p) = f_name f0 \<and> f_base (p_file p) = f_base f0 \<and>
      f_size (p_file p) = f_size f0)"

definition parser_inv :: "File \<Rightarrow> ErrorList \<Rightarrow> parser \<Rightarrow> bool" where
  "parser_inv f0 es p =
     (parser_pre f0 es p \<and> p_pos p \<noteq> NoPos \<and>
      (p_tok p \<noteq> token_Semicolon \<longrightarrow> f_base f0 \<le> p_pos p \<and> p_pos p \<le> f_base f0 + f_size f0))"

text \<open>
  The import declarations of a list of declarations, and the error that the loop of
  \<^verbatim>\<open>parseFile\<close> reports for the import declaration \<open>d\<close>.
\<close>

fun imports_of :: "ast_Decl list \<Rightarrow> ast_ImportDecl list" where
  "imports_of [] = []"
| "imports_of (Decl_ImportDecl d # ds) = d # imports_of ds"
| "imports_of (x # ds) = imports_of ds"

definition is_ImportDecl :: "ast_Decl \<Rightarrow> bool" where
  "is_ImportDecl decl = (case decl of Decl_ImportDecl d \<Rightarrow> True | _ \<Rightarrow> False)"

definition late_import_error :: "File \<Rightarrow> ast_ImportDecl \<Rightarrow> Error \<Rightarrow> bool" where
  "late_import_error f0 d e =
     (e_Msg e = ''imports must appear before other declarations'' \<and>
      Filename (e_Pos e) = f_name f0 \<and>
      Offset (e_Pos e) = BasicLit_ValuePos (ImportDecl_Path d) - f_base f0)"

definition late_ok :: "File \<Rightarrow> ast_Decl list \<Rightarrow> ErrorList \<Rightarrow> bool" where
  "late_ok f0 decls errs =
     (\<forall>i d. Suc i < length decls \<and> \<not> is_ImportDecl (decls ! i) \<and> decls ! Suc i = Decl_ImportDecl d \<longrightarrow>
        (\<exists>e\<in>set errs. late_import_error f0 d e))"

section \<open>The position registry: line tables and file lookup\<close>

lemma searchInts_loop_spec:
  assumes "sorted a" "i \<le> j" "j \<le> length a"
    "\<forall>k<i. a ! k \<le> x" "\<forall>k. j \<le> k \<and> k < length a \<longrightarrow> x < a ! k"
  shows "i \<le> searchInts_loop a x i j \<and> searchInts_loop a x i j \<le> j \<and>
     (\<forall>k < searchInts_loop a x i j. a ! k \<le> x) \<and>
     (\<forall>k. searchInts_loop a x i j \<le> k \<and> k < length a \<longrightarrow> x < a ! k)"
  using assms
proof (induction a x i j rule: searchInts_loop.induct)
  case (1 a x i j)
  note IH = "1.IH" and prems = "1.prems"
  show ?case
  proof (cases "i < j")
    case False
    then have "searchInts_loop a x i j = i" by (simp add: searchInts_loop.simps[of a x i j])
    moreover have "i = j" using False prems(2) by simp
    ultimately show ?thesis using prems(4,5) by simp
  next
    case True
    define h where "h = i + (j - i) div 2"
    have h1: "i \<le> h" by (simp add: h_def)
    have h2: "h < j" using True unfolding h_def by linarith
    have h3: "h < length a" using h2 prems(3) by simp
    show ?thesis
    proof (cases "a ! h \<le> x")
      case le: True
      have low: "\<forall>k<h + 1. a ! k \<le> x"
      proof (intro allI impI)
        fix k assume "k < h + 1"
        then have "k \<le> h" by simp
        then have "a ! k \<le> a ! h" by (rule sorted_nth_mono[OF prems(1) _ h3])
        then show "a ! k \<le> x" using le by simp
      qed
      have hj: "h + 1 \<le> j" using h2 by simp
      note IH1 = IH(1)[OF True h_def le prems(1) hj prems(3) low prems(5)]
      have eq: "searchInts_loop a x i j = searchInts_loop a x (h + 1) j"
        using True le by (simp add: searchInts_loop.simps[of a x i j] h_def Let_def)
      have "i \<le> searchInts_loop a x (h + 1) j" using IH1 h1 by linarith
      then show ?thesis unfolding eq using IH1 by blast
    next
      case gt: False
      have high: "\<forall>k. h \<le> k \<and> k < length a \<longrightarrow> x < a ! k"
      proof (intro allI impI)
        fix k assume k: "h \<le> k \<and> k < length a"
        have "a ! h \<le> a ! k" by (rule sorted_nth_mono[OF prems(1)]) (use k in simp_all)
        then show "x < a ! k" using gt by simp
      qed
      have hl: "h \<le> length a" using h3 by simp
      note IH2 = IH(2)[OF True h_def gt prems(1) h1 hl prems(4) high]
      have eq: "searchInts_loop a x i j = searchInts_loop a x i h"
        using True gt by (simp add: searchInts_loop.simps[of a x i j] h_def Let_def)
      have "searchInts_loop a x i h \<le> j" using IH2 h2 by linarith
      then show ?thesis unfolding eq using IH2 by blast
    qed
  qed
qed

lemma searchInts_at:
  assumes "sorted_wrt (<) a" "k < length a"
  shows "searchInts a (a ! k) = int k"
proof -
  have s: "sorted a" using assms(1) by (simp add: sorted_wrt_mono_rel[of a "(<)" "(\<le>)"])
  define r where "r = searchInts_loop a (a ! k) 0 (length a)"
  have spec: "r \<le> length a" "\<forall>k'<r. a ! k' \<le> a ! k" "\<forall>k'. r \<le> k' \<and> k' < length a \<longrightarrow> a ! k < a ! k'"
    using searchInts_loop_spec[OF s, of 0 "length a" "a ! k"] by (auto simp: r_def)
  have "k < r" using spec(3) assms(2) by (meson less_irrefl not_le_imp_less)
  moreover have "r \<le> k + 1"
  proof (rule ccontr)
    assume "\<not> r \<le> k + 1"
    then have "k + 1 < r" by simp
    then have "a ! (k + 1) \<le> a ! k" using spec(2) by blast
    moreover have "a ! k < a ! (k + 1)"
      using assms(1) \<open>k + 1 < r\<close> spec(1) by (auto simp: sorted_wrt_iff_nth_less)
    ultimately show False by simp
  qed
  ultimately have "r = k + 1" by simp
  then show ?thesis by (simp add: searchInts_def r_def[symmetric])
qed

lemma file_ok_AddLine:
  assumes "file_ok f"
  shows "file_ok (File_AddLine f offset)"
proof (cases "f_lines f ! (length (f_lines f) - 1) < offset \<and> offset < f_size f")
  case False
  then show ?thesis using assms by (auto simp: File_AddLine_def file_ok_def Let_def)
next
  case True
  have ne: "f_lines f \<noteq> []" using assms by (simp add: file_ok_def)
  have lst: "last (f_lines f) < offset" using True ne by (simp add: last_conv_nth)
  have srt: "sorted_wrt (<) (f_lines f)" using assms by (simp add: file_ok_def)
  have below: "\<forall>x \<in> set (f_lines f). x < offset"
  proof
    fix x assume "x \<in> set (f_lines f)"
    then obtain n where n: "n < length (f_lines f)" "x = f_lines f ! n" by (auto simp: in_set_conv_nth)
    have "sorted (f_lines f)" using srt by (simp add: sorted_wrt_mono_rel[of _ "(<)" "(\<le>)"])
    then have "f_lines f ! n \<le> f_lines f ! (length (f_lines f) - 1)"
      by (rule sorted_nth_mono) (use n in simp_all)
    then show "x < offset" using True n by simp
  qed
  have eq: "File_AddLine f offset = f\<lparr>f_lines := f_lines f @ [offset]\<rparr>"
    using True by (simp add: File_AddLine_def Let_def)
  show ?thesis unfolding eq using assms below True ne
    by (simp add: file_ok_def sorted_wrt_append nth_append less_imp_le)
qed

lemma wrap_int_nonneg:
  assumes "0 \<le> x" "x < 2 ^ 64" "0 \<le> wrap_int x"
  shows "wrap_int x = x \<and> x < 2 ^ 63"
proof (cases "x < 2 ^ 63")
  case True
  then have "(x + 2 ^ 63) mod 2 ^ 64 = x + 2 ^ 63" using assms(1) by (simp add: mod_pos_pos_trivial)
  then show ?thesis using True by (simp add: wrap_int_def)
next
  case False
  have "(x + 2 ^ 63) mod 2 ^ 64 = (x + 2 ^ 63 - 2 ^ 64) mod 2 ^ 64"
    by (metis mod_diff_right_eq mod_self diff_zero)
  also have "\<dots> = x + 2 ^ 63 - 2 ^ 64" using False assms(2) by (simp add: mod_pos_pos_trivial)
  finally have "wrap_int x < 0" using assms(2) by (simp add: wrap_int_def)
  then show ?thesis using assms(3) by simp
qed

lemma BinarySearchFunc_loop_spec:
  assumes "\<forall>i j. i \<le> j \<and> j < length a \<and> cmp (a ! j) t < 0 \<longrightarrow> cmp (a ! i) t < (0::int)"
    "i \<le> j" "j \<le> length a"
    "\<forall>k<i. cmp (a ! k) t < 0" "\<forall>k. j \<le> k \<and> k < length a \<longrightarrow> \<not> cmp (a ! k) t < 0"
  shows "i \<le> BinarySearchFunc_loop a t cmp i j \<and> BinarySearchFunc_loop a t cmp i j \<le> j \<and>
     (\<forall>k<BinarySearchFunc_loop a t cmp i j. cmp (a ! k) t < 0) \<and>
     (\<forall>k. BinarySearchFunc_loop a t cmp i j \<le> k \<and> k < length a \<longrightarrow> \<not> cmp (a ! k) t < 0)"
  using assms
proof (induction a t cmp i j rule: BinarySearchFunc_loop.induct)
  case (1 a t cmp i j)
  note IH = "1.IH" and prems = "1.prems"
  show ?case
  proof (cases "i < j")
    case False
    then have "BinarySearchFunc_loop a t cmp i j = i"
      by (simp add: BinarySearchFunc_loop.simps[of a t cmp i j])
    moreover have "i = j" using False prems(2) by simp
    ultimately show ?thesis using prems(4,5) by simp
  next
    case True
    define h where "h = (i + j) div 2"
    have h1: "i \<le> h" using True unfolding h_def by linarith
    have h2: "h < j" using True unfolding h_def by linarith
    have h3: "h < length a" using h2 prems(3) by simp
    show ?thesis
    proof (cases "cmp (a ! h) t < 0")
      case lt: True
      have low: "\<forall>k<h + 1. cmp (a ! k) t < 0"
      proof (intro allI impI)
        fix k assume "k < h + 1"
        then have "k \<le> h \<and> h < length a \<and> cmp (a ! h) t < 0" using h3 lt by simp
        then show "cmp (a ! k) t < 0" using prems(1) by blast
      qed
      have hj: "h + 1 \<le> j" using h2 by simp
      have eq: "BinarySearchFunc_loop a t cmp i j = BinarySearchFunc_loop a t cmp (h + 1) j"
        using True lt by (simp add: BinarySearchFunc_loop.simps[of a t cmp i j] h_def Let_def)
      note IH1 = IH(1)[OF True h_def lt prems(1) hj prems(3) low prems(5)]
      have "i \<le> BinarySearchFunc_loop a t cmp (h + 1) j" using IH1 h1 by linarith
      then show ?thesis unfolding eq using IH1 by blast
    next
      case ge: False
      have high: "\<forall>k. h \<le> k \<and> k < length a \<longrightarrow> \<not> cmp (a ! k) t < 0"
      proof (intro allI impI)
        fix k assume k: "h \<le> k \<and> k < length a"
        show "\<not> cmp (a ! k) t < 0"
        proof
          assume "cmp (a ! k) t < 0"
          then have "cmp (a ! h) t < 0" using prems(1) k by blast
          then show False using ge by simp
        qed
      qed
      have hl: "h \<le> length a" using h3 by simp
      have eq: "BinarySearchFunc_loop a t cmp i j = BinarySearchFunc_loop a t cmp i h"
        using True ge by (simp add: BinarySearchFunc_loop.simps[of a t cmp i j] h_def Let_def)
      note IH2 = IH(2)[OF True h_def ge prems(1) h1 hl prems(4) high]
      have "BinarySearchFunc_loop a t cmp i h \<le> j" using IH2 h2 by linarith
      then show ?thesis unfolding eq using IH2 by blast
    qed
  qed
qed

lemma cmp_Compare_less: "cmp_Compare x y < 0 \<longleftrightarrow> x < y"
  by (simp add: cmp_Compare_def)

lemma cmp_Compare_eq: "cmp_Compare x y = 0 \<longleftrightarrow> x = y"
  by (simp add: cmp_Compare_def)

lemma searchFiles_spec:
  fixes a :: "File list"
  assumes "\<forall>i j. i < j \<and> j < length a \<longrightarrow> f_base (a ! i) < f_base (a ! j)"
  shows "(if searchFiles a x \<ge> 0
          then nat (searchFiles a x) < length a \<and> f_base (a ! nat (searchFiles a x)) \<le> x \<and>
               (\<forall>k. nat (searchFiles a x) < k \<and> k < length a \<longrightarrow> x < f_base (a ! k))
          else (\<forall>k<length a. x < f_base (a ! k)))"
proof -
  let ?c = "\<lambda>(a::File) x. cmp_Compare (f_base a) x"
  define r where "r = BinarySearchFunc_loop a x ?c 0 (length a)"
  have mono: "\<forall>i j. i \<le> j \<and> j < length a \<and> ?c (a ! j) x < 0 \<longrightarrow> ?c (a ! i) x < 0"
  proof (intro allI impI)
    fix i j assume h: "i \<le> j \<and> j < length a \<and> ?c (a ! j) x < 0"
    have "f_base (a ! i) \<le> f_base (a ! j)"
    proof (cases "i = j")
      case True then show ?thesis by simp
    next
      case False
      then have "i < j \<and> j < length a" using h by simp
      then show ?thesis using assms by (simp add: less_imp_le)
    qed
    then show "?c (a ! i) x < 0" using h by (simp add: cmp_Compare_less)
  qed
  have S: "0 \<le> r \<and> r \<le> length a \<and> (\<forall>k<r. ?c (a ! k) x < 0) \<and>
      (\<forall>k. r \<le> k \<and> k < length a \<longrightarrow> \<not> ?c (a ! k) x < 0)"
    unfolding r_def
  proof (rule BinarySearchFunc_loop_spec[of a ?c x 0 "length a"])
    show "\<forall>i j. i \<le> j \<and> j < length a \<and> ?c (a ! j) x < 0 \<longrightarrow> ?c (a ! i) x < 0"
      by (rule mono)
  qed simp_all
  have spec: "r \<le> length a" "\<forall>k<r. f_base (a ! k) < x"
      "\<forall>k. r \<le> k \<and> k < length a \<longrightarrow> x \<le> f_base (a ! k)"
    using S by (simp_all only: cmp_Compare_less not_less) blast+
  have sf: "searchFiles a x = (if r < length a \<and> f_base (a ! r) = x then int r else int r - 1)"
    by (simp add: searchFiles_def slices_BinarySearchFunc_def Let_def r_def[symmetric] cmp_Compare_eq)
  show ?thesis
  proof (cases "r < length a \<and> f_base (a ! r) = x")
    case True
    have "\<forall>k. r < k \<and> k < length a \<longrightarrow> x < f_base (a ! k)"
      using assms True by auto
    then show ?thesis using True sf by simp
  next
    case False
    note nf = False
    have strict: "x < f_base (a ! k)" if k: "r \<le> k" "k < length a" for k
    proof (cases "k = r")
      case True
      have "x \<le> f_base (a ! r)" using spec(3) k True by blast
      moreover have "f_base (a ! r) \<noteq> x" using nf k True by blast
      ultimately show ?thesis using True by simp
    next
      case False
      then have "r < k \<and> k < length a" using k by simp
      then have "f_base (a ! r) < f_base (a ! k)" using assms by blast
      moreover have "x \<le> f_base (a ! r)" using spec(3) k by simp
      ultimately show ?thesis by simp
    qed
    show ?thesis
    proof (cases "r = 0")
      case True
      then have "searchFiles a x = - 1" using sf nf by simp
      moreover have "\<forall>k<length a. x < f_base (a ! k)" using strict True by simp
      ultimately show ?thesis by simp
    next
      case r: False
      then have n: "nat (int r - 1) = r - 1" "int r - 1 \<ge> 0" by auto
      have lt: "r - 1 < length a" using r spec(1) by simp
      have le: "f_base (a ! (r - 1)) \<le> x" using spec(2) r by (simp add: less_imp_le)
      have up: "\<forall>k. r - 1 < k \<and> k < length a \<longrightarrow> x < f_base (a ! k)"
      proof (intro allI impI)
        fix k assume k: "r - 1 < k \<and> k < length a"
        then have "r \<le> k" by linarith
        then show "x < f_base (a ! k)" using strict k by simp
      qed
      have "searchFiles a x = int r - 1" using sf nf by simp
      then show ?thesis using n lt le up by simp
    qed
  qed
qed

lemma fs_inv_New: "fs_inv NewFileSet"
  by (simp add: fs_inv_def NewFileSet_def)

lemma fs_inv_AddFile:
  assumes inv: "fs_inv s" and ints: "is_int b" "is_int sz"
    and run: "FileSet_AddFile s filename b sz = Inr (s', k)"
  shows "fs_inv s'"
proof -
  define base where "base = (if b < 0 then s_base s else b)"
  have b1: "s_base s \<le> base" and sz0: "0 \<le> sz"
    and w: "0 \<le> wrap_int (base + (sz + 1))"
    and s': "s' = s\<lparr>s_base := wrap_int (base + (sz + 1)),
        s_files := s_files s @ [\<lparr>f_name = filename, f_base = base, f_size = sz, f_lines = [0]\<rparr>],
        s_last := Some (length (s_files s))\<rparr>"
    using run by (auto simp: FileSet_AddFile_def Let_def base_def split: if_splits)
  have sb: "1 \<le> s_base s" "s_base s < 2 ^ 63" using inv by (simp_all add: fs_inv_def)
  have "base < 2 ^ 63" using sb ints(1) by (simp add: base_def is_int_def)
  moreover have "sz < 2 ^ 63" using ints(2) by (simp add: is_int_def)
  ultimately have "base + (sz + 1) < 2 ^ 64" by simp
  moreover have "0 \<le> base + (sz + 1)" using b1 sb sz0 by simp
  ultimately have ww: "wrap_int (base + (sz + 1)) = base + (sz + 1)" "base + (sz + 1) < 2 ^ 63"
    using wrap_int_nonneg[OF _ _ w] by simp_all
  let ?f = "\<lparr>f_name = filename, f_base = base, f_size = sz, f_lines = [0]\<rparr>"
  have fok: "file_ok ?f" using b1 sb sz0 by (simp add: file_ok_def)
  have old: "\<forall>k < length (s_files s). file_ok (s_files s ! k) \<and>
      f_base (s_files s ! k) + f_size (s_files s ! k) < s_base s"
    using inv by (simp add: fs_inv_def)
  have ord: "\<forall>i j. i < j \<and> j < length (s_files s) \<longrightarrow>
      f_base (s_files s ! i) + f_size (s_files s ! i) < f_base (s_files s ! j)"
    using inv by (simp add: fs_inv_def)
  have files': "s_files s' = s_files s @ [?f]" and base': "s_base s' = base + (sz + 1)"
    and last': "s_last s' = Some (length (s_files s))"
    using s' ww by simp_all
  have c1: "\<forall>k < length (s_files s'). file_ok (s_files s' ! k) \<and>
      f_base (s_files s' ! k) + f_size (s_files s' ! k) < s_base s'"
  proof (intro allI impI)
    fix k assume "k < length (s_files s')"
    then have "k < length (s_files s) \<or> k = length (s_files s)" using files' by auto
    then show "file_ok (s_files s' ! k) \<and> f_base (s_files s' ! k) + f_size (s_files s' ! k) < s_base s'"
    proof
      assume k: "k < length (s_files s)"
      then have "s_files s' ! k = s_files s ! k" using files' by (simp add: nth_append)
      then show ?thesis using old k base' b1 sz0 by fastforce
    next
      assume "k = length (s_files s)"
      then have "s_files s' ! k = ?f" using files' by simp
      then show ?thesis using fok base' by simp
    qed
  qed
  have c2: "\<forall>i j. i < j \<and> j < length (s_files s') \<longrightarrow>
      f_base (s_files s' ! i) + f_size (s_files s' ! i) < f_base (s_files s' ! j)"
  proof (intro allI impI)
    fix i j assume ij: "i < j \<and> j < length (s_files s')"
    then have "j < length (s_files s) \<or> j = length (s_files s)" using files' by auto
    then show "f_base (s_files s' ! i) + f_size (s_files s' ! i) < f_base (s_files s' ! j)"
    proof
      assume j: "j < length (s_files s)"
      then have "s_files s' ! j = s_files s ! j" "s_files s' ! i = s_files s ! i"
        using files' ij by (simp_all add: nth_append)
      then show ?thesis using ord ij j by simp
    next
      assume j: "j = length (s_files s)"
      then have "s_files s' ! j = ?f" "s_files s' ! i = s_files s ! i" "i < length (s_files s)"
        using files' ij by (simp_all add: nth_append)
      then show ?thesis using old b1 by fastforce
    qed
  qed
  show ?thesis
    unfolding fs_inv_def using c1 c2 base' last' files' b1 sb sz0 ww by simp
qed

lemma fs_inv_sorted_bases:
  assumes "fs_inv s"
  shows "\<forall>i j. i < j \<and> j < length (s_files s) \<longrightarrow> f_base (s_files s ! i) < f_base (s_files s ! j)"
proof (intro allI impI)
  fix i j assume ij: "i < j \<and> j < length (s_files s)"
  then have "f_base (s_files s ! i) + f_size (s_files s ! i) < f_base (s_files s ! j)"
    using assms by (simp add: fs_inv_def)
  moreover have "0 \<le> f_size (s_files s ! i)" using assms ij by (simp add: fs_inv_def file_ok_def)
  ultimately show "f_base (s_files s ! i) < f_base (s_files s ! j)" by simp
qed

lemma FileSet_file_files: "s_files (fst (FileSet_file s p)) = s_files s"
  and FileSet_file_base: "s_base (fst (FileSet_file s p)) = s_base s"
  by (simp_all add: FileSet_file_def Let_def)

lemma FileSet_file_last:
  assumes "fs_inv s" "s_last (fst (FileSet_file s p)) = Some k"
  shows "k < length (s_files s)"
proof (cases "s_last (fst (FileSet_file s p)) = s_last s")
  case True
  then have "s_last s = Some k" using assms(2) by simp
  then show ?thesis using assms(1) by (simp add: fs_inv_def)
next
  case False
  then have "searchFiles (s_files s) p \<ge> 0" and "k = nat (searchFiles (s_files s) p)"
    using assms(2) by (auto simp: FileSet_file_def Let_def split: if_splits)
  then show ?thesis
    using searchFiles_spec[OF fs_inv_sorted_bases[OF assms(1)], of p] by simp
qed

lemma fs_inv_file:
  assumes "fs_inv s"
  shows "fs_inv (fst (FileSet_file s p))"
proof -
  have "\<forall>k. s_last (fst (FileSet_file s p)) = Some k \<longrightarrow> k < length (s_files s)"
    using FileSet_file_last[OF assms] by blast
  then show ?thesis
    using assms unfolding fs_inv_def by (simp add: FileSet_file_files FileSet_file_base)
qed

lemma fs_inv_step:
  assumes "fs_inv s" "fs_step s x = Inr s'"
  shows "fs_inv s'"
proof (cases x)
  case (OpAddFile filename b sz)
  then show ?thesis using assms fs_inv_AddFile
    by (auto split: if_splits sum.splits)
next
  case (OpFile p)
  then show ?thesis using assms fs_inv_file[of s p]
    by (auto simp: FileSet_File_def split: if_splits)
next
  case (OpAddLine k offset)
  then have k: "k < length (s_files s)"
    and s': "s' = s\<lparr>s_files := (s_files s)[k := File_AddLine (s_files s ! k) offset]\<rparr>"
    using assms(2) by (auto split: if_splits)
  let ?new = "(s_files s)[k := File_AddLine (s_files s ! k) offset]"
  have nth: "f_base (?new ! n) = f_base (s_files s ! n) \<and> f_size (?new ! n) = f_size (s_files s ! n) \<and>
      (file_ok (s_files s ! n) \<longrightarrow> file_ok (?new ! n))" if "n < length (s_files s)" for n
  proof (cases "n = k")
    case True
    have "f_base (File_AddLine f offset) = f_base f \<and> f_size (File_AddLine f offset) = f_size f" for f
      by (simp add: File_AddLine_def Let_def)
    then show ?thesis using True that file_ok_AddLine by simp
  next
    case False
    then show ?thesis using that by simp
  qed
  have c1: "\<forall>n < length ?new. file_ok (?new ! n) \<and> f_base (?new ! n) + f_size (?new ! n) < s_base s"
  proof (intro allI impI)
    fix n assume "n < length ?new"
    then have n: "n < length (s_files s)" by simp
    then have "file_ok (s_files s ! n) \<and> f_base (s_files s ! n) + f_size (s_files s ! n) < s_base s"
      using assms(1) by (simp add: fs_inv_def)
    then show "file_ok (?new ! n) \<and> f_base (?new ! n) + f_size (?new ! n) < s_base s"
      using nth[OF n] by simp
  qed
  have c2: "\<forall>i j. i < j \<and> j < length ?new \<longrightarrow> f_base (?new ! i) + f_size (?new ! i) < f_base (?new ! j)"
  proof (intro allI impI)
    fix i j assume ij: "i < j \<and> j < length ?new"
    then have i: "i < length (s_files s)" and j: "j < length (s_files s)" by simp_all
    have "f_base (s_files s ! i) + f_size (s_files s ! i) < f_base (s_files s ! j)"
      using assms(1) ij j by (simp add: fs_inv_def)
    then show "f_base (?new ! i) + f_size (?new ! i) < f_base (?new ! j)"
      using nth[OF i] nth[OF j] by simp
  qed
  have c3: "1 \<le> s_base s \<and> s_base s < 2 ^ 63 \<and> (\<forall>k. s_last s = Some k \<longrightarrow> k < length ?new)"
    using assms(1) by (simp add: fs_inv_def)
  show ?thesis
    unfolding fs_inv_def s' using c1 c2 c3 by simp
qed

lemma fs_inv_run:
  assumes "fs_inv s" "fs_run s ops = Inr s'"
  shows "fs_inv s'"
  using assms
proof (induction ops arbitrary: s)
  case Nil
  then show ?case by simp
next
  case (Cons x xs)
  then show ?case by (auto split: sum.splits dest: fs_inv_step)
qed

lemma searchFiles_nonneg:
  fixes a :: "File list"
  assumes "\<forall>i j. i < j \<and> j < length a \<longrightarrow> f_base (a ! i) < f_base (a ! j)"
    and "0 \<le> searchFiles a x"
  shows "nat (searchFiles a x) < length a" "f_base (a ! nat (searchFiles a x)) \<le> x"
    "\<forall>k. nat (searchFiles a x) < k \<and> k < length a \<longrightarrow> x < f_base (a ! k)"
proof -
  have "nat (searchFiles a x) < length a \<and> f_base (a ! nat (searchFiles a x)) \<le> x \<and>
      (\<forall>k. nat (searchFiles a x) < k \<and> k < length a \<longrightarrow> x < f_base (a ! k))"
    using searchFiles_spec[OF assms(1), of x] assms(2) by simp
  then show "nat (searchFiles a x) < length a" "f_base (a ! nat (searchFiles a x)) \<le> x"
    "\<forall>k. nat (searchFiles a x) < k \<and> k < length a \<longrightarrow> x < f_base (a ! k)"
    by blast+
qed

lemma searchFiles_neg:
  fixes a :: "File list"
  assumes "\<forall>i j. i < j \<and> j < length a \<longrightarrow> f_base (a ! i) < f_base (a ! j)"
    and "\<not> 0 \<le> searchFiles a x"
  shows "\<forall>k<length a. x < f_base (a ! k)"
  using searchFiles_spec[OF assms(1), of x] assms(2) by simp

lemma FileSet_file_result:
  "snd (FileSet_file s p) =
     (if (\<exists>c. s_last s = Some c \<and> file_contains (s_files s ! c) p) then s_last s
      else if 0 \<le> searchFiles (s_files s) p \<and>
              p \<le> f_base (s_files s ! nat (searchFiles (s_files s) p)) +
                   f_size (s_files s ! nat (searchFiles (s_files s) p))
      then Some (nat (searchFiles (s_files s) p)) else None)"
  by (cases "s_last s") (simp_all add: FileSet_file_def Let_def file_contains_def)

lemma FileSet_file_spec:
  assumes inv: "fs_inv s"
  shows "case snd (FileSet_file s p) of
           None \<Rightarrow> (\<forall>k<length (s_files s). \<not> file_contains (s_files s ! k) p)
         | Some i \<Rightarrow> i < length (s_files s) \<and> file_contains (s_files s ! i) p \<and>
             (\<forall>k<length (s_files s). file_contains (s_files s ! k) p \<longrightarrow> k = i)"
proof -
  let ?a = "s_files s"
  have ord: "\<forall>i j. i < j \<and> j < length ?a \<longrightarrow> f_base (?a ! i) + f_size (?a ! i) < f_base (?a ! j)"
    using inv by (simp add: fs_inv_def)
  have size0: "\<forall>k<length ?a. 0 \<le> f_size (?a ! k)" using inv by (simp add: fs_inv_def file_ok_def)
  have uniq: "\<forall>k<length ?a. file_contains (?a ! k) p \<longrightarrow> k = i"
    if "i < length ?a" "file_contains (?a ! i) p" for i
  proof (intro allI impI, rule ccontr)
    fix k assume kl: "k < length ?a" and kc: "file_contains (?a ! k) p"
    assume "k \<noteq> i"
    then consider "k < i" | "i < k" by linarith
    then show False
    proof cases
      case 1
      then have "f_base (?a ! k) + f_size (?a ! k) < f_base (?a ! i)" using ord that(1) by blast
      then show False using that(2) kc by (simp add: file_contains_def)
    next
      case 2
      then have "f_base (?a ! i) + f_size (?a ! i) < f_base (?a ! k)" using ord kl by blast
      then show False using that(2) kc by (simp add: file_contains_def)
    qed
  qed
  show ?thesis
  proof (cases "\<exists>c. s_last s = Some c \<and> file_contains (?a ! c) p")
    case True
    then obtain c where c: "s_last s = Some c" "file_contains (?a ! c) p" by blast
    then have res: "snd (FileSet_file s p) = Some c"
      unfolding FileSet_file_result by auto
    have cl: "c < length ?a" using inv c(1) by (simp add: fs_inv_def)
    show ?thesis unfolding res option.case using cl c(2) uniq[OF cl c(2)] by blast
  next
    case False
    note miss = False
    define i where "i = searchFiles ?a p"
    note srt = fs_inv_sorted_bases[OF inv]
    show ?thesis
    proof (cases "i \<ge> 0 \<and> p \<le> f_base (?a ! nat i) + f_size (?a ! nat i)")
      case True
      then have res: "snd (FileSet_file s p) = Some (nat i)"
        unfolding FileSet_file_result i_def using miss by auto
      have i0: "0 \<le> searchFiles ?a p" using True by (simp add: i_def)
      have il: "nat i < length ?a" and ib: "f_base (?a ! nat i) \<le> p"
        using searchFiles_nonneg(1,2)[OF srt i0] by (simp_all add: i_def)
      have ic: "file_contains (?a ! nat i) p" using ib True by (simp add: file_contains_def)
      show ?thesis unfolding res option.case using il ic uniq[OF il ic] by blast
    next
      case False
      then have res: "snd (FileSet_file s p) = None"
        unfolding FileSet_file_result i_def using miss by auto
      have none: "\<not> file_contains (?a ! k) p" if k: "k < length ?a" for k
      proof (cases "i \<ge> 0")
        case neg: False
        then have "\<not> 0 \<le> searchFiles ?a p" by (simp add: i_def)
        then have "p < f_base (?a ! k)" using searchFiles_neg[OF srt] k by blast
        then show ?thesis by (simp add: file_contains_def)
      next
        case nn: True
        then have far: "f_base (?a ! nat i) + f_size (?a ! nat i) < p" using False by simp
        have i0: "0 \<le> searchFiles ?a p" using nn by (simp add: i_def)
        have il: "nat i < length ?a" using searchFiles_nonneg(1)[OF srt i0] by (simp add: i_def)
        have above: "\<forall>k. nat i < k \<and> k < length ?a \<longrightarrow> p < f_base (?a ! k)"
          using searchFiles_nonneg(3)[OF srt i0] by (simp add: i_def)
        consider "k < nat i" | "k = nat i" | "nat i < k" by linarith
        then show ?thesis
        proof cases
          case 1
          then have "f_base (?a ! k) + f_size (?a ! k) < f_base (?a ! nat i)" using ord il by blast
          moreover have "0 \<le> f_size (?a ! nat i)" using size0 il by blast
          ultimately show ?thesis using far by (simp add: file_contains_def)
        next
          case 2
          then show ?thesis using far by (simp add: file_contains_def)
        next
          case 3
          then have "p < f_base (?a ! k)" using above k by blast
          then show ?thesis by (simp add: file_contains_def)
        qed
      qed
      show ?thesis unfolding res option.case using none by blast
    qed
  qed
qed

lemma fs_inv_base_pos:
  assumes "fs_inv s" "k < length (s_files s)"
  shows "1 \<le> f_base (s_files s ! k)"
  using assms by (simp add: fs_inv_def file_ok_def)

text \<open>
  C3. In a registry built by \<^verbatim>\<open>AddFile\<close> calls (with lookups and \<^verbatim>\<open>AddLine\<close> calls
  between them, so that the cache holds whatever a run can leave in it), \<^verbatim>\<open>File(p)\<close>
  returns \<^verbatim>\<open>nil\<close> only if \<open>p\<close> is \<^verbatim>\<open>NoPos\<close> or lies in no file's range
  \<open>[base, base + size]\<close>, and otherwise returns the one file whose range holds \<open>p\<close>.
\<close>

theorem FileSet_File_unique_file:
  assumes "fs_run NewFileSet ops = Inr s"
  shows "case snd (FileSet_File s p) of
           None \<Rightarrow> p = NoPos \<or> (\<forall>k<length (s_files s). \<not> file_contains (s_files s ! k) p)
         | Some i \<Rightarrow> p \<noteq> NoPos \<and> i < length (s_files s) \<and> file_contains (s_files s ! i) p \<and>
             (\<forall>k<length (s_files s). file_contains (s_files s ! k) p \<longrightarrow> k = i)"
proof -
  have inv: "fs_inv s" using fs_inv_run[OF fs_inv_New assms] .
  show ?thesis
  proof (cases "p = NoPos")
    case True
    then show ?thesis by (simp add: FileSet_File_def)
  next
    case False
    then show ?thesis using FileSet_file_spec[OF inv, of p]
      by (simp add: FileSet_File_def split: option.splits)
  qed
qed

theorem FileSet_File_unique_file_witness:
  "fs_run NewFileSet [OpAddFile ''a'' (- 1) 10, OpAddFile ''b'' 20 5, OpFile 3, OpAddLine 0 4] =
     Inr \<lparr>s_base = 26,
          s_files = [\<lparr>f_name = ''a'', f_base = 1, f_size = 10, f_lines = [0, 4]\<rparr>,
                     \<lparr>f_name = ''b'', f_base = 20, f_size = 5, f_lines = [0]\<rparr>],
          s_last = Some 0\<rparr> \<and>
   snd (FileSet_File \<lparr>s_base = 26,
          s_files = [\<lparr>f_name = ''a'', f_base = 1, f_size = 10, f_lines = [0, 4]\<rparr>,
                     \<lparr>f_name = ''b'', f_base = 20, f_size = 5, f_lines = [0]\<rparr>],
          s_last = Some 0\<rparr> 25) = Some 1 \<and>
   snd (FileSet_File \<lparr>s_base = 26,
          s_files = [\<lparr>f_name = ''a'', f_base = 1, f_size = 10, f_lines = [0, 4]\<rparr>,
                     \<lparr>f_name = ''b'', f_base = 20, f_size = 5, f_lines = [0]\<rparr>],
          s_last = Some 0\<rparr> 15) = None"
proof -
  let ?s = "\<lparr>s_base = 26,
          s_files = [\<lparr>f_name = ''a'', f_base = 1, f_size = 10, f_lines = [0, 4]\<rparr>,
                     \<lparr>f_name = ''b'', f_base = 20, f_size = 5, f_lines = [0]\<rparr>],
          s_last = Some 0\<rparr>"
  have run: "fs_run NewFileSet [OpAddFile ''a'' (- 1) 10, OpAddFile ''b'' 20 5, OpFile 3, OpAddLine 0 4] = Inr ?s"
    by code_simp
  have c: "file_contains (s_files ?s ! 1) 25" "\<not> file_contains (s_files ?s ! 0) 25"
     "\<not> file_contains (s_files ?s ! 0) 15" "\<not> file_contains (s_files ?s ! 1) 15"
    by (simp_all add: file_contains_def)
  have "snd (FileSet_File ?s 25) = Some 1"
    using FileSet_File_unique_file[OF run, of 25] c(1,2)
    by (auto split: option.splits simp: less_Suc_eq)
  moreover have "snd (FileSet_File ?s 15) = None"
    using FileSet_File_unique_file[OF run, of 15] c(3,4)
    by (auto split: option.splits simp: less_Suc_eq)
  ultimately show ?thesis using run by simp
qed

lemma file_ok_LineStart:
  assumes ok: "file_ok F" and L: "1 \<le> L" "L \<le> File_LineCount F"
  shows "File_LineStart F L = Inr (f_base F + f_lines F ! nat (L - 1)) \<and>
     File_Line F (f_base F + f_lines F ! nat (L - 1)) = L \<and>
     Column (File_Position F (f_base F + f_lines F ! nat (L - 1))) = 1"
proof -
  define n where "n = nat (L - 1)"
  define x where "x = f_lines F ! n"
  have nl: "n < length (f_lines F)" using L by (simp add: n_def File_LineCount_def)
  have srt: "sorted_wrt (<) (f_lines F)" and first: "f_lines F ! 0 = 0"
    and hi: "\<forall>y \<in> set (f_lines F). y \<le> f_size F" and b1: "1 \<le> f_base F"
    using ok by (simp_all add: file_ok_def)
  have "sorted (f_lines F)" using srt by (simp add: sorted_wrt_mono_rel[of _ "(<)" "(\<le>)"])
  then have "f_lines F ! 0 \<le> f_lines F ! n" by (rule sorted_nth_mono) (use nl in simp_all)
  then have x0: "0 \<le> x" using first by (simp add: x_def)
  have xs: "x \<le> f_size F" using hi nl by (simp add: x_def)
  have start: "File_LineStart F L = Inr (f_base F + x)"
    using L by (simp add: File_LineStart_def File_LineCount_def x_def n_def)
  have nz: "f_base F + x \<noteq> NoPos" using b1 x0 by simp
  have fx: "File_fixOffset F x = x"
    using x0 xs by (simp add: File_fixOffset_def)
  have si: "searchInts (f_lines F) x = int n"
    unfolding x_def by (rule searchInts_at[OF srt nl])
  have pos: "File_Position F (f_base F + x) =
      \<lparr>Filename = f_name F, Offset = x, Line = int n + 1, Column = x - f_lines F ! n + 1\<rparr>"
    using nz by (simp add: File_Position_def File_position_def fx File_unpack_def si Let_def)
  have "int n + 1 = L" using L by (simp add: n_def)
  then show ?thesis
    using start pos by (simp add: File_Line_def x_def[symmetric] n_def[symmetric])
qed

text \<open>
  C5. For a file of a registry (created by \<^verbatim>\<open>AddFile\<close>, with any \<^verbatim>\<open>AddLine\<close> calls
  after it) and a line number \<open>L\<close> with \<open>1 \<le> L \<le> LineCount\<close>: \<^verbatim>\<open>LineStart(L)\<close>
  returns a position, the line of that position is \<open>L\<close> and its column is 1.
\<close>

theorem File_Line_of_LineStart:
  assumes "fs_run NewFileSet ops = Inr s" and "k < length (s_files s)"
    and "1 \<le> L" and "L \<le> File_LineCount (s_files s ! k)"
  shows "\<exists>p. File_LineStart (s_files s ! k) L = Inr p \<and> File_Line (s_files s ! k) p = L \<and>
     Column (File_Position (s_files s ! k) p) = 1"
proof -
  have "fs_inv s" using fs_inv_run[OF fs_inv_New assms(1)] .
  then have "file_ok (s_files s ! k)" using assms(2) by (simp add: fs_inv_def)
  from file_ok_LineStart[OF this assms(3,4)] show ?thesis by blast
qed

theorem File_Line_of_LineStart_witness:
  "fs_run NewFileSet [OpAddFile ''a'' (- 1) 10, OpAddLine 0 4, OpAddLine 0 2, OpAddLine 0 7] =
     Inr \<lparr>s_base = 12,
          s_files = [\<lparr>f_name = ''a'', f_base = 1, f_size = 10, f_lines = [0, 4, 7]\<rparr>],
          s_last = Some 0\<rparr> \<and>
   File_LineStart \<lparr>f_name = ''a'', f_base = 1, f_size = 10, f_lines = [0, 4, 7]\<rparr> 3 = Inr 8 \<and>
   File_Line \<lparr>f_name = ''a'', f_base = 1, f_size = 10, f_lines = [0, 4, 7]\<rparr> 8 = 3 \<and>
   Column (File_Position \<lparr>f_name = ''a'', f_base = 1, f_size = 10, f_lines = [0, 4, 7]\<rparr> 8) = 1"
proof -
  let ?F = "\<lparr>f_name = ''a'', f_base = 1, f_size = 10, f_lines = [0, 4, 7]\<rparr>"
  let ?s = "\<lparr>s_base = 12, s_files = [?F], s_last = Some 0\<rparr>"
  have run: "fs_run NewFileSet [OpAddFile ''a'' (- 1) 10, OpAddLine 0 4, OpAddLine 0 2, OpAddLine 0 7] = Inr ?s"
    by code_simp
  have st: "File_LineStart ?F 3 = Inr 8" by (simp add: File_LineStart_def)
  have "\<exists>p. File_LineStart (s_files ?s ! 0) 3 = Inr p \<and> File_Line (s_files ?s ! 0) p = 3 \<and>
     Column (File_Position (s_files ?s ! 0) p) = 1"
    by (rule File_Line_of_LineStart[OF run]) (simp_all add: File_LineCount_def)
  then have "File_Line ?F 8 = 3 \<and> Column (File_Position ?F 8) = 1"
    using st by auto
  then show ?thesis using run st by simp
qed

section \<open>The keyword table\<close>

lemma keyword_range_enum: "set [60..(81::int)] = {60,61,62,63,64,65,66,67,68,69,70,71,72,73,74,75,76,77,78,79,80,81}"
  by (simp add: upto_rec_numeral del: set_upto)

lemma keyword_enum:
  assumes "(59::int) < tok" "tok < 82"
  shows "tok \<in> {60,61,62,63,64,65,66,67,68,69,70,71,72,73,74,75,76,77,78,79,80,81}"
proof -
  have "tok \<in> {60..81}" using assms by simp
  then have "tok \<in> set [60..81]" by (simp only: set_upto)
  then show ?thesis by (simp only: keyword_range_enum)
qed

text \<open>The table that \<^verbatim>\<open>init\<close> builds: the keywords from \<^verbatim>\<open>bool\<close> to \<^verbatim>\<open>var\<close>.\<close>

lemma keywords_map_eq:
  "keywords_map = [''bool'' \<mapsto> token_Bool, ''break'' \<mapsto> token_Break, ''case'' \<mapsto> token_Case,
     ''const'' \<mapsto> token_Const, ''continue'' \<mapsto> token_Continue, ''defer'' \<mapsto> token_Defer,
     ''else'' \<mapsto> token_Else, ''fallthrough'' \<mapsto> token_Fallthrough, ''false'' \<mapsto> token_False,
     ''for'' \<mapsto> token_For, ''func'' \<mapsto> token_Func, ''goto'' \<mapsto> token_Goto, ''if'' \<mapsto> token_If,
     ''import'' \<mapsto> token_Import, ''nil'' \<mapsto> token_Nil, ''package'' \<mapsto> token_Package,
     ''return'' \<mapsto> token_Return, ''struct'' \<mapsto> token_Struct, ''switch'' \<mapsto> token_Switch,
     ''true'' \<mapsto> token_True, ''typedef'' \<mapsto> token_Typedef, ''var'' \<mapsto> token_Var]"
  by (simp add: keywords_map_def tokens_at_def tokens_def upto_rec_numeral)

lemma Token_String_keywords:
  "Token_String 60 = ''bool''" "Token_String 61 = ''break''" "Token_String 62 = ''case''"
  "Token_String 63 = ''const''" "Token_String 64 = ''continue''" "Token_String 65 = ''defer''"
  "Token_String 66 = ''else''" "Token_String 67 = ''fallthrough''" "Token_String 68 = ''false''"
  "Token_String 69 = ''for''" "Token_String 70 = ''func''" "Token_String 71 = ''goto''"
  "Token_String 72 = ''if''" "Token_String 73 = ''import''" "Token_String 74 = ''nil''"
  "Token_String 75 = ''package''" "Token_String 76 = ''return''" "Token_String 77 = ''struct''"
  "Token_String 78 = ''switch''" "Token_String 79 = ''true''" "Token_String 80 = ''typedef''"
  "Token_String 81 = ''var''" "Token_String 59 = ''any''" "Token_String 82 = ''void''"
  by (simp_all add: Token_String_def tokens_len_def tokens_at_def tokens_def)

text \<open>Every keyword strictly between \<^verbatim>\<open>any\<close> and \<^verbatim>\<open>void\<close> is found under its text.\<close>

lemma Lookup_inner_keywords:
  assumes "token_Any < tok" "tok < token_Void"
  shows "token_Lookup (Token_String tok) = tok"
  using keyword_enum[OF assms]
  by (elim insertE emptyE; simp add: Token_String_keywords token_Lookup_def keywords_map_eq)

text \<open>
  C1. The claim is that \<^verbatim>\<open>Lookup\<close> maps the text of every token of the keyword band to
  that token. The loop of \<^verbatim>\<open>init\<close> runs from \<^verbatim>\<open>Any + 1\<close> to \<^verbatim>\<open>Void - 1\<close>, so the first
  and the last keyword are not in the table: both are tokens of the keyword band, and
  \<^verbatim>\<open>Lookup\<close> answers \<^verbatim>\<open>Ident\<close> for the text of each.
\<close>

theorem Lookup_any_void_is_Ident:
  "Token_IsKeyword token_Any \<and> token_Lookup (Token_String token_Any) = token_Ident \<and>
   Token_IsKeyword token_Void \<and> token_Lookup (Token_String token_Void) = token_Ident"
  by (simp add: Token_IsKeyword_def Token_String_keywords token_Lookup_def keywords_map_eq)

lemma token_Lookup_range:
  "token_Lookup s = token_Ident \<or> (token_Any < token_Lookup s \<and> token_Lookup s < token_Void)"
  by (simp add: token_Lookup_def keywords_map_eq)

lemma token_Lookup_plain:
  "token_Lookup s \<noteq> token_EOF" "token_Lookup s \<noteq> token_Comment" "token_Lookup s \<noteq> token_Illegal"
  "(token_Lookup s = token_Ident \<or> token_Lookup s = token_Break \<or> token_Lookup s = token_Continue \<or>
    token_Lookup s = token_Fallthrough \<or> token_Lookup s = token_Return) = flag_token (token_Lookup s)"
  using token_Lookup_range[of s] by (auto simp: flag_token_def)

section \<open>The error list\<close>

text \<open>
  C6, as claimed: the suffix is appended exactly when the number of remaining errors is
  at least 2. A list of two errors has one remaining error, and its text carries the
  suffix: it is not the text of the first entry alone.
\<close>

theorem ErrorList_Error_two_entries:
  "int (length [\<lparr>e_Pos = \<lparr>Filename = ''f.st'', Offset = 3, Line = 1, Column = 4\<rparr>, e_Msg = ''boom''\<rparr>,
                \<lparr>e_Pos = \<lparr>Filename = ''f.st'', Offset = 9, Line = 2, Column = 1\<rparr>, e_Msg = ''bam''\<rparr>]) - 1 = 1 \<and>
   ErrorList_Error [\<lparr>e_Pos = \<lparr>Filename = ''f.st'', Offset = 3, Line = 1, Column = 4\<rparr>, e_Msg = ''boom''\<rparr>,
                    \<lparr>e_Pos = \<lparr>Filename = ''f.st'', Offset = 9, Line = 2, Column = 1\<rparr>, e_Msg = ''bam''\<rparr>]
     = ''f.st:1:4: boom (and 1 more errors)'' \<and>
   ErrorList_Error [\<lparr>e_Pos = \<lparr>Filename = ''f.st'', Offset = 3, Line = 1, Column = 4\<rparr>, e_Msg = ''boom''\<rparr>,
                    \<lparr>e_Pos = \<lparr>Filename = ''f.st'', Offset = 9, Line = 2, Column = 1\<rparr>, e_Msg = ''bam''\<rparr>]
     \<noteq> Error_Error \<lparr>e_Pos = \<lparr>Filename = ''f.st'', Offset = 3, Line = 1, Column = 4\<rparr>, e_Msg = ''boom''\<rparr>"
  by (simp add: ErrorList_Error_def Error_Error_def Position_String_def Position_IsValid_def
      strconv_Itoa_def decimal.simps)

text \<open>
  C6, amended. \<^verbatim>\<open>Error()\<close> of the empty list is \<^verbatim>\<open>"no errors"\<close>; of a list with one
  entry it is that entry's text (its position, then the message); of a longer list it is
  the first entry's text followed by \<^verbatim>\<open>" (and N more errors)"\<close>, where \<open>N \<ge> 1\<close> is the
  number of entries after the first. \<^verbatim>\<open>Err()\<close> of the empty list is \<^verbatim>\<open>nil\<close>.
\<close>

theorem ErrorList_Error_suffix:
  "ErrorList_Error p =
     (if p = [] then ''no errors''
      else if 1 \<le> int (length p) - 1
           then Error_Error (hd p) @ '' (and '' @ strconv_Itoa (int (length p) - 1) @ '' more errors)''
           else Error_Error (hd p)) \<and>
   ErrorList_Err [] = None"
proof (cases p)
  case Nil
  then show ?thesis by (simp add: ErrorList_Error_def ErrorList_Err_def)
next
  case (Cons e es)
  then show ?thesis by (cases es) (simp_all add: ErrorList_Error_def ErrorList_Err_def)
qed

theorem ErrorList_Error_suffix_witness:
  "ErrorList_Error [\<lparr>e_Pos = \<lparr>Filename = [], Offset = 3, Line = 1, Column = 4\<rparr>, e_Msg = ''boom''\<rparr>,
                    \<lparr>e_Pos = \<lparr>Filename = [], Offset = 9, Line = 2, Column = 1\<rparr>, e_Msg = ''bam''\<rparr>,
                    \<lparr>e_Pos = Position_zero, e_Msg = ''bim''\<rparr>]
     = ''1:4: boom (and 2 more errors)'' \<and>
   ErrorList_Error [\<lparr>e_Pos = Position_zero, e_Msg = ''bim''\<rparr>] = ''bim'' \<and>
   ErrorList_Err [] = None"
  using ErrorList_Error_suffix[of "[\<lparr>e_Pos = \<lparr>Filename = [], Offset = 3, Line = 1, Column = 4\<rparr>, e_Msg = ''boom''\<rparr>,
                    \<lparr>e_Pos = \<lparr>Filename = [], Offset = 9, Line = 2, Column = 1\<rparr>, e_Msg = ''bam''\<rparr>,
                    \<lparr>e_Pos = Position_zero, e_Msg = ''bim''\<rparr>]"]
    ErrorList_Error_suffix[of "[\<lparr>e_Pos = Position_zero, e_Msg = ''bim''\<rparr>]"]
  by (simp add: Error_Error_def Position_String_def Position_IsValid_def Position_zero_def
      strconv_Itoa_def decimal.simps)

section \<open>The lexer: reading on\<close>

lemma lexer_adv_refl [simp]: "lexer_adv l l"
  by (simp add: lexer_adv_def lexer_frame_def)

lemma lexer_adv_trans: "lexer_adv a b \<Longrightarrow> lexer_adv b c \<Longrightarrow> lexer_adv a c"
  by (auto simp: lexer_adv_def lexer_frame_def intro: prefix_order.trans)

lemma utf8_DecodeRune_multibyte:
  assumes "128 \<le> (of_char (p ! 0) :: int)" "p \<noteq> []"
  shows "128 \<le> fst (utf8_DecodeRune p)"
proof -
  define p0 where "p0 = (of_char (p ! 0) :: int)"
  define b1 where "b1 = (of_char (p ! 1) :: int)"
  define b2 where "b2 = (of_char (p ! 2) :: int)"
  define b3 where "b3 = (of_char (p ! 3) :: int)"
  have nn: "0 \<le> b1 mod 64" "0 \<le> b2 mod 64" "0 \<le> b3 mod 64" by simp_all
  have two: "128 \<le> (p0 mod 32) * 64 + b1 mod 64" if "194 \<le> p0" "p0 < 224"
  proof -
    have "2 \<le> p0 mod 32" using that by presburger
    then show ?thesis using nn(1) by linarith
  qed
  have three: "128 \<le> (p0 mod 16) * 4096 + (b1 mod 64) * 64 + b2 mod 64"
    if "224 \<le> p0" "p0 < 240" "p0 = 224 \<longrightarrow> 160 \<le> b1 \<and> b1 \<le> 191"
  proof (cases "p0 = 224")
    case True
    then have "32 \<le> b1 mod 64" using that(3) by presburger
    moreover have "0 \<le> p0 mod 16" by simp
    ultimately show ?thesis using nn(2) by (smt (verit) mult_nonneg_nonneg)
  next
    case False
    then have "1 \<le> p0 mod 16" using that(1,2) by presburger
    then show ?thesis using nn(1,2) by (smt (verit) mult_nonneg_nonneg)
  qed
  have four: "128 \<le> (p0 mod 8) * 262144 + (b1 mod 64) * 4096 + (b2 mod 64) * 64 + b3 mod 64"
    if "240 \<le> p0" "p0 \<le> 244" "p0 = 240 \<longrightarrow> 144 \<le> b1 \<and> b1 \<le> 191"
  proof (cases "p0 = 240")
    case True
    then have "16 \<le> b1 mod 64" using that(3) by presburger
    moreover have "0 \<le> p0 mod 8" by simp
    ultimately show ?thesis using nn(2,3) by (smt (verit) mult_nonneg_nonneg)
  next
    case False
    then have "1 \<le> p0 mod 8" using that(1,2) by presburger
    then show ?thesis using nn by (smt (verit) mult_nonneg_nonneg)
  qed
  show ?thesis
    using assms two three four
    unfolding utf8_DecodeRune_def Let_def p0_def[symmetric] b1_def[symmetric] b2_def[symmetric] b3_def[symmetric]
    by (auto split: if_splits)
qed

lemma Lexer_next_ascii:
  assumes "l_readOffset l < length (l_src l)" "l_ch (Lexer_next l) < 128"
  shows "l_readOffset (Lexer_next l) = l_readOffset l + 1"
    "of_char (l_src l ! l_readOffset l) = l_ch (Lexer_next l)"
proof -
  let ?p = "drop (l_readOffset l) (l_src l)"
  have ne: "?p \<noteq> []" using assms(1) by simp
  have p0: "?p ! 0 = l_src l ! l_readOffset l" using assms(1) by simp
  have big: "128 \<le> fst (utf8_DecodeRune ?p)" if "128 \<le> (of_char (l_src l ! l_readOffset l) :: int)"
    using utf8_DecodeRune_multibyte[OF _ ne] that p0 by simp
  have small: "(of_char (l_src l ! l_readOffset l) :: int) < 128"
  proof (rule ccontr)
    assume "\<not> (of_char (l_src l ! l_readOffset l) :: int) < 128"
    then have ge: "128 \<le> (of_char (l_src l ! l_readOffset l) :: int)" by simp
    then have "l_ch (Lexer_next l) = fst (utf8_DecodeRune ?p)"
      using assms(1) by (simp add: Lexer_next_def Let_def split: prod.splits)
    then show False using big[OF ge] assms(2) by simp
  qed
  show "l_readOffset (Lexer_next l) = l_readOffset l + 1"
    using assms(1) small by (simp add: Lexer_next_def Let_def)
  show "of_char (l_src l ! l_readOffset l) = l_ch (Lexer_next l)"
    using assms(1) small by (simp add: Lexer_next_def Let_def)
qed

lemma Lexer_next_ok:
  assumes "lexer_ok l"
  shows "lexer_ok (Lexer_next l)" "l_offset l \<le> l_offset (Lexer_next l)"
proof -
  show "lexer_ok (Lexer_next l)"
  proof (cases "l_readOffset l < length (l_src l)")
    case True
    note i = Lexer_next_inside[OF True] and a = Lexer_next_ascii[OF True]
    show ?thesis unfolding lexer_ok_def Lexer_next_frame using i a True by auto
  next
    case False
    then have e: "length (l_src l) \<le> l_readOffset l" by simp
    show ?thesis unfolding lexer_ok_def Lexer_next_frame using Lexer_next_at_end[OF e] e by simp
  qed
  show "l_offset l \<le> l_offset (Lexer_next l)"
  proof (cases "l_readOffset l < length (l_src l)")
    case True
    have "l_offset l \<le> l_readOffset l" using assms True unfolding lexer_ok_def by linarith
    then show ?thesis using Lexer_next_inside(2)[OF True] by simp
  next
    case False
    then have e: "length (l_src l) \<le> l_readOffset l" by simp
    show ?thesis using Lexer_next_at_end(2)[OF e] assms by (simp add: lexer_ok_def)
  qed
qed

lemma Lexer_error_errors: "prefix (l_errors l) (l_errors (Lexer_error l offs msg))"
  by (simp add: Lexer_error_def ErrorList_Add_def)

lemma Lexer_next_errors: "prefix (l_errors l) (l_errors (Lexer_next l))"
  by (simp add: Lexer_next_def Let_def Lexer_error_def ErrorList_Add_def split: prod.splits)

lemma Lexer_next_adv: "lexer_adv l (Lexer_next l)"
  unfolding lexer_adv_def lexer_frame_def
  using Lexer_next_ok[of l] Lexer_next_fuel_le[of l] Lexer_next_errors[of l] by simp

lemma Lexer_error_adv: "lexer_adv l (Lexer_error l offs msg)"
  unfolding lexer_adv_def lexer_frame_def using Lexer_error_errors[of l offs msg] by (simp add: lexer_ok_def)

lemma Lexer_errorf_adv: "lexer_adv l (Lexer_errorf l offs msg)"
  unfolding Lexer_errorf_def by (rule Lexer_error_adv)

lemma Lexer_next_offset_ascii:
  assumes "lexer_ok l" "0 \<le> l_ch l" "l_ch l < 128"
  shows "l_offset (Lexer_next l) = l_offset l + 1"
proof (cases "l_readOffset l < length (l_src l)")
  case True
  then show ?thesis using Lexer_next_inside(2)[OF True] assms by (simp add: lexer_ok_def)
next
  case False
  then have e: "length (l_src l) \<le> l_readOffset l" by simp
  have "l_readOffset l = l_offset l + 1" "l_offset l < length (l_src l)"
    using assms by (simp_all add: lexer_ok_def)
  then show ?thesis using Lexer_next_at_end(2)[OF e] e by simp
qed

lemma skipWhitespace_adv: "lexer_adv l (skipWhitespace_loop l)"
proof (induction l rule: skipWhitespace_loop.induct)
  case (1 l)
  show ?case
  proof (cases "l_ch l = rune CHR '' '' \<or> l_ch l = rune CHR 0x09 \<or>
         l_ch l = rune CHR 0x0A \<and> \<not> l_insertSemi l \<or> l_ch l = rune CHR 0x0D")
    case True
    then have "skipWhitespace_loop l = skipWhitespace_loop (Lexer_next l)"
      by (subst skipWhitespace_loop.simps) simp
    then show ?thesis using lexer_adv_trans[OF Lexer_next_adv "1.IH"[OF True]] by simp
  next
    case False
    then have "skipWhitespace_loop l = l" by (subst skipWhitespace_loop.simps) auto
    then show ?thesis by simp
  qed
qed

lemma scanIdent_loop_adv: "lexer_adv l (scanIdent_loop l)"
proof (induction l rule: scanIdent_loop.induct)
  case (1 l)
  show ?case
  proof (cases "isLetter (l_ch l) \<or> isDecimal (l_ch l)")
    case True
    then have "scanIdent_loop l = scanIdent_loop (Lexer_next l)"
      by (subst scanIdent_loop.simps) simp
    then show ?thesis using lexer_adv_trans[OF Lexer_next_adv "1.IH"[OF True]] by simp
  next
    case False
    then have "scanIdent_loop l = l" by (subst scanIdent_loop.simps) simp
    then show ?thesis by simp
  qed
qed

lemma switch2_adv: "lexer_adv l (fst (Lexer_switch2 l tok0 tok1))"
  by (simp add: Lexer_switch2_def Lexer_next_adv)

lemma switch3_adv: "lexer_adv l (fst (Lexer_switch3 l tok0 tok1 ch2 tok2))"
  by (simp add: Lexer_switch3_def Lexer_next_adv)

lemma switch4_adv: "lexer_adv l (fst (Lexer_switch4 l tok0 tok1 ch2 tok2 tok3))"
  using lexer_adv_trans[OF Lexer_next_adv Lexer_next_adv]
  by (simp add: Lexer_switch4_def Lexer_next_adv Let_def)

lemma scanDigits_loop1_adv: "lexer_adv l (fst (scanDigits_loop1 m l d i))"
proof (induction m l d i rule: scanDigits_loop1.induct)
  case (1 m l d i)
  show ?case
  proof (cases "isHex (l_ch l) \<or> l_ch l = rune CHR ''_''")
    case True
    show ?thesis
      apply (subst scanDigits_loop1.simps)
      using True lexer_adv_trans[OF Lexer_next_adv "1.IH"[OF True refl refl]]
      by (simp add: Let_def)
  next
    case False
    then show ?thesis by (subst scanDigits_loop1.simps) simp
  qed
qed

lemma scanDigits_loop2_adv: "lexer_adv l (fst (scanDigits_loop2 l d))"
proof (induction l d rule: scanDigits_loop2.induct)
  case (1 l d)
  show ?case
  proof (cases "isHex (l_ch l) \<or> l_ch l = rune CHR ''_''")
    case True
    show ?thesis
      apply (subst scanDigits_loop2.simps)
      using True lexer_adv_trans[OF Lexer_next_adv "1.IH"[OF True refl]]
      by (simp add: Let_def)
  next
    case False
    then show ?thesis by (subst scanDigits_loop2.simps) simp
  qed
qed

lemma scanDigits_adv: "lexer_adv l (fst (Lexer_scanDigits l base invalid))"
  using scanDigits_loop1_adv scanDigits_loop2_adv
  by (simp add: Lexer_scanDigits_def split: prod.splits) (metis fst_conv)

lemma Lexer_next_offset_less:
  assumes "lexer_ok l" "0 \<le> l_ch l"
  shows "l_offset l < l_offset (Lexer_next l)"
proof (cases "l_readOffset l < length (l_src l)")
  case True
  then show ?thesis using Lexer_next_inside(2)[OF True] assms by (simp add: lexer_ok_def)
next
  case False
  then have e: "length (l_src l) \<le> l_readOffset l" by simp
  then show ?thesis using Lexer_next_at_end(2)[OF e] assms by (simp add: lexer_ok_def)
qed

lemma scanEscape_digits_adv: "lexer_adv l (fst (scanEscape_digits n base l x))"
proof (induction n arbitrary: l x)
  case 0
  then show ?case by simp
next
  case (Suc n)
  show ?case
  proof (cases "digitVal (l_ch l) \<ge> base")
    case True
    then show ?thesis by (simp add: Let_def Lexer_error_adv)
  next
    case False
    then show ?thesis
      using lexer_adv_trans[OF Lexer_next_adv Suc.IH[of "Lexer_next l" "x * base + digitVal (l_ch l)"]]
      by (simp add: Let_def)
  qed
qed

lemma scanEscape_number_adv: "lexer_adv l (fst (scanEscape_number l offs n base maxValue))"
proof (cases "scanEscape_digits n base l 0")
  case (Pair l' r)
  then have a: "lexer_adv l l'" using scanEscape_digits_adv[of l n base 0] by simp
  show ?thesis
    using Pair a lexer_adv_trans[OF a Lexer_error_adv]
    by (cases r) (simp_all add: scanEscape_number_def)
qed

lemma Lexer_scanEscape_adv: "lexer_adv l (fst (Lexer_scanEscape l quote))"
proof -
  have n: "lexer_adv l (fst (scanEscape_number (Lexer_next l) offs n base maxValue))"
    for offs n base maxValue
    by (rule lexer_adv_trans[OF Lexer_next_adv scanEscape_number_adv])
  show ?thesis
    unfolding Lexer_scanEscape_def Let_def
    using n scanEscape_number_adv[of l] Lexer_next_adv[of l] Lexer_error_adv[of l]
    by (simp split: if_splits)
qed

lemma scanString_loop_adv: "lexer_adv l (scanString_loop l offs)"
proof (induction l offs rule: scanString_loop.induct)
  case (1 l offs)
  let ?n = "Lexer_next l"
  show ?case
  proof (cases "l_ch l = rune CHR 0x0A \<or> l_ch l < 0")
    case True
    then show ?thesis by (subst scanString_loop.simps) (auto simp: Let_def Lexer_error_adv)
  next
    case False
    note nt = False
    show ?thesis
    proof (cases "l_ch l = rune CHR 0x22")
      case True
      then show ?thesis using nt by (subst scanString_loop.simps) (simp add: Let_def Lexer_next_adv)
    next
      case nq: False
      show ?thesis
      proof (cases "l_ch l = rune CHR 0x5C")
        case True
        have "lexer_adv l (scanString_loop (fst (Lexer_scanEscape ?n (rune CHR 0x22))) offs)"
          using lexer_adv_trans[OF Lexer_next_adv
              lexer_adv_trans[OF Lexer_scanEscape_adv "1.IH"(1)[OF refl nt refl nq True]]] .
        then show ?thesis using nt nq True by (subst scanString_loop.simps) (simp add: Let_def)
      next
        case False
        have "lexer_adv l (scanString_loop ?n offs)"
          using lexer_adv_trans[OF Lexer_next_adv "1.IH"(2)[OF refl nt refl nq False]] .
        then show ?thesis using nt nq False by (subst scanString_loop.simps) (simp add: Let_def)
      qed
    qed
  qed
qed

lemma scanRune_loop_adv: "lexer_adv l (fst (scanRune_loop l offs valid n))"
proof (induction l offs valid n rule: scanRune_loop.induct)
  case (1 l offs valid n)
  let ?n = "Lexer_next l"
  show ?case
  proof (cases "l_ch l = rune CHR 0x0A \<or> l_ch l < 0")
    case True
    then show ?thesis by (subst scanRune_loop.simps) (auto simp: Let_def Lexer_error_adv)
  next
    case False
    note nt = False
    show ?thesis
    proof (cases "l_ch l = rune CHR 0x27")
      case True
      then show ?thesis using nt by (subst scanRune_loop.simps) (simp add: Let_def Lexer_next_adv)
    next
      case nq: False
      show ?thesis
      proof (cases "l_ch l = rune CHR 0x5C")
        case True
        obtain l' ok where e: "Lexer_scanEscape ?n (rune CHR 0x27) = (l', ok)" by (cases "Lexer_scanEscape ?n (rune CHR 0x27)")
        have a: "lexer_adv ?n l'" using Lexer_scanEscape_adv[of ?n "rune CHR 0x27"] e by simp
        have "lexer_adv l (fst (scanRune_loop l' offs (if \<not> ok then False else valid) (n + 1)))"
          using lexer_adv_trans[OF Lexer_next_adv
              lexer_adv_trans[OF a "1.IH"(1)[OF refl nt refl nq refl True e[symmetric] refl]]] .
        then show ?thesis using nt nq True e by (subst scanRune_loop.simps) (simp add: Let_def)
      next
        case False
        have "lexer_adv l (fst (scanRune_loop ?n offs valid (n + 1)))"
          using lexer_adv_trans[OF Lexer_next_adv "1.IH"(2)[OF refl nt refl nq refl False]] .
        then show ?thesis using nt nq False by (subst scanRune_loop.simps) (simp add: Let_def)
      qed
    qed
  qed
qed

lemma scanRawString_loop_adv: "lexer_adv l (fst (scanRawString_loop l offs hasCR))"
proof (induction l offs hasCR rule: scanRawString_loop.induct)
  case (1 l offs hasCR)
  show ?case
  proof (cases "l_ch l < 0")
    case True
    then show ?thesis by (subst scanRawString_loop.simps) (simp add: Let_def Lexer_error_adv)
  next
    case False
    note nt = False
    show ?thesis
    proof (cases "l_ch l = rune CHR 0x60")
      case True
      then show ?thesis using nt by (subst scanRawString_loop.simps) (simp add: Let_def Lexer_next_adv)
    next
      case nq: False
      have "lexer_adv l (fst (scanRawString_loop (Lexer_next l) offs (if l_ch l = rune CHR 0x0D then True else hasCR)))"
        using lexer_adv_trans[OF Lexer_next_adv "1.IH"[OF refl nt refl nq]] .
      then show ?thesis using nt nq by (subst scanRawString_loop.simps) (simp add: Let_def)
    qed
  qed
qed

lemma scanComment_line_adv: "lexer_adv l (fst (scanComment_line l numCR))"
proof (induction l numCR rule: scanComment_line.induct)
  case (1 l numCR)
  show ?case
  proof (cases "l_ch l \<noteq> rune CHR 0x0A \<and> l_ch l \<ge> 0")
    case True
    then show ?thesis
      using lexer_adv_trans[OF Lexer_next_adv "1.IH"[OF True]]
      by (subst scanComment_line.simps) simp
  next
    case False
    then show ?thesis by (subst scanComment_line.simps) auto
  qed
qed

lemma scanComment_block_adv: "lexer_adv l (fst (scanComment_block l numCR nlOffset))"
proof (induction l numCR nlOffset rule: scanComment_block.induct)
  case (1 l numCR nlOffset)
  show ?case
  proof (cases "l_ch l \<ge> 0")
    case False
    then show ?thesis by (subst scanComment_block.simps) simp
  next
    case True
    show ?thesis
    proof (cases "l_ch l = rune CHR ''*'' \<and> l_ch (Lexer_next l) = rune CHR ''/''")
      case c: True
      then show ?thesis
        using True lexer_adv_trans[OF Lexer_next_adv Lexer_next_adv]
        by (subst scanComment_block.simps) (simp add: Let_def)
    next
      case c: False
      show ?thesis
        apply (subst scanComment_block.simps)
        using True c lexer_adv_trans[OF Lexer_next_adv "1.IH"[OF True refl refl refl refl c]]
        by (auto simp: Let_def)
    qed
  qed
qed

lemma go_slice_ok:
  assumes "0 \<le> lo" "lo \<le> hi" "hi \<le> int (length b)"
  shows "go_slice b lo hi = Inr (take (nat (hi - lo)) (drop (nat lo) b))"
  using assms by (simp add: go_slice_def)

lemma lexer_adv_D:
  assumes "lexer_adv l l'" "lexer_ok l"
  shows "lexer_ok l'" "l_offset l \<le> l_offset l'" "l_src l' = l_src l" "l_offset l' \<le> length (l_src l)"
proof -
  show ok: "lexer_ok l'" and "l_offset l \<le> l_offset l'" using assms by (simp_all add: lexer_adv_def)
  show src: "l_src l' = l_src l" using assms(1) by (simp add: lexer_adv_def lexer_frame_def)
  have "l_offset l' \<le> length (l_src l')" using ok unfolding lexer_ok_def by blast
  then show "l_offset l' \<le> length (l_src l)" using src by simp
qed

lemma lexer_adv_fuel: "lexer_adv l l' \<Longrightarrow> lexer_fuel l' \<le> lexer_fuel l"
  by (simp add: lexer_adv_def)

lemma lexer_adv_frame:
  assumes "lexer_adv l l'"
  shows "l_src l' = l_src l" "l_errFn l' = l_errFn l" "l_insertSemi l' = l_insertSemi l"
    "l_nlPos l' = l_nlPos l" "l_noNewSemi l' = l_noNewSemi l"
    "f_name (l_file l') = f_name (l_file l)" "f_base (l_file l') = f_base (l_file l)"
    "f_size (l_file l') = f_size (l_file l)" "prefix (l_errors l) (l_errors l')"
  using assms by (simp_all add: lexer_adv_def lexer_frame_def)

text \<open>A slice from a start at or before the offset of an earlier state never panics.\<close>

lemma slice_to_offset:
  assumes "lexer_adv l l'" "lexer_ok l" "0 \<le> offs" "offs \<le> int (l_offset l)"
  shows "go_slice (l_src l') offs (int (l_offset l')) =
     Inr (take (l_offset l' - nat offs) (drop (nat offs) (l_src l)))"
proof -
  note d = lexer_adv_D[OF assms(1,2)]
  have "go_slice (l_src l') offs (int (l_offset l')) =
      Inr (take (nat (int (l_offset l') - offs)) (drop (nat offs) (l_src l')))"
    by (rule go_slice_ok) (use d assms(3,4) in simp_all)
  moreover have "nat (int (l_offset l') - offs) = l_offset l' - nat offs" using assms(3) by linarith
  ultimately show ?thesis using d(3) by simp
qed

lemma scanIdent_result:
  assumes "lexer_ok l" "isLetter (l_ch l)"
  shows "\<exists>l' lit. Lexer_scanIdent l = Inr (l', lit) \<and> lexer_adv l l' \<and> lexer_fuel l' < lexer_fuel l"
proof -
  have ch: "0 \<le> l_ch l" using assms(2) by (auto simp: isLetter_def)
  have eq: "scanIdent_loop l = scanIdent_loop (Lexer_next l)"
    using assms(2) by (subst scanIdent_loop.simps) simp
  have a: "lexer_adv l (scanIdent_loop l)" by (rule scanIdent_loop_adv)
  have "lexer_fuel (scanIdent_loop (Lexer_next l)) \<le> lexer_fuel (Lexer_next l)"
    by (rule lexer_adv_fuel[OF scanIdent_loop_adv])
  then have f: "lexer_fuel (scanIdent_loop l) < lexer_fuel l"
    using Lexer_next_fuel_less[OF ch] eq by simp
  show ?thesis
    unfolding Lexer_scanIdent_def Let_def
    using slice_to_offset[OF a assms(1), of "int (l_offset l)"] a f
    by (simp add: bindP_def)
qed

lemma scanString_result:
  assumes "lexer_ok l" "1 \<le> l_offset l"
  shows "\<exists>l' lit. Lexer_scanString l = Inr (l', lit) \<and> lexer_adv l l'"
proof -
  have a: "lexer_adv l (scanString_loop l (int (l_offset l) - 1))" by (rule scanString_loop_adv)
  show ?thesis
    unfolding Lexer_scanString_def Let_def
    using slice_to_offset[OF a assms(1), of "int (l_offset l) - 1"] a assms(2)
    by (simp add: bindP_def)
qed

lemma scanRune_result:
  assumes "lexer_ok l" "1 \<le> l_offset l"
  shows "\<exists>l' lit. Lexer_scanRune l = Inr (l', lit) \<and> lexer_adv l l'"
proof -
  obtain l1 valid n where r: "scanRune_loop l (int (l_offset l) - 1) True 0 = (l1, valid, n)"
    by (cases "scanRune_loop l (int (l_offset l) - 1) True 0") auto
  have a1: "lexer_adv l l1" using scanRune_loop_adv[of l "int (l_offset l) - 1" True 0] r by simp
  define l2 where "l2 = (if valid \<and> n \<noteq> 1 then Lexer_error l1 (int (l_offset l) - 1) ''illegal rune literal'' else l1)"
  have a: "lexer_adv l l2"
    unfolding l2_def using a1 lexer_adv_trans[OF a1 Lexer_error_adv] by simp
  show ?thesis
    unfolding Lexer_scanRune_def Let_def r
    using slice_to_offset[OF a assms(1), of "int (l_offset l) - 1"] a assms(2)
    by (simp add: bindP_def l2_def[symmetric])
qed

lemma scanRawString_result:
  assumes "lexer_ok l" "1 \<le> l_offset l"
  shows "\<exists>l' lit. Lexer_scanRawString l = Inr (l', lit) \<and> lexer_adv l l'"
proof -
  obtain l1 hasCR where r: "scanRawString_loop l (int (l_offset l) - 1) False = (l1, hasCR)"
    by (cases "scanRawString_loop l (int (l_offset l) - 1) False") auto
  have a: "lexer_adv l l1" using scanRawString_loop_adv[of l "int (l_offset l) - 1" False] r by simp
  show ?thesis
    unfolding Lexer_scanRawString_def Let_def r
    using slice_to_offset[OF a assms(1), of "int (l_offset l) - 1"] a assms(2)
    by (simp add: bindP_def)
qed

lemma scanDigits_loop1_invalid:
  assumes "lexer_ok l"
  shows "snd (snd (scanDigits_loop1 m l d i)) = i \<or>
     (int (l_offset l) \<le> snd (snd (scanDigits_loop1 m l d i)) \<and>
      snd (snd (scanDigits_loop1 m l d i)) < int (l_offset (fst (scanDigits_loop1 m l d i))))"
  using assms
proof (induction m l d i rule: scanDigits_loop1.induct)
  case (1 m l d i)
  show ?case
  proof (cases "isHex (l_ch l) \<or> l_ch l = rune CHR ''_''")
    case False
    then show ?thesis by (subst (1 2 3) scanDigits_loop1.simps) simp
  next
    case True
    define ds :: nat where "ds = (if l_ch l = rune CHR ''_'' then 2 else 1)"
    define i1 where "i1 = (if l_ch l \<noteq> rune CHR ''_'' \<and> l_ch l \<ge> m \<and> i < 0 then int (l_offset l) else i)"
    let ?r = "scanDigits_loop1 m (Lexer_next l) (or d ds) i1"
    have eq: "scanDigits_loop1 m l d i = ?r"
      using True by (subst scanDigits_loop1.simps) (simp add: Let_def ds_def i1_def)
    have ch: "0 \<le> l_ch l" using True by (auto simp: isHex_def)
    have okn: "lexer_ok (Lexer_next l)" using Lexer_next_ok(1)[OF "1.prems"] .
    have lt: "l_offset l < l_offset (Lexer_next l)" using Lexer_next_offset_less[OF "1.prems" ch] .
    have le: "l_offset (Lexer_next l) \<le> l_offset (fst ?r)"
      using lexer_adv_D(2)[OF scanDigits_loop1_adv okn] .
    note IH = "1.IH"[OF True ds_def i1_def okn]
    show ?thesis unfolding eq using IH lt le by (auto simp: i1_def)
  qed
qed

lemma scanDigits_loop1_fuel:
  assumes "isHex (l_ch l)"
  shows "lexer_fuel (fst (scanDigits_loop1 m l d i)) < lexer_fuel l"
proof -
  have ch: "0 \<le> l_ch l" using assms by (auto simp: isHex_def)
  have "\<exists>d' i'. scanDigits_loop1 m l d i = scanDigits_loop1 m (Lexer_next l) d' i'"
    using assms by (subst scanDigits_loop1.simps) (auto simp: Let_def)
  then obtain d' i' where eq: "scanDigits_loop1 m l d i = scanDigits_loop1 m (Lexer_next l) d' i'"
    by blast
  show ?thesis
    unfolding eq
    using lexer_adv_fuel[OF scanDigits_loop1_adv[of "Lexer_next l" m d' i']] Lexer_next_fuel_less[OF ch]
    by simp
qed

lemma scanDigits_loop2_fuel:
  assumes "isHex (l_ch l)"
  shows "lexer_fuel (fst (scanDigits_loop2 l d)) < lexer_fuel l"
proof -
  have ch: "0 \<le> l_ch l" using assms by (auto simp: isHex_def)
  have "\<exists>d'. scanDigits_loop2 l d = scanDigits_loop2 (Lexer_next l) d'"
    using assms by (subst scanDigits_loop2.simps) (auto simp: Let_def)
  then obtain d' where eq: "scanDigits_loop2 l d = scanDigits_loop2 (Lexer_next l) d'"
    by blast
  show ?thesis
    unfolding eq
    using lexer_adv_fuel[OF scanDigits_loop2_adv[of "Lexer_next l" d']] Lexer_next_fuel_less[OF ch]
    by simp
qed

lemma scanDigits_result:
  assumes "Lexer_scanDigits l base i = (l', d, i')"
  shows "lexer_adv l l'"
    and "lexer_ok l \<Longrightarrow> i' = i \<or> (int (l_offset l) \<le> i' \<and> i' < int (l_offset l'))"
    and "isHex (l_ch l) \<Longrightarrow> lexer_fuel l' < lexer_fuel l"
proof -
  show "lexer_adv l l'" using scanDigits_adv[of l base i] assms by simp
  show "i' = i \<or> (int (l_offset l) \<le> i' \<and> i' < int (l_offset l'))" if "lexer_ok l"
  proof (cases "base \<le> 10")
    case True
    then show ?thesis
      using scanDigits_loop1_invalid[OF that, of "rune CHR ''0'' + base" 0 i] assms
      by (simp add: Lexer_scanDigits_def)
  next
    case False
    then show ?thesis using assms by (simp add: Lexer_scanDigits_def split: prod.splits)
  qed
  show "lexer_fuel l' < lexer_fuel l" if "isHex (l_ch l)"
  proof (cases "base \<le> 10")
    case True
    then show ?thesis
      using scanDigits_loop1_fuel[OF that, of "rune CHR ''0'' + base" 0 i] assms
      by (simp add: Lexer_scanDigits_def)
  next
    case False
    then show ?thesis
      using scanDigits_loop2_fuel[OF that, of 0] assms
      by (auto simp: Lexer_scanDigits_def split: prod.splits)
  qed
qed

lemma bindP_simps [simp]: "bindP (Inr x) f = f x" "bindP (Inl e) f = Inl e"
  by (simp_all add: bindP_def)

lemma go_index_ok: "0 \<le> i \<Longrightarrow> i < int (length b) \<Longrightarrow> go_index b i = Inr (b ! nat i)"
  by (simp add: go_index_def)

lemma scanNumber_result:
  assumes ok: "lexer_ok l"
    and start: "isDecimal (l_ch l) \<or> (l_ch l = rune CHR ''.'' \<and> isDecimal (Lexer_peek l))"
  shows "\<exists>l' tok lit. Lexer_scanNumber l = Inr (l', tok, lit) \<and> lexer_adv l l' \<and>
     lexer_fuel l' < lexer_fuel l \<and> (tok = token_Int \<or> tok = token_Float)"
proof -
  define offs where "offs = int (l_offset l)"
  define pre where "pre = (if l_ch l = rune CHR ''0''
             then (if Lexer_peek l = rune CHR ''b'' \<or> Lexer_peek l = rune CHR ''B''
                   then (Lexer_next (Lexer_next l), 2)
                   else if Lexer_peek l = rune CHR ''o'' \<or> Lexer_peek l = rune CHR ''O''
                   then (Lexer_next (Lexer_next l), 8)
                   else if Lexer_peek l = rune CHR ''x'' \<or> Lexer_peek l = rune CHR ''X''
                   then (Lexer_next (Lexer_next l), 16)
                   else (l, 10))
             else (l, 10 :: int))"
  obtain l1 base where pre_eq: "pre = (l1, base)" by (cases pre)
  have ch0: "0 \<le> l_ch l" using start by (auto simp: isDecimal_def)
  have nn: "lexer_adv l (Lexer_next (Lexer_next l))"
    by (rule lexer_adv_trans[OF Lexer_next_adv Lexer_next_adv])
  have nnf: "lexer_fuel (Lexer_next (Lexer_next l)) < lexer_fuel l"
    using Lexer_next_fuel_le[of "Lexer_next l"] Lexer_next_fuel_less[OF ch0] by linarith
  have l1: "l1 = l \<or> l1 = Lexer_next (Lexer_next l)"
    using pre_eq unfolding pre_def by (auto split: if_splits)
  have a1: "lexer_adv l l1" using l1 nn by auto
  have f1: "l1 = l \<or> lexer_fuel l1 < lexer_fuel l" using l1 nnf by auto
  have b10: "l1 = l \<longrightarrow> base = 10" using pre_eq nnf unfolding pre_def by (auto split: if_splits)
  have ok1: "lexer_ok l1" using lexer_adv_D(1)[OF a1 ok] .
  obtain l2 ds inv2 where d: "Lexer_scanDigits l1 base (- 1) = (l2, ds, inv2)"
    by (cases "Lexer_scanDigits l1 base (- 1)") auto
  note r2 = scanDigits_result[OF d]
  have a2: "lexer_adv l l2" using lexer_adv_trans[OF a1 r2(1)] .
  have ok2: "lexer_ok l2" using lexer_adv_D(1)[OF a2 ok] .
  have i2: "inv2 = - 1 \<or> (int (l_offset l1) \<le> inv2 \<and> inv2 < int (l_offset l2))"
    using r2(2)[OF ok1] .
  define l3 where "l3 = (if digSep_IsEmpty ds
               then Lexer_error l2 (int (l_offset l2)) (litname base @ '' has no digits'')
               else l2)"
  have a23: "lexer_adv l2 l3" unfolding l3_def by (simp add: Lexer_error_adv)
  have a3: "lexer_adv l l3" using lexer_adv_trans[OF a2 a23] .
  have o3: "l_offset l3 = l_offset l2" "l_ch l3 = l_ch l2" unfolding l3_def by simp_all
  define frac where "frac = (if l_ch l3 = rune CHR ''.''
             then (let l = Lexer_next l3;
                       l = (if base \<noteq> 10 then Lexer_error l offs ''only decimal floats are possible'' else l);
                       (l, digsepFrac, invalid) = Lexer_scanDigits l 10 inv2
                   in (l, token_Float, digsepFrac, invalid))
             else (l3, token_Int, 0, inv2))"
  obtain l6 tok dsf inv6 where frac_eq: "frac = (l6, tok, dsf, inv6)" by (cases frac) auto
  have a36: "lexer_adv l3 l6"
  proof (cases "l_ch l3 = rune CHR ''.''")
    case False
    then show ?thesis using frac_eq unfolding frac_def by simp
  next
    case True
    define l5 where "l5 = (if base \<noteq> 10 then Lexer_error (Lexer_next l3) offs ''only decimal floats are possible'' else Lexer_next l3)"
    have a5: "lexer_adv l3 l5"
      unfolding l5_def using lexer_adv_trans[OF Lexer_next_adv Lexer_error_adv] Lexer_next_adv by simp
    obtain x y z where e: "Lexer_scanDigits l5 10 inv2 = (x, y, z)" by (cases "Lexer_scanDigits l5 10 inv2") auto
    have "l6 = x" using frac_eq True e unfolding frac_def Let_def l5_def[symmetric] by simp
    then show ?thesis using lexer_adv_trans[OF a5 scanDigits_result(1)[OF e]] by simp
  qed
  have a6: "lexer_adv l l6" using lexer_adv_trans[OF a3 a36] .
  have tok: "tok = token_Int \<or> tok = token_Float"
    using frac_eq unfolding frac_def Let_def by (auto split: if_splits prod.splits)
  have int_case: "tok = token_Int \<longrightarrow> l6 = l3 \<and> inv6 = inv2"
    using frac_eq unfolding frac_def Let_def by (auto split: if_splits prod.splits)
  have fuel23: "lexer_fuel l3 = lexer_fuel l2" unfolding l3_def by simp
  have f6: "lexer_fuel l6 < lexer_fuel l"
  proof (cases "l1 = l")
    case False
    then have "lexer_fuel l1 < lexer_fuel l" using f1 by simp
    then show ?thesis
      using lexer_adv_fuel[OF r2(1)] lexer_adv_fuel[OF a23] lexer_adv_fuel[OF a36] by linarith
  next
    case True
    show ?thesis
    proof (cases "isDecimal (l_ch l)")
      case dec: True
      then have "isHex (l_ch l1)" using True by (simp add: isHex_def isDecimal_def)
      then have "lexer_fuel l2 < lexer_fuel l1" using r2(3) by simp
      then have "lexer_fuel l2 < lexer_fuel l" using True by simp
      then show ?thesis
        using lexer_adv_fuel[OF a23] lexer_adv_fuel[OF a36] by linarith
    next
      case False
      then have dot: "l_ch l = rune CHR ''.''" using start by simp
      have "\<not> (isHex (l_ch l) \<or> l_ch l = rune CHR ''_'')" using dot by (simp add: isHex_def)
      then have "scanDigits_loop1 (rune CHR ''0'' + 10) l 0 (- 1) = (l, 0, - 1)"
        by (subst scanDigits_loop1.simps) simp
      then have "l2 = l" using d True b10 by (simp add: Lexer_scanDigits_def)
      then have c3: "l_ch l3 = rune CHR ''.''" using o3 dot by simp
      obtain x y z where e: "Lexer_scanDigits (Lexer_next l3) 10 inv2 = (x, y, z)"
        by (cases "Lexer_scanDigits (Lexer_next l3) 10 inv2") auto
      have "base = 10" using True b10 by simp
      then have "l6 = x" using frac_eq c3 e unfolding frac_def Let_def by simp
      then have "lexer_fuel l6 \<le> lexer_fuel (Lexer_next l3)"
        using lexer_adv_fuel[OF scanDigits_result(1)[OF e]] by simp
      moreover have "lexer_fuel (Lexer_next l3) < lexer_fuel l3"
        by (rule Lexer_next_fuel_less) (simp add: c3)
      ultimately show ?thesis using fuel23 \<open>l2 = l\<close> by simp
    qed
  qed
  define lit where "lit = take (l_offset l6 - nat offs) (drop (nat offs) (l_src l))"
  have sl: "go_slice (l_src l6) offs (int (l_offset l6)) = Inr lit"
    unfolding lit_def by (rule slice_to_offset[OF a6 ok]) (simp_all add: offs_def)
  have len: "length lit = l_offset l6 - l_offset l"
    using lexer_adv_D(4)[OF a6 ok] by (simp add: lit_def offs_def)
  define l7 where "l7 = (if tok = token_Int \<and> inv6 \<ge> 0
       then Lexer_errorf l6 inv6 (''invalid digit '' @ fmt_q [lit ! nat (inv6 - offs)] @ '' in '' @ litname base)
       else l6)"
  have idx: "(if tok = token_Int \<and> inv6 \<ge> 0
                then bindP (go_index lit (inv6 - offs)) (\<lambda>c.
                       Inr (Lexer_errorf l6 inv6 (''invalid digit '' @ fmt_q [c] @ '' in '' @ litname base)))
                else Inr l6) = Inr l7"
  proof (cases "tok = token_Int \<and> inv6 \<ge> 0")
    case False
    then have "\<not> (tok = token_Int \<and> inv6 \<ge> 0)" by simp
    then show ?thesis unfolding l7_def by (simp only: if_False)
  next
    case True
    then have e: "l6 = l3" "inv6 = inv2" using int_case by simp_all
    have "int (l_offset l1) \<le> inv2 \<and> inv2 < int (l_offset l2)" using i2 True e by auto
    moreover have "l_offset l \<le> l_offset l1" using lexer_adv_D(2)[OF a1 ok] .
    ultimately have "0 \<le> inv6 - offs \<and> inv6 - offs < int (length lit)"
      using e o3 len by (simp add: offs_def)
    then have "go_index lit (inv6 - offs) = Inr (lit ! nat (inv6 - offs))" by (simp add: go_index_ok)
    then show ?thesis using True by (simp add: l7_def)
  qed
  have a67: "lexer_adv l6 l7" unfolding l7_def by (simp add: Lexer_errorf_adv)
  define l8 where "l8 = (if digSep_HasSep ds \<or> digSep_HasSep dsf
                   then (let i = invalidSep lit
                         in if i \<ge> 0
                            then Lexer_error l7 (offs + i) ([CHR 0x27] @ ''_'' @ [CHR 0x27] @ '' must separate successive digits'')
                            else l7)
                   else l7)"
  have a78: "lexer_adv l7 l8" unfolding l8_def by (simp add: Lexer_error_adv Let_def)
  define l9 where "l9 = (if tok = token_Float \<and> digSep_IsEmpty dsf
                   then Lexer_error l8 offs ''no fraction part for the float''
                   else l8)"
  have a89: "lexer_adv l8 l9" unfolding l9_def by (simp add: Lexer_error_adv)
  have a9: "lexer_adv l l9"
    using lexer_adv_trans[OF a6 lexer_adv_trans[OF a67 lexer_adv_trans[OF a78 a89]]] .
  have f9: "lexer_fuel l9 < lexer_fuel l"
    using f6 lexer_adv_fuel[OF a67] lexer_adv_fuel[OF a78] lexer_adv_fuel[OF a89] by linarith
  have "Lexer_scanNumber l = Inr (l9, tok, lit)"
    by (simp only: Lexer_scanNumber_def Let_def offs_def[symmetric] pre_def[symmetric] pre_eq prod.case d
      l3_def[symmetric] frac_def[symmetric, unfolded Let_def] frac_eq sl bindP_simps idx
      l8_def[symmetric, unfolded Let_def] l9_def[symmetric])
  then show ?thesis using a9 f9 tok by blast
qed

lemma stripCR_loop_prefix: "\<exists>t. stripCR_loop comment c b = c @ t"
proof (induction b arbitrary: c)
  case Nil
  then show ?case by simp
next
  case (Cons ch b)
  obtain t1 where t1: "stripCR_loop comment (c @ [ch]) b = (c @ [ch]) @ t1" using Cons[of "c @ [ch]"] by blast
  obtain t2 where t2: "stripCR_loop comment c b = c @ t2" using Cons[of c] by blast
  show ?case using t1 t2 by (cases "stripCR_loop comment c (ch # b) = stripCR_loop comment (c @ [ch]) b") auto
qed

lemma stripCR_head2:
  assumes "2 \<le> length b" "b ! 0 \<noteq> CHR 0x0D" "b ! 1 \<noteq> CHR 0x0D"
  shows "2 \<le> length (stripCR b comment) \<and> stripCR b comment ! 0 = b ! 0 \<and> stripCR b comment ! 1 = b ! 1"
proof -
  obtain x y rest where b: "b = x # y # rest"
    using assms(1) by (cases b; cases "tl b") auto
  have "stripCR b comment = stripCR_loop comment [x, y] rest"
    using assms(2,3) by (simp add: stripCR_def b)
  moreover obtain t where "stripCR_loop comment [x, y] rest = [x, y] @ t"
    using stripCR_loop_prefix by blast
  ultimately show ?thesis by (simp add: b)
qed

lemma rune_slash_star:
  "(of_char c :: int) = 47 \<Longrightarrow> c = CHR ''/''"
  "(of_char c :: int) = 42 \<Longrightarrow> c = CHR ''*''"
proof -
  have "(of_char c :: int) = of_char CHR ''/'' \<Longrightarrow> c = CHR ''/''" by (simp only: of_char_eq_iff)
  then show "(of_char c :: int) = 47 \<Longrightarrow> c = CHR ''/''" by simp
  have "(of_char c :: int) = of_char CHR ''*'' \<Longrightarrow> c = CHR ''*''" by (simp only: of_char_eq_iff)
  then show "(of_char c :: int) = 42 \<Longrightarrow> c = CHR ''*''" by simp
qed

lemma scanComment_result:
  assumes ok: "lexer_ok l" and ch: "l_ch l = rune CHR ''/'' \<or> l_ch l = rune CHR ''*''"
    and off: "1 \<le> l_offset l" and slash: "l_src l ! (l_offset l - 1) = CHR ''/''"
  shows "\<exists>l' lit nl. Lexer_scanComment l = Inr (l', lit, nl) \<and> lexer_adv l l' \<and>
     2 \<le> length lit \<and> lit ! 0 = CHR ''/'' \<and> (lit ! 1 = CHR ''/'' \<or> lit ! 1 = CHR ''*'')"
proof -
  define offs where "offs = int (l_offset l) - 1"
  define body where "body = (if l_ch l = rune CHR ''/''
             then (let (l, numCR) = scanComment_line (Lexer_next l) 0 in (l, numCR, 0))
             else (let (l, numCR, nlOffset, closed) = scanComment_block (Lexer_next l) 0 0
                   in (if closed then l else Lexer_error l offs ''comment not terminated'',
                       numCR, nlOffset)))"
  obtain l2 numCR nl where body_eq: "body = (l2, numCR, nl)" by (cases body) auto
  have an2: "lexer_adv (Lexer_next l) l2"
  proof (cases "l_ch l = rune CHR ''/''")
    case True
    then show ?thesis
      using body_eq scanComment_line_adv[of "Lexer_next l" 0]
      unfolding body_def by (auto split: prod.splits)
  next
    case False
    obtain a b c d where e: "scanComment_block (Lexer_next l) 0 0 = (a, b, c, d)"
      by (cases "scanComment_block (Lexer_next l) 0 0") auto
    have aa: "lexer_adv (Lexer_next l) a" using scanComment_block_adv[of "Lexer_next l" 0 0] e by simp
    show ?thesis
      using False body_eq e aa lexer_adv_trans[OF aa Lexer_error_adv]
      unfolding body_def by (auto split: if_splits)
  qed
  have a2: "lexer_adv l l2" using lexer_adv_trans[OF Lexer_next_adv an2] .
  have ascii: "0 \<le> l_ch l" "l_ch l < 128" using ch by auto
  have o1: "l_offset (Lexer_next l) = l_offset l + 1" using Lexer_next_offset_ascii[OF ok ascii] .
  have o2: "l_offset l + 1 \<le> l_offset l2"
    using lexer_adv_D(2)[OF an2 Lexer_next_ok(1)[OF ok]] o1 by simp
  have len2: "l_offset l2 \<le> length (l_src l)" using lexer_adv_D(4)[OF a2 ok] .
  have second: "of_char (l_src l ! l_offset l) = l_ch l" using ok ascii by (simp add: lexer_ok_def)
  have sec: "l_src l ! l_offset l = CHR ''/'' \<or> l_src l ! l_offset l = CHR ''*''"
  proof (cases "l_ch l = rune CHR ''/''")
    case True
    then have "(of_char (l_src l ! l_offset l) :: int) = 47" using second by simp
    then show ?thesis using rune_slash_star(1) by blast
  next
    case False
    then have "(of_char (l_src l ! l_offset l) :: int) = 42" using second ch by simp
    then show ?thesis using rune_slash_star(2) by blast
  qed
  define lit0 where "lit0 = take (l_offset l2 - nat offs) (drop (nat offs) (l_src l))"
  have no: "nat offs = l_offset l - 1" using off by (simp add: offs_def)
  have sl: "go_slice (l_src l2) offs (int (l_offset l2)) = Inr lit0"
    unfolding lit0_def by (rule slice_to_offset[OF a2 ok]) (use off in \<open>simp_all add: offs_def\<close>)
  have len0: "length lit0 = l_offset l2 - (l_offset l - 1)"
    using len2 by (simp add: lit0_def no)
  have l0: "2 \<le> length lit0" using len0 o2 off by linarith
  have c0: "lit0 ! 0 = CHR ''/''"
    using slash l0 len2 off o2 by (simp add: lit0_def no)
  have c1: "lit0 ! 1 = l_src l ! l_offset l"
    using l0 len2 off o2 by (simp add: lit0_def no)
  define trim where "trim = (numCR > 0 \<and> length lit0 \<ge> 2 \<and> lit0 ! 1 = CHR ''/'' \<and>
                      lit0 ! (length lit0 - 1) = CHR 0x0D)"
  define lit1 where "lit1 = (if trim then take (length lit0 - 1) lit0 else lit0)"
  define numCR1 where "numCR1 = (if trim then numCR - 1 else numCR)"
  have l1: "2 \<le> length lit1 \<and> lit1 ! 0 = lit0 ! 0 \<and> lit1 ! 1 = lit0 ! 1"
  proof (cases trim)
    case False
    then show ?thesis using l0 by (simp add: lit1_def)
  next
    case True
    then have "length lit0 - 1 \<noteq> 1" unfolding trim_def by auto
    then have "3 \<le> length lit0" using l0 by linarith
    then show ?thesis using True by (simp add: lit1_def)
  qed
  define lit where "lit = (if numCR1 > 0 then stripCR lit1 (lit1 ! 1 = CHR ''*'') else lit1)"
  have nocr: "lit1 ! 0 \<noteq> CHR 0x0D" "lit1 ! 1 \<noteq> CHR 0x0D" using l1 c0 c1 sec by auto
  have lfin: "2 \<le> length lit \<and> lit ! 0 = lit1 ! 0 \<and> lit ! 1 = lit1 ! 1"
    unfolding lit_def using stripCR_head2[OF _ nocr] l1 by simp
  have idx: "go_index lit1 1 = Inr (lit1 ! 1)" using l1 by (simp add: go_index_def)
  have pr: "(if numCR > 0 \<and> length lit0 \<ge> 2 \<and> lit0 ! 1 = CHR ''/'' \<and>
                      lit0 ! (length lit0 - 1) = CHR 0x0D
                   then (take (length lit0 - 1) lit0, numCR - 1)
                   else (lit0, numCR)) = (lit1, numCR1)"
    unfolding trim_def[symmetric] lit1_def numCR1_def by simp
  have fin: "(if numCR1 > 0
               then bindP (go_index lit1 1) (\<lambda>c. Inr (l2, stripCR lit1 (c = CHR ''*''), nl))
               else Inr (l2, lit1, nl)) = Inr (l2, lit, nl)"
    by (simp add: idx lit_def)
  have "Lexer_scanComment l = Inr (l2, lit, nl)"
    by (simp only: Lexer_scanComment_def Let_def offs_def[symmetric] body_def[symmetric, unfolded Let_def] body_eq
      prod.case sl bindP_simps pr fin)
  then show ?thesis using a2 lfin l1 c0 c1 sec by auto
qed

subsection \<open>One call of Scan\<close>

lemma scan_ctx_adv:
  assumes "scan_ctx l a" "lexer_adv a b"
  shows "scan_ctx l b"
proof -
  have ok: "lexer_ok l" using assms(1) by (simp add: scan_ctx_def lexer_inv_def)
  have la: "lexer_adv l a" using assms(1) by (simp add: scan_ctx_def)
  have oka: "lexer_ok a" using lexer_adv_D(1)[OF la ok] .
  have "l_offset a \<le> l_offset b" using lexer_adv_D(2)[OF assms(2) oka] .
  moreover have "lexer_fuel b \<le> lexer_fuel a" using lexer_adv_fuel[OF assms(2)] .
  ultimately show ?thesis
    using assms(1) lexer_adv_trans[OF la assms(2)] unfolding scan_ctx_def by auto
qed

lemma scan_ctx_ok: "scan_ctx l a \<Longrightarrow> lexer_ok a"
  unfolding scan_ctx_def lexer_inv_def using lexer_adv_D(1) by blast

text \<open>The common end of a branch: a token that is not \<^verbatim>\<open>EOF\<close>, \<^verbatim>\<open>COMMENT\<close> or \<^verbatim>\<open>ILLEGAL\<close>.\<close>

lemma leaf_plain_gen:
  assumes inv: "lexer_inv l" and nl: "l_nlPos l = NoPos" and la: "lexer_adv l a"
    and fuel: "lexer_fuel a < lexer_fuel l"
    and tok: "tok \<noteq> token_EOF" "tok \<noteq> token_Comment" "tok \<noteq> token_Illegal"
    and flag: "flag = flag_token tok"
  shows "scan_ret l pos (Scan_return a flag pos tok lit)"
proof -
  define l' where "l' = (if \<not> l_noNewSemi a then a\<lparr>l_insertSemi := flag\<rparr> else a)"
  note fr = lexer_adv_frame[OF la]
  have oka: "lexer_ok a" using lexer_adv_D(1)[OF la] inv by (simp add: lexer_inv_def)
  have ok': "lexer_ok l'" using oka by (simp add: l'_def lexer_ok_def)
  have f': "lexer_fuel l' = lexer_fuel a" by (simp add: l'_def lexer_fuel_def)
  have nl': "l_nlPos l' = NoPos" using fr(4) nl by (simp add: l'_def)
  have inv': "lexer_inv l'"
    using ok' nl' inv fr(7,8) by (simp add: lexer_inv_def l'_def)
  have m: "scan_measure l' < scan_measure l"
    using fuel f' nl' nl by (simp add: scan_measure_def)
  have fl: "\<not> l_noNewSemi l \<longrightarrow> l_insertSemi l' = flag_token tok"
    using fr(5) flag by (simp add: l'_def)
  have "scan_post l l' tok lit"
    unfolding scan_post_def using inv' m fl tok fr(1,2,5,6,7,8,9) by (simp add: l'_def)
  then show ?thesis unfolding scan_ret_def Scan_return_def l'_def by blast
qed

lemma leaf_plain:
  assumes ctx: "scan_ctx l a"
    and tok: "tok \<noteq> token_EOF" "tok \<noteq> token_Comment" "tok \<noteq> token_Illegal"
    and flag: "flag = flag_token tok"
  shows "scan_ret l pos (Scan_return a flag pos tok lit)"
proof (rule leaf_plain_gen[OF _ _ _ _ tok flag])
  show "lexer_inv l" "l_nlPos l = NoPos" "lexer_adv l a" "lexer_fuel a < lexer_fuel l"
    using ctx by (simp_all add: scan_ctx_def)
qed

lemma leaf_illegal:
  assumes ctx: "scan_ctx l a"
  shows "scan_ret l pos (Scan_return a (l_insertSemi a) pos token_Illegal lit)"
proof -
  define l' where "l' = (if \<not> l_noNewSemi a then a\<lparr>l_insertSemi := l_insertSemi a\<rparr> else a)"
  have e: "l' = a" by (simp add: l'_def)
  have la: "lexer_adv l a" and inv: "lexer_inv l" and nl: "l_nlPos l = NoPos"
    and fuel: "lexer_fuel a < lexer_fuel l"
    using ctx by (simp_all add: scan_ctx_def)
  note fr = lexer_adv_frame[OF la]
  have oka: "lexer_ok a" using scan_ctx_ok[OF ctx] .
  have inv': "lexer_inv a" using oka inv fr nl by (simp add: lexer_inv_def)
  have m: "scan_measure a < scan_measure l" using fuel fr nl by (simp add: scan_measure_def)
  have "scan_post l a token_Illegal lit"
    unfolding scan_post_def using inv' m fr by (simp add: flag_token_def)
  then show ?thesis unfolding scan_ret_def Scan_return_def l'_def[symmetric] e by blast
qed

lemma switch2_tok:
  "snd (Lexer_switch2 a t0 t1) = t0 \<or> snd (Lexer_switch2 a t0 t1) = t1"
  by (simp add: Lexer_switch2_def)

lemma switch3_tok:
  "snd (Lexer_switch3 a t0 t1 c t2) = t0 \<or> snd (Lexer_switch3 a t0 t1 c t2) = t1 \<or>
   snd (Lexer_switch3 a t0 t1 c t2) = t2"
  by (simp add: Lexer_switch3_def)

lemma switch4_tok:
  "snd (Lexer_switch4 a t0 t1 c t2 t3) = t0 \<or> snd (Lexer_switch4 a t0 t1 c t2 t3) = t1 \<or>
   snd (Lexer_switch4 a t0 t1 c t2 t3) = t2 \<or> snd (Lexer_switch4 a t0 t1 c t2 t3) = t3"
  by (simp add: Lexer_switch4_def Let_def)

definition op_token :: "Token \<Rightarrow> bool" where
  "op_token t = (token_operatorA < t \<and> t < token_RightParen)"

lemma op_token_plain:
  assumes "op_token t"
  shows "t \<noteq> token_EOF" "t \<noteq> token_Comment" "t \<noteq> token_Illegal" "False = flag_token t"
  using assms by (auto simp: op_token_def flag_token_def)

lemma leaf_op:
  assumes "scan_ctx l a" "op_token t"
  shows "scan_ret l pos (Scan_return a False pos t lit)"
  using leaf_plain[OF assms(1) op_token_plain[OF assms(2)]] .

lemma leaf_switch2:
  assumes "scan_ctx l a" "op_token t0" "op_token t1"
  shows "scan_ret l pos (Scan_return (fst (Lexer_switch2 a t0 t1)) False pos (snd (Lexer_switch2 a t0 t1)) lit)"
proof (rule leaf_op)
  show "scan_ctx l (fst (Lexer_switch2 a t0 t1))" by (rule scan_ctx_adv[OF assms(1) switch2_adv])
  show "op_token (snd (Lexer_switch2 a t0 t1))" using switch2_tok[of a t0 t1] assms(2,3) by auto
qed

lemma leaf_switch3:
  assumes "scan_ctx l a" "op_token t0" "op_token t1" "op_token t2"
  shows "scan_ret l pos (Scan_return (fst (Lexer_switch3 a t0 t1 c t2)) False pos (snd (Lexer_switch3 a t0 t1 c t2)) lit)"
proof (rule leaf_op)
  show "scan_ctx l (fst (Lexer_switch3 a t0 t1 c t2))" by (rule scan_ctx_adv[OF assms(1) switch3_adv])
  show "op_token (snd (Lexer_switch3 a t0 t1 c t2))" using switch3_tok[of a t0 t1 c t2] assms(2,3,4) by auto
qed

lemma leaf_switch4:
  assumes "scan_ctx l a" "op_token t0" "op_token t1" "op_token t2" "op_token t3"
  shows "scan_ret l pos (Scan_return (fst (Lexer_switch4 a t0 t1 c t2 t3)) False pos (snd (Lexer_switch4 a t0 t1 c t2 t3)) lit)"
proof (rule leaf_op)
  show "scan_ctx l (fst (Lexer_switch4 a t0 t1 c t2 t3))" by (rule scan_ctx_adv[OF assms(1) switch4_adv])
  show "op_token (snd (Lexer_switch4 a t0 t1 c t2 t3))"
    using switch4_tok[of a t0 t1 c t2 t3] assms(2,3,4,5) by auto
qed

lemma leaf_string:
  assumes ctx: "scan_ctx l a"
  shows "scan_ret l pos (bindP (Lexer_scanString a) (\<lambda>(l, lit). Scan_return l True pos token_String lit))"
proof -
  have "1 \<le> l_offset a" using ctx by (simp add: scan_ctx_def)
  then obtain l' lit where r: "Lexer_scanString a = Inr (l', lit)" "lexer_adv a l'"
    using scanString_result[OF scan_ctx_ok[OF ctx]] by blast
  show ?thesis
    unfolding r(1) bindP_simps prod.case
    by (rule leaf_plain[OF scan_ctx_adv[OF ctx r(2)]]) (simp_all add: flag_token_def)
qed

lemma leaf_rune:
  assumes ctx: "scan_ctx l a"
  shows "scan_ret l pos (bindP (Lexer_scanRune a) (\<lambda>(l, lit). Scan_return l True pos token_Char lit))"
proof -
  have "1 \<le> l_offset a" using ctx by (simp add: scan_ctx_def)
  then obtain l' lit where r: "Lexer_scanRune a = Inr (l', lit)" "lexer_adv a l'"
    using scanRune_result[OF scan_ctx_ok[OF ctx]] by blast
  show ?thesis
    unfolding r(1) bindP_simps prod.case
    by (rule leaf_plain[OF scan_ctx_adv[OF ctx r(2)]]) (simp_all add: flag_token_def)
qed

lemma leaf_rawstring:
  assumes ctx: "scan_ctx l a"
  shows "scan_ret l pos (bindP (Lexer_scanRawString a) (\<lambda>(l, lit). Scan_return l True pos token_String lit))"
proof -
  have "1 \<le> l_offset a" using ctx by (simp add: scan_ctx_def)
  then obtain l' lit where r: "Lexer_scanRawString a = Inr (l', lit)" "lexer_adv a l'"
    using scanRawString_result[OF scan_ctx_ok[OF ctx]] by blast
  show ?thesis
    unfolding r(1) bindP_simps prod.case
    by (rule leaf_plain[OF scan_ctx_adv[OF ctx r(2)]]) (simp_all add: flag_token_def)
qed

lemma leaf_close:
  assumes "scan_ctx l a" "t = token_RightParen \<or> t = token_RightBrack \<or> t = token_RightBrace"
  shows "scan_ret l pos (Scan_return a True pos t lit)"
  by (rule leaf_plain[OF assms(1)]) (use assms(2) in \<open>auto simp: flag_token_def\<close>)

lemma scan_ctx_next: "scan_ctx l a \<Longrightarrow> scan_ctx l (Lexer_next a)"
  by (rule scan_ctx_adv[OF _ Lexer_next_adv])

lemma scan_ctx_errorf: "scan_ctx l a \<Longrightarrow> scan_ctx l (Lexer_errorf a offs msg)"
  by (rule scan_ctx_adv[OF _ Lexer_errorf_adv])

lemma scan_ret_if:
  "(c \<Longrightarrow> scan_ret l p A) \<Longrightarrow> (\<not> c \<Longrightarrow> scan_ret l p B) \<Longrightarrow> scan_ret l p (if c then A else B)"
  by simp

lemma leaf_newline:
  assumes ctx: "scan_ctx l a"
  shows "scan_ret l pos (Inr (a\<lparr>l_insertSemi := False\<rparr>, pos, token_Semicolon, lit))"
proof -
  have la: "lexer_adv l a" and inv: "lexer_inv l" and nl: "l_nlPos l = NoPos"
    and fuel: "lexer_fuel a < lexer_fuel l"
    using ctx by (simp_all add: scan_ctx_def)
  note fr = lexer_adv_frame[OF la]
  have oka: "lexer_ok a" using scan_ctx_ok[OF ctx] .
  have inv': "lexer_inv (a\<lparr>l_insertSemi := False\<rparr>)"
    using oka inv fr nl by (simp add: lexer_inv_def lexer_ok_def)
  have m: "scan_measure (a\<lparr>l_insertSemi := False\<rparr>) < scan_measure l"
    using fuel fr nl by (simp add: scan_measure_def lexer_fuel_def)
  have "scan_post l (a\<lparr>l_insertSemi := False\<rparr>) token_Semicolon lit"
    unfolding scan_post_def using inv' m fr by (simp add: flag_token_def)
  then show ?thesis unfolding scan_ret_def by blast
qed

lemma fixOffset_nonneg: "0 \<le> f_size f \<Longrightarrow> 0 \<le> File_fixOffset f offs"
  by (simp add: File_fixOffset_def)

lemma leaf_comment:
  assumes ctx: "scan_ctx l a"
    and ch: "l_ch a = rune CHR ''/'' \<or> l_ch a = rune CHR ''*''"
    and slash: "l_src a ! (l_offset a - 1) = CHR ''/''"
  shows "scan_ret l pos (bindP (Lexer_scanComment a) (\<lambda>(l, comment, nlOffset).
                   if l_insertSemi l \<and> nlOffset \<noteq> 0
                   then Scan_return (l\<lparr>l_nlPos := File_Pos (l_file l) nlOffset, l_insertSemi := False\<rparr>)
                          False pos token_Comment comment
                   else Scan_return l (l_insertSemi l) pos token_Comment comment))"
proof -
  have off: "1 \<le> l_offset a" using ctx by (simp add: scan_ctx_def)
  obtain b lit nlo where r: "Lexer_scanComment a = Inr (b, lit, nlo)" and ab: "lexer_adv a b"
    and lit: "2 \<le> length lit" "lit ! 0 = CHR ''/''" "lit ! 1 = CHR ''/'' \<or> lit ! 1 = CHR ''*''"
    using scanComment_result[OF scan_ctx_ok[OF ctx] ch off slash] by blast
  have cb: "scan_ctx l b" using scan_ctx_adv[OF ctx ab] .
  have lb: "lexer_adv l b" and inv: "lexer_inv l" and nl: "l_nlPos l = NoPos"
    and fuel: "lexer_fuel b < lexer_fuel l"
    using cb by (simp_all add: scan_ctx_def)
  note fr = lexer_adv_frame[OF lb]
  have okb: "lexer_ok b" using scan_ctx_ok[OF cb] .
  show ?thesis
  proof (cases "l_insertSemi b \<and> nlo \<noteq> 0")
    case True
    define c where "c = b\<lparr>l_nlPos := File_Pos (l_file b) nlo, l_insertSemi := False\<rparr>"
    define d where "d = (if \<not> l_noNewSemi c then c\<lparr>l_insertSemi := False\<rparr> else c)"
    have base: "1 \<le> f_base (l_file b)" "0 \<le> f_size (l_file b)"
      using inv fr by (simp_all add: lexer_inv_def)
    have pos1: "File_Pos (l_file b) nlo \<noteq> NoPos"
      using base(1) fixOffset_nonneg[OF base(2), of nlo] by (simp add: File_Pos_def)
    have d_nl: "l_nlPos d \<noteq> NoPos" "\<not> l_insertSemi d" using pos1 by (simp_all add: d_def c_def)
    have okd: "lexer_ok d" using okb by (simp add: d_def c_def lexer_ok_def)
    have invd: "lexer_inv d" using okd d_nl base by (simp add: lexer_inv_def) (simp add: d_def c_def)
    have fd: "lexer_fuel d = lexer_fuel b" by (simp add: d_def c_def lexer_fuel_def)
    have m: "scan_measure d < scan_measure l" using fuel fd d_nl by (simp add: scan_measure_def)
    have frd: "l_src d = l_src l" "l_noNewSemi d = l_noNewSemi l" "l_errFn d = l_errFn l"
      "prefix (l_errors l) (l_errors d)" "f_name (l_file d) = f_name (l_file l)"
      "f_base (l_file d) = f_base (l_file l)" "f_size (l_file d) = f_size (l_file l)"
      using fr by (simp_all add: d_def c_def)
    have "scan_post l d token_Comment lit"
      unfolding scan_post_def using invd m frd d_nl lit by (simp add: flag_token_def)
    moreover have "(\<lambda>(l, comment, nlOffset).
                   if l_insertSemi l \<and> nlOffset \<noteq> 0
                   then Scan_return (l\<lparr>l_nlPos := File_Pos (l_file l) nlOffset, l_insertSemi := False\<rparr>)
                          False pos token_Comment comment
                   else Scan_return l (l_insertSemi l) pos token_Comment comment) (b, lit, nlo) =
        Inr (d, pos, token_Comment, lit)"
      using True by (simp add: Scan_return_def d_def c_def)
    ultimately show ?thesis unfolding r bindP_simps scan_ret_def by blast
  next
    case False
    define d where "d = (if \<not> l_noNewSemi b then b\<lparr>l_insertSemi := l_insertSemi b\<rparr> else b)"
    have e: "d = b" by (simp add: d_def)
    have invb: "lexer_inv b" using okb inv fr nl by (simp add: lexer_inv_def)
    have m: "scan_measure b < scan_measure l" using fuel fr nl by (simp add: scan_measure_def)
    have "scan_post l b token_Comment lit"
      unfolding scan_post_def using invb m fr lit nl by (simp add: flag_token_def)
    moreover have "(\<lambda>(l, comment, nlOffset).
                   if l_insertSemi l \<and> nlOffset \<noteq> 0
                   then Scan_return (l\<lparr>l_nlPos := File_Pos (l_file l) nlOffset, l_insertSemi := False\<rparr>)
                          False pos token_Comment comment
                   else Scan_return l (l_insertSemi l) pos token_Comment comment) (b, lit, nlo) =
        Inr (b, pos, token_Comment, lit)"
      using False by (auto simp: Scan_return_def)
    ultimately show ?thesis unfolding r bindP_simps scan_ret_def by blast
  qed
qed

lemma leaf_eof:
  assumes inv: "lexer_inv l" and nl: "l_nlPos l = NoPos" and la: "lexer_adv l a"
    and ch: "l_ch a = eof"
  shows "scan_ret l pos (if l_insertSemi (Lexer_next a)
            then Inr ((Lexer_next a)\<lparr>l_insertSemi := False\<rparr>, pos, token_Semicolon, lit)
            else Scan_return (Lexer_next a) False pos token_EOF [])"
proof -
  define b where "b = Lexer_next a"
  have ok: "lexer_ok l" using inv by (simp add: lexer_inv_def)
  have oka: "lexer_ok a" using lexer_adv_D(1)[OF la ok] .
  have lb: "lexer_adv l b" unfolding b_def by (rule lexer_adv_trans[OF la Lexer_next_adv])
  note fr = lexer_adv_frame[OF lb]
  have okb: "lexer_ok b" using lexer_adv_D(1)[OF lb ok] .
  have e: "length (l_src a) \<le> l_readOffset a" using oka ch by (simp add: lexer_ok_def)
  have chb: "l_ch b = eof" and rb: "length (l_src b) \<le> l_readOffset b"
    using Lexer_next_at_end[OF e] e unfolding b_def by simp_all
  have fb: "lexer_fuel b \<le> lexer_fuel l" using lexer_adv_fuel[OF lb] .
  show ?thesis
  proof (cases "l_insertSemi b")
    case True
    have i: "l_insertSemi l" using True fr by simp
    have inv': "lexer_inv (b\<lparr>l_insertSemi := False\<rparr>)"
      using okb inv fr nl by (simp add: lexer_inv_def lexer_ok_def)
    have m: "scan_measure (b\<lparr>l_insertSemi := False\<rparr>) < scan_measure l"
      using fb fr nl i by (simp add: scan_measure_def lexer_fuel_def)
    have "scan_post l (b\<lparr>l_insertSemi := False\<rparr>) token_Semicolon lit"
      unfolding scan_post_def using inv' m fr by (simp add: flag_token_def)
    then show ?thesis unfolding b_def[symmetric] scan_ret_def using True by simp
  next
    case False
    define d where "d = (if \<not> l_noNewSemi b then b\<lparr>l_insertSemi := False\<rparr> else b)"
    have e: "d = b" using False by (simp add: d_def)
    have invb: "lexer_inv b" using okb inv fr nl by (simp add: lexer_inv_def)
    have m: "scan_measure b \<le> scan_measure l" using fb fr nl by (simp add: scan_measure_def)
    have dn: "lexer_done b" using chb rb False fr nl by (simp add: lexer_done_def)
    have "scan_post l b token_EOF []"
      unfolding scan_post_def using invb m fr dn False by (simp add: flag_token_def)
    then show ?thesis
      unfolding b_def[symmetric] scan_ret_def Scan_return_def d_def[symmetric] e using False by simp
  qed
qed

lemma leaf_switch2_case:
  assumes "scan_ctx l a" "op_token t0" "op_token t1"
  shows "scan_ret l pos (case Lexer_switch2 a t0 t1 of (l, tok) \<Rightarrow> Scan_return l False pos tok lit)"
  using leaf_switch2[OF assms] by (simp add: case_prod_beta)

lemma leaf_switch3_case:
  assumes "scan_ctx l a" "op_token t0" "op_token t1" "op_token t2"
  shows "scan_ret l pos (case Lexer_switch3 a t0 t1 c t2 of (l, tok) \<Rightarrow> Scan_return l False pos tok lit)"
  using leaf_switch3[OF assms] by (simp add: case_prod_beta)

lemma leaf_switch4_case:
  assumes "scan_ctx l a" "op_token t0" "op_token t1" "op_token t2" "op_token t3"
  shows "scan_ret l pos (case Lexer_switch4 a t0 t1 c t2 t3 of (l, tok) \<Rightarrow> Scan_return l False pos tok lit)"
  using leaf_switch4[OF assms] by (simp add: case_prod_beta)

lemma Scan_default_post:
  assumes inv: "lexer_inv l" and nl: "l_nlPos l = NoPos" and la: "lexer_adv l a"
  shows "scan_ret l pos (Scan_default (Lexer_next a) pos (l_ch a))"
proof (cases "l_ch a = eof")
  case True
  show ?thesis
    unfolding Scan_default_def True using leaf_eof[OF inv nl la True] by simp
next
  case False
  have ok: "lexer_ok l" using inv by (simp add: lexer_inv_def)
  have oka: "lexer_ok a" using lexer_adv_D(1)[OF la ok] .
  have ch: "0 \<le> l_ch a" using oka False unfolding lexer_ok_def by fastforce
  define b where "b = Lexer_next a"
  have lb: "lexer_adv l b" unfolding b_def by (rule lexer_adv_trans[OF la Lexer_next_adv])
  have "lexer_fuel b < lexer_fuel a" unfolding b_def by (rule Lexer_next_fuel_less[OF ch])
  then have fb: "lexer_fuel b < lexer_fuel l" using lexer_adv_fuel[OF la] by simp
  have ob: "l_offset a < l_offset b" unfolding b_def by (rule Lexer_next_offset_less[OF oka ch])
  have ctx: "scan_ctx l b" using inv nl lb fb ob by (simp add: scan_ctx_def)
  have slash: "l_ch a = rune CHR ''/'' \<Longrightarrow> l_src b ! (l_offset b - 1) = CHR ''/''"
  proof -
    assume c: "l_ch a = rune CHR ''/''"
    then have "l_offset b = l_offset a + 1"
      unfolding b_def using Lexer_next_offset_ascii[OF oka] by simp
    moreover have "of_char (l_src a ! l_offset a) = l_ch a"
      using oka c unfolding lexer_ok_def by simp
    then have "l_src a ! l_offset a = CHR ''/''" unfolding c by (simp only: of_char_eq_iff)
    moreover have "l_src b = l_src a"
      unfolding b_def by simp
    ultimately show ?thesis by simp
  qed
  show ?thesis
    unfolding Scan_default_def b_def[symmetric] Let_def
    apply (simp only: False if_False)
    apply (intro scan_ret_if)
    apply ((rule leaf_comment[OF ctx _ slash]; assumption) |
        rule leaf_newline leaf_string leaf_rune leaf_rawstring leaf_illegal
        leaf_switch2_case leaf_switch3_case leaf_switch4_case leaf_close leaf_op;
        (simp add: ctx scan_ctx_next scan_ctx_errorf op_token_def slash; fail))+
    done
qed

text \<open>
  One call of \<^verbatim>\<open>Scan\<close> in a state that satisfies the invariant returns, without a
  panic, and its result satisfies \<open>scan_post\<close>.
\<close>

lemma Lexer_Scan_post:
  assumes inv: "lexer_inv l"
  shows "\<exists>l' pos tok lit. Lexer_Scan l = Inr (l', pos, tok, lit) \<and> scan_post l l' tok lit \<and>
     pos \<noteq> NoPos \<and>
     (tok \<noteq> token_Semicolon \<longrightarrow>
        f_base (l_file l) \<le> pos \<and> pos \<le> f_base (l_file l) + f_size (l_file l))"
proof (cases "l_nlPos l = NoPos")
  case False
  have ok: "lexer_ok l" and ns: "\<not> l_insertSemi l"
    and base: "1 \<le> f_base (l_file l)" "0 \<le> f_size (l_file l)"
    using inv False by (simp_all add: lexer_inv_def)
  have inv': "lexer_inv (l\<lparr>l_nlPos := NoPos\<rparr>)"
    using ok base by (simp add: lexer_inv_def lexer_ok_def)
  have m: "scan_measure (l\<lparr>l_nlPos := NoPos\<rparr>) < scan_measure l"
    using False by (simp add: scan_measure_def lexer_fuel_def)
  have "scan_post l (l\<lparr>l_nlPos := NoPos\<rparr>) token_Semicolon [CHR 0x0A]"
    unfolding scan_post_def using inv' m ns by (simp add: flag_token_def)
  then show ?thesis using False by (simp add: Lexer_Scan_def Pos_IsValid_def)
next
  case True
  define a where "a = Lexer_skipWhitespace l"
  define pos where "pos = File_Pos (l_file a) (int (l_offset a))"
  have la: "lexer_adv l a" unfolding a_def Lexer_skipWhitespace_def by (rule skipWhitespace_adv)
  have ok: "lexer_ok l" using inv by (simp add: lexer_inv_def)
  have oka: "lexer_ok a" using lexer_adv_D(1)[OF la ok] .
  have fa: "lexer_fuel a \<le> lexer_fuel l" using lexer_adv_fuel[OF la] .
  have ret: "scan_ret l pos
       (if isLetter (l_ch a)
        then bindP (Lexer_scanIdent a) (\<lambda>(l, lit).
                      (let tok = token_Lookup lit
                       in Scan_return l
                            (tok = token_Ident \<or> tok = token_Break \<or> tok = token_Continue \<or>
                             tok = token_Fallthrough \<or> tok = token_Return)
                            pos tok lit))
        else if isDecimal (l_ch a) \<or> (l_ch a = rune CHR ''.'' \<and> isDecimal (Lexer_peek a))
        then bindP (Lexer_scanNumber a) (\<lambda>(l, tok, lit). Scan_return l True pos tok lit)
        else Scan_default (Lexer_next a) pos (l_ch a))"
  proof (intro scan_ret_if)
    assume "isLetter (l_ch a)"
    then obtain b lit where r: "Lexer_scanIdent a = Inr (b, lit)" and ab: "lexer_adv a b"
      and fb: "lexer_fuel b < lexer_fuel a"
      using scanIdent_result[OF oka] by blast
    have lb: "lexer_adv l b" by (rule lexer_adv_trans[OF la ab])
    have f: "lexer_fuel b < lexer_fuel l" using fb fa by simp
    show "scan_ret l pos (bindP (Lexer_scanIdent a) (\<lambda>(l, lit).
                      (let tok = token_Lookup lit
                       in Scan_return l
                            (tok = token_Ident \<or> tok = token_Break \<or> tok = token_Continue \<or>
                             tok = token_Fallthrough \<or> tok = token_Return)
                            pos tok lit)))"
      unfolding r bindP_simps prod.case Let_def
      by (rule leaf_plain_gen[OF inv True lb f token_Lookup_plain])
  next
    assume "isDecimal (l_ch a) \<or> (l_ch a = rune CHR ''.'' \<and> isDecimal (Lexer_peek a))"
    then obtain b tok lit where r: "Lexer_scanNumber a = Inr (b, tok, lit)" and ab: "lexer_adv a b"
      and fb: "lexer_fuel b < lexer_fuel a" and t: "tok = token_Int \<or> tok = token_Float"
      using scanNumber_result[OF oka] by blast
    have lb: "lexer_adv l b" by (rule lexer_adv_trans[OF la ab])
    have f: "lexer_fuel b < lexer_fuel l" using fb fa by simp
    show "scan_ret l pos (bindP (Lexer_scanNumber a) (\<lambda>(l, tok, lit). Scan_return l True pos tok lit))"
      unfolding r bindP_simps prod.case
      by (rule leaf_plain_gen[OF inv True lb f]) (use t in \<open>auto simp: flag_token_def\<close>)
  next
    show "scan_ret l pos (Scan_default (Lexer_next a) pos (l_ch a))"
      by (rule Scan_default_post[OF inv True la])
  qed
  have "Lexer_Scan l =
       (if isLetter (l_ch a)
        then bindP (Lexer_scanIdent a) (\<lambda>(l, lit).
                      (let tok = token_Lookup lit
                       in Scan_return l
                            (tok = token_Ident \<or> tok = token_Break \<or> tok = token_Continue \<or>
                             tok = token_Fallthrough \<or> tok = token_Return)
                            pos tok lit))
        else if isDecimal (l_ch a) \<or> (l_ch a = rune CHR ''.'' \<and> isDecimal (Lexer_peek a))
        then bindP (Lexer_scanNumber a) (\<lambda>(l, tok, lit). Scan_return l True pos tok lit)
        else Scan_default (Lexer_next a) pos (l_ch a))"
    using True unfolding Lexer_Scan_def Pos_IsValid_def a_def[symmetric] Let_def pos_def[symmetric]
    by (simp only: simp_thms if_False)
  then have "scan_ret l pos (Lexer_Scan l)" using ret by (simp only:)
  moreover have "pos \<noteq> NoPos \<and> f_base (l_file l) \<le> pos \<and> pos \<le> f_base (l_file l) + f_size (l_file l)"
  proof -
    note fr = lexer_adv_frame[OF la]
    have "1 \<le> f_base (l_file a)" "0 \<le> f_size (l_file a)"
      using inv fr by (simp_all add: lexer_inv_def)
    then show ?thesis
      using fixOffset_nonneg[of "l_file a" "int (l_offset a)"] fr(7,8)
      by (simp add: pos_def File_Pos_def) (simp add: File_fixOffset_def)
  qed
  ultimately show ?thesis unfolding scan_ret_def by blast
qed

lemma Lexer_next_ok_any: "lexer_ok (Lexer_next l)"
proof (cases "l_readOffset l < length (l_src l)")
  case True
  note i = Lexer_next_inside[OF True] and a = Lexer_next_ascii[OF True]
  show ?thesis unfolding lexer_ok_def Lexer_next_frame using i a True by auto
next
  case False
  then have e: "length (l_src l) \<le> l_readOffset l" by simp
  show ?thesis unfolding lexer_ok_def Lexer_next_frame using Lexer_next_at_end[OF e] e by simp
qed

text \<open>The state that \<^verbatim>\<open>NewLexer\<close> returns for a file of a registry satisfies the invariant.\<close>

lemma NewLexer_inv:
  assumes "NewLexer f src eh = Inr l0" "1 \<le> f_base f"
  shows "lexer_inv l0" "l_src l0 = src" "\<not> l_noNewSemi l0" "l_errFn l0 = eh"
    "\<not> l_insertSemi l0" "l_nlPos l0 = NoPos" "f_base (l_file l0) = f_base f"
    "f_size (l_file l0) = f_size f"
proof -
  define r where "r = \<lparr>l_file = f, l_src = src, l_errFn = eh, l_errors = [], l_errCount = 0,
                      l_ch = rune CHR '' '', l_offset = 0, l_readOffset = 0, l_lineOffset = 0,
                      l_insertSemi = False, l_nlPos = NoPos, l_noNewSemi = False\<rparr>"
  have sz: "f_size f = int (length src)"
    using assms(1) by (simp add: NewLexer_def split: if_splits)
  have l0: "l0 = (if l_ch (Lexer_next r) = bom then Lexer_next (Lexer_next r) else Lexer_next r)"
    using assms(1) sz by (auto simp: NewLexer_def Let_def r_def)
  have ok: "lexer_ok l0" unfolding l0 by (simp add: Lexer_next_ok_any)
  show fr: "l_src l0 = src" "\<not> l_noNewSemi l0" "l_errFn l0 = eh" "\<not> l_insertSemi l0"
    "l_nlPos l0 = NoPos" "f_base (l_file l0) = f_base f" "f_size (l_file l0) = f_size f"
    unfolding l0 by (simp_all add: r_def)
  show "lexer_inv l0" using ok fr assms(2) sz by (simp add: lexer_inv_def)
qed

lemma lexer_inv_noNewSemi:
  "lexer_inv (l\<lparr>l_noNewSemi := b\<rparr>) = lexer_inv l"
  by (simp add: lexer_inv_def lexer_ok_def)

text \<open>Any number of calls of \<^verbatim>\<open>Scan\<close> return and keep the invariant.\<close>

lemma Scan_iter_inv:
  assumes "lexer_inv l"
  shows "\<exists>l'. Scan_iter n l = Inr l' \<and> lexer_inv l' \<and> l_src l' = l_src l \<and>
     l_noNewSemi l' = l_noNewSemi l \<and> l_errFn l' = l_errFn l"
  using assms
proof (induction n arbitrary: l)
  case 0
  then show ?case by simp
next
  case (Suc n)
  obtain l1 pos tok lit where s: "Lexer_Scan l = Inr (l1, pos, tok, lit)" and p: "scan_post l l1 tok lit"
    using Lexer_Scan_post[OF Suc.prems] by blast
  have i1: "lexer_inv l1" and fr: "l_src l1 = l_src l" "l_noNewSemi l1 = l_noNewSemi l" "l_errFn l1 = l_errFn l"
    using p by (simp_all add: scan_post_def)
  from Suc.IH[OF i1] fr show ?case by (simp add: s)
qed

lemma Scan_iter_reach:
  assumes "NewLexer f src eh = Inr l0" "1 \<le> f_base f"
    and "Scan_iter n (l0\<lparr>l_noNewSemi := b\<rparr>) = Inr l"
  shows "lexer_inv l" "l_src l = src" "l_noNewSemi l = b" "l_errFn l = eh"
proof -
  note n = NewLexer_inv[OF assms(1,2)]
  have "lexer_inv (l0\<lparr>l_noNewSemi := b\<rparr>)" using n(1) by (simp only: lexer_inv_noNewSemi)
  from Scan_iter_inv[OF this, of n] assms(3) n
  show "lexer_inv l" "l_src l = src" "l_noNewSemi l = b" "l_errFn l = eh" by simp_all
qed

section \<open>The lexer: what Scan returns\<close>

text \<open>
  C9. In a lexer made by \<^verbatim>\<open>NewLexer\<close> for a file of a registry, after any number of calls
  of \<^verbatim>\<open>Scan\<close> (in either mode of the flag \<^verbatim>\<open>noNewSemi\<close>): when the next call returns the
  token \<^verbatim>\<open>COMMENT\<close>, its literal has at least two bytes, the first is \<^verbatim>\<open>/\<close> and the second
  is \<^verbatim>\<open>/\<close> or \<^verbatim>\<open>*\<close>; so the read of \<^verbatim>\<open>p.lit[1]\<close> in \<^verbatim>\<open>consumeComment\<close> is in range, and the
  computation of the end line there returns.
\<close>

theorem Scan_Comment_literal:
  assumes "NewLexer f src eh = Inr l0" and "1 \<le> f_base f"
    and "Scan_iter n (l0\<lparr>l_noNewSemi := b\<rparr>) = Inr l"
    and "Lexer_Scan l = Inr (l', pos, token_Comment, lit)"
  shows "2 \<le> length lit \<and> lit ! 0 = CHR ''/'' \<and> (lit ! 1 = CHR ''/'' \<or> lit ! 1 = CHR ''*'') \<and>
     go_index lit 1 = Inr (lit ! 1) \<and> (\<exists>e. consumeComment_endline (l_file l') pos lit = Inr e)"
proof -
  have inv: "lexer_inv l" using Scan_iter_reach(1)[OF assms(1,2,3)] .
  from Lexer_Scan_post[OF inv] assms(4) have "scan_post l l' token_Comment lit" by auto
  then have lit: "2 \<le> length lit" "lit ! 0 = CHR ''/''" "lit ! 1 = CHR ''/'' \<or> lit ! 1 = CHR ''*''"
    by (simp_all add: scan_post_def)
  have idx: "go_index lit 1 = Inr (lit ! 1)" using lit(1) by (simp add: go_index_def)
  show ?thesis using lit idx by (simp add: consumeComment_endline_def)
qed

theorem Scan_Comment_literal_witness:
  "NewLexer \<lparr>f_name = ''a.st'', f_base = 1, f_size = 8, f_lines = [0]\<rparr> ''a // b\<newline>c'' True =
     Inr \<lparr>l_file = \<lparr>f_name = ''a.st'', f_base = 1, f_size = 8, f_lines = [0]\<rparr>,
          l_src = ''a // b\<newline>c'', l_errFn = True, l_errors = [], l_errCount = 0,
          l_ch = 97, l_offset = 0, l_readOffset = 1, l_lineOffset = 0,
          l_insertSemi = False, l_nlPos = 0, l_noNewSemi = False\<rparr> \<and>
   Scan_iter 1 \<lparr>l_file = \<lparr>f_name = ''a.st'', f_base = 1, f_size = 8, f_lines = [0]\<rparr>,
          l_src = ''a // b\<newline>c'', l_errFn = True, l_errors = [], l_errCount = 0,
          l_ch = 97, l_offset = 0, l_readOffset = 1, l_lineOffset = 0,
          l_insertSemi = False, l_nlPos = 0, l_noNewSemi = False\<rparr> =
     Inr \<lparr>l_file = \<lparr>f_name = ''a.st'', f_base = 1, f_size = 8, f_lines = [0]\<rparr>,
          l_src = ''a // b\<newline>c'', l_errFn = True, l_errors = [], l_errCount = 0,
          l_ch = 32, l_offset = 1, l_readOffset = 2, l_lineOffset = 0,
          l_insertSemi = True, l_nlPos = 0, l_noNewSemi = False\<rparr> \<and>
   Lexer_Scan \<lparr>l_file = \<lparr>f_name = ''a.st'', f_base = 1, f_size = 8, f_lines = [0]\<rparr>,
          l_src = ''a // b\<newline>c'', l_errFn = True, l_errors = [], l_errCount = 0,
          l_ch = 32, l_offset = 1, l_readOffset = 2, l_lineOffset = 0,
          l_insertSemi = True, l_nlPos = 0, l_noNewSemi = False\<rparr> =
     Inr (\<lparr>l_file = \<lparr>f_name = ''a.st'', f_base = 1, f_size = 8, f_lines = [0]\<rparr>,
          l_src = ''a // b\<newline>c'', l_errFn = True, l_errors = [], l_errCount = 0,
          l_ch = 10, l_offset = 6, l_readOffset = 7, l_lineOffset = 0,
          l_insertSemi = True, l_nlPos = 0, l_noNewSemi = False\<rparr>, 3, token_Comment, ''// b'') \<and>
   go_index ''// b'' 1 = Inr CHR ''/'' \<and>
   consumeComment_endline \<lparr>f_name = ''a.st'', f_base = 1, f_size = 8, f_lines = [0]\<rparr> 3 ''// b'' = Inr 1"
proof -
  let ?F = "\<lparr>f_name = ''a.st'', f_base = 1, f_size = 8, f_lines = [0]\<rparr>"
  let ?L0 = "\<lparr>l_file = ?F, l_src = ''a // b\<newline>c'', l_errFn = True, l_errors = [], l_errCount = 0,
          l_ch = 97, l_offset = 0, l_readOffset = 1, l_lineOffset = 0,
          l_insertSemi = False, l_nlPos = 0, l_noNewSemi = False\<rparr>"
  let ?L1 = "\<lparr>l_file = ?F, l_src = ''a // b\<newline>c'', l_errFn = True, l_errors = [], l_errCount = 0,
          l_ch = 32, l_offset = 1, l_readOffset = 2, l_lineOffset = 0,
          l_insertSemi = True, l_nlPos = 0, l_noNewSemi = False\<rparr>"
  let ?L2 = "\<lparr>l_file = ?F, l_src = ''a // b\<newline>c'', l_errFn = True, l_errors = [], l_errCount = 0,
          l_ch = 10, l_offset = 6, l_readOffset = 7, l_lineOffset = 0,
          l_insertSemi = True, l_nlPos = 0, l_noNewSemi = False\<rparr>"
  have new: "NewLexer ?F ''a // b\<newline>c'' True = Inr ?L0" by code_simp
  have base: "1 \<le> f_base ?F" by simp
  have iter: "Scan_iter 1 (?L0\<lparr>l_noNewSemi := False\<rparr>) = Inr ?L1" by code_simp
  have scan: "Lexer_Scan ?L1 = Inr (?L2, 3, token_Comment, ''// b'')" by code_simp
  have line: "consumeComment_endline ?F 3 ''// b'' = Inr 1" by code_simp
  from Scan_Comment_literal[OF new base iter scan] new iter scan line show ?thesis by simp
qed

text \<open>
  C2. The claim is that every token outside the listed ones clears the flag. The branches
  of \<^verbatim>\<open>Scan\<close> for a comment and for an illegal character pass the current value of the
  flag on (\<^verbatim>\<open>insertSemi = l.insertSemi\<close>): after \<^verbatim>\<open>f()\<close> the flag is set, and the call that
  returns the comment \<^verbatim>\<open>// c\<close> leaves it set.
\<close>

theorem Scan_Comment_keeps_insertSemi:
  "NewLexer \<lparr>f_name = ''b.st'', f_base = 1, f_size = 8, f_lines = [0]\<rparr> ''f() // c'' False =
     Inr \<lparr>l_file = \<lparr>f_name = ''b.st'', f_base = 1, f_size = 8, f_lines = [0]\<rparr>,
          l_src = ''f() // c'', l_errFn = False, l_errors = [], l_errCount = 0,
          l_ch = 102, l_offset = 0, l_readOffset = 1, l_lineOffset = 0,
          l_insertSemi = False, l_nlPos = 0, l_noNewSemi = False\<rparr> \<and>
   Scan_iter 3 \<lparr>l_file = \<lparr>f_name = ''b.st'', f_base = 1, f_size = 8, f_lines = [0]\<rparr>,
          l_src = ''f() // c'', l_errFn = False, l_errors = [], l_errCount = 0,
          l_ch = 102, l_offset = 0, l_readOffset = 1, l_lineOffset = 0,
          l_insertSemi = False, l_nlPos = 0, l_noNewSemi = False\<rparr> =
     Inr \<lparr>l_file = \<lparr>f_name = ''b.st'', f_base = 1, f_size = 8, f_lines = [0]\<rparr>,
          l_src = ''f() // c'', l_errFn = False, l_errors = [], l_errCount = 0,
          l_ch = 32, l_offset = 3, l_readOffset = 4, l_lineOffset = 0,
          l_insertSemi = True, l_nlPos = 0, l_noNewSemi = False\<rparr> \<and>
   Lexer_Scan \<lparr>l_file = \<lparr>f_name = ''b.st'', f_base = 1, f_size = 8, f_lines = [0]\<rparr>,
          l_src = ''f() // c'', l_errFn = False, l_errors = [], l_errCount = 0,
          l_ch = 32, l_offset = 3, l_readOffset = 4, l_lineOffset = 0,
          l_insertSemi = True, l_nlPos = 0, l_noNewSemi = False\<rparr> =
     Inr (\<lparr>l_file = \<lparr>f_name = ''b.st'', f_base = 1, f_size = 8, f_lines = [0]\<rparr>,
          l_src = ''f() // c'', l_errFn = False, l_errors = [], l_errCount = 0,
          l_ch = - 1, l_offset = 8, l_readOffset = 8, l_lineOffset = 0,
          l_insertSemi = True, l_nlPos = 0, l_noNewSemi = False\<rparr>, 5, token_Comment, ''// c'') \<and>
   \<not> flag_token token_Comment"
  by code_simp

text \<open>
  C2, amended. In a lexer made by \<^verbatim>\<open>NewLexer\<close> (the flag \<^verbatim>\<open>noNewSemi\<close> of the testing
  mode is clear) for a file of a registry, after any number of calls of \<^verbatim>\<open>Scan\<close> the next
  call returns, and afterwards: the flag is set when the token is one of the listed
  ones; it is clear when the token is any other one except \<^verbatim>\<open>COMMENT\<close> and \<^verbatim>\<open>ILLEGAL\<close>;
  after \<^verbatim>\<open>ILLEGAL\<close> it is what it was; after \<^verbatim>\<open>COMMENT\<close> it is set exactly when it was set
  and the comment did not leave the position of a deferred newline in \<^verbatim>\<open>nlPos\<close>.
\<close>

theorem Scan_insertSemi_flag:
  assumes "NewLexer f src eh = Inr l0" and "1 \<le> f_base f" and "Scan_iter n l0 = Inr l"
  shows "\<exists>l' pos tok lit. Lexer_Scan l = Inr (l', pos, tok, lit) \<and> \<not> l_noNewSemi l \<and>
     (flag_token tok \<longrightarrow> l_insertSemi l') \<and>
     (\<not> flag_token tok \<and> tok \<noteq> token_Comment \<and> tok \<noteq> token_Illegal \<longrightarrow> \<not> l_insertSemi l') \<and>
     (tok = token_Illegal \<longrightarrow> l_insertSemi l' = l_insertSemi l) \<and>
     (tok = token_Comment \<longrightarrow> l_insertSemi l' = (l_insertSemi l \<and> l_nlPos l' = NoPos))"
proof -
  have e: "l0\<lparr>l_noNewSemi := False\<rparr> = l0" using NewLexer_inv(3)[OF assms(1,2)] by simp
  have it: "Scan_iter n (l0\<lparr>l_noNewSemi := False\<rparr>) = Inr l" using assms(3) by (simp only: e)
  note r = Scan_iter_reach[OF assms(1,2) it]
  obtain l' pos tok lit where s: "Lexer_Scan l = Inr (l', pos, tok, lit)" and p: "scan_post l l' tok lit"
    using Lexer_Scan_post[OF r(1)] by blast
  have "(flag_token tok \<longrightarrow> l_insertSemi l') \<and>
     (\<not> flag_token tok \<and> tok \<noteq> token_Comment \<and> tok \<noteq> token_Illegal \<longrightarrow> \<not> l_insertSemi l') \<and>
     (tok = token_Illegal \<longrightarrow> l_insertSemi l' = l_insertSemi l) \<and>
     (tok = token_Comment \<longrightarrow> l_insertSemi l' = (l_insertSemi l \<and> l_nlPos l' = NoPos))"
    using p r(3) unfolding scan_post_def by blast
  then show ?thesis using s r(3) by blast
qed

theorem Scan_insertSemi_flag_witness:
  "NewLexer \<lparr>f_name = ''a.st'', f_base = 1, f_size = 3, f_lines = [0]\<rparr> ''a @'' False =
     Inr \<lparr>l_file = \<lparr>f_name = ''a.st'', f_base = 1, f_size = 3, f_lines = [0]\<rparr>,
          l_src = ''a @'', l_errFn = False, l_errors = [], l_errCount = 0,
          l_ch = 97, l_offset = 0, l_readOffset = 1, l_lineOffset = 0,
          l_insertSemi = False, l_nlPos = 0, l_noNewSemi = False\<rparr> \<and>
   Scan_iter 1 \<lparr>l_file = \<lparr>f_name = ''a.st'', f_base = 1, f_size = 3, f_lines = [0]\<rparr>,
          l_src = ''a @'', l_errFn = False, l_errors = [], l_errCount = 0,
          l_ch = 97, l_offset = 0, l_readOffset = 1, l_lineOffset = 0,
          l_insertSemi = False, l_nlPos = 0, l_noNewSemi = False\<rparr> =
     Inr \<lparr>l_file = \<lparr>f_name = ''a.st'', f_base = 1, f_size = 3, f_lines = [0]\<rparr>,
          l_src = ''a @'', l_errFn = False, l_errors = [], l_errCount = 0,
          l_ch = 32, l_offset = 1, l_readOffset = 2, l_lineOffset = 0,
          l_insertSemi = True, l_nlPos = 0, l_noNewSemi = False\<rparr> \<and>
   Lexer_Scan \<lparr>l_file = \<lparr>f_name = ''a.st'', f_base = 1, f_size = 3, f_lines = [0]\<rparr>,
          l_src = ''a @'', l_errFn = False, l_errors = [], l_errCount = 0,
          l_ch = 32, l_offset = 1, l_readOffset = 2, l_lineOffset = 0,
          l_insertSemi = True, l_nlPos = 0, l_noNewSemi = False\<rparr> =
     Inr (\<lparr>l_file = \<lparr>f_name = ''a.st'', f_base = 1, f_size = 3, f_lines = [0]\<rparr>,
          l_src = ''a @'', l_errFn = False, l_errors = [], l_errCount = 1,
          l_ch = - 1, l_offset = 3, l_readOffset = 3, l_lineOffset = 0,
          l_insertSemi = True, l_nlPos = 0, l_noNewSemi = False\<rparr>, 3, token_Illegal, ''@'') \<and>
   (\<exists>l' pos tok lit.
      Lexer_Scan \<lparr>l_file = \<lparr>f_name = ''a.st'', f_base = 1, f_size = 3, f_lines = [0]\<rparr>,
          l_src = ''a @'', l_errFn = False, l_errors = [], l_errCount = 0,
          l_ch = 32, l_offset = 1, l_readOffset = 2, l_lineOffset = 0,
          l_insertSemi = True, l_nlPos = 0, l_noNewSemi = False\<rparr> = Inr (l', pos, tok, lit) \<and>
      (flag_token tok \<longrightarrow> l_insertSemi l') \<and>
      (\<not> flag_token tok \<and> tok \<noteq> token_Comment \<and> tok \<noteq> token_Illegal \<longrightarrow> \<not> l_insertSemi l') \<and>
      (tok = token_Illegal \<longrightarrow> l_insertSemi l') \<and>
      (tok = token_Comment \<longrightarrow> l_insertSemi l' = (l_nlPos l' = NoPos)))"
proof -
  let ?F = "\<lparr>f_name = ''a.st'', f_base = 1, f_size = 3, f_lines = [0]\<rparr>"
  let ?L0 = "\<lparr>l_file = ?F, l_src = ''a @'', l_errFn = False, l_errors = [], l_errCount = 0,
          l_ch = 97, l_offset = 0, l_readOffset = 1, l_lineOffset = 0,
          l_insertSemi = False, l_nlPos = 0, l_noNewSemi = False\<rparr>"
  let ?L1 = "\<lparr>l_file = ?F, l_src = ''a @'', l_errFn = False, l_errors = [], l_errCount = 0,
          l_ch = 32, l_offset = 1, l_readOffset = 2, l_lineOffset = 0,
          l_insertSemi = True, l_nlPos = 0, l_noNewSemi = False\<rparr>"
  let ?L2 = "\<lparr>l_file = ?F, l_src = ''a @'', l_errFn = False, l_errors = [], l_errCount = 1,
          l_ch = - 1, l_offset = 3, l_readOffset = 3, l_lineOffset = 0,
          l_insertSemi = True, l_nlPos = 0, l_noNewSemi = False\<rparr>"
  have new: "NewLexer ?F ''a @'' False = Inr ?L0" by code_simp
  have base: "1 \<le> f_base ?F" by simp
  have iter: "Scan_iter 1 ?L0 = Inr ?L1" by code_simp
  have scan: "Lexer_Scan ?L1 = Inr (?L2, 3, token_Illegal, ''@'')" by code_simp
  from Scan_insertSemi_flag[OF new base iter] new iter scan show ?thesis by simp
qed

text \<open>At the end of the source, with no semicolon pending, \<^verbatim>\<open>Scan\<close> returns \<^verbatim>\<open>EOF\<close> and stays there.\<close>

lemma Scan_done:
  assumes inv: "lexer_inv l" and dn: "lexer_done l"
  shows "\<exists>l' pos lit. Lexer_Scan l = Inr (l', pos, token_EOF, lit) \<and> lexer_inv l' \<and> lexer_done l'"
proof -
  have ch: "l_ch l = eof" and ns: "\<not> l_insertSemi l" and nl: "l_nlPos l = NoPos"
    using dn by (simp_all add: lexer_done_def)
  have sk: "Lexer_skipWhitespace l = l"
    unfolding Lexer_skipWhitespace_def by (subst skipWhitespace_loop.simps) (simp add: ch)
  have "Lexer_Scan l =
      Scan_return (Lexer_next l) False (File_Pos (l_file l) (int (l_offset l))) token_EOF []"
    using ns by (simp add: Lexer_Scan_def Pos_IsValid_def nl sk Let_def ch isLetter_def isDecimal_def
        Scan_default_def)
  then obtain l' pos lit where s: "Lexer_Scan l = Inr (l', pos, token_EOF, lit)"
    by (simp add: Scan_return_def)
  from Lexer_Scan_post[OF inv] s have "scan_post l l' token_EOF lit" by auto
  then have "lexer_inv l'" "lexer_done l'" by (simp_all add: scan_post_def)
  then show ?thesis using s by blast
qed

lemma Scan_tokens_done:
  assumes "lexer_inv l" "lexer_done l"
  shows "\<exists>toks. Scan_tokens m l = Inr toks \<and> length toks = m \<and>
     (\<forall>i<m. fst (snd (toks ! i)) = token_EOF)"
  using assms
proof (induction m arbitrary: l)
  case 0
  then show ?case by simp
next
  case (Suc m)
  obtain l' pos lit where s: "Lexer_Scan l = Inr (l', pos, token_EOF, lit)"
    and i: "lexer_inv l'" "lexer_done l'"
    using Scan_done[OF Suc.prems] by blast
  obtain toks where t: "Scan_tokens m l' = Inr toks" "length toks = m"
    "\<forall>i<m. fst (snd (toks ! i)) = token_EOF"
    using Suc.IH[OF i] by blast
  have "Scan_tokens (Suc m) l = Inr ((pos, token_EOF, lit) # toks)" by (simp add: s t(1))
  moreover have "\<forall>i<Suc m. fst (snd (((pos, token_EOF, lit) # toks) ! i)) = token_EOF"
    using t(3) by (auto simp: nth_Cons split: nat.splits)
  ultimately show ?case using t(2) by auto
qed

text \<open>
  From a state that satisfies the invariant, the tokens other than \<^verbatim>\<open>EOF\<close> are the first
  \<open>n\<close> ones, for an \<open>n\<close> that the measure of the state bounds.
\<close>

lemma Scan_tokens_terminates:
  assumes "lexer_inv l"
  shows "\<exists>n\<le>scan_measure l. \<forall>m. \<exists>toks. Scan_tokens m l = Inr toks \<and> length toks = m \<and>
     (\<forall>i<m. (fst (snd (toks ! i)) = token_EOF) = (n \<le> i))"
  using assms
proof (induction l rule: measure_induct_rule[of scan_measure])
  case (less l)
  obtain l' pos tok lit where s: "Lexer_Scan l = Inr (l', pos, tok, lit)" and p: "scan_post l l' tok lit"
    using Lexer_Scan_post[OF less.prems] by blast
  have inv': "lexer_inv l'" using p by (simp add: scan_post_def)
  show ?case
  proof (cases "tok = token_EOF")
    case True
    have dn: "lexer_done l'" using p True by (simp add: scan_post_def)
    have "\<exists>toks. Scan_tokens m l = Inr toks \<and> length toks = m \<and>
        (\<forall>i<m. (fst (snd (toks ! i)) = token_EOF) = (0 \<le> i))" for m
    proof (cases m)
      case 0
      then show ?thesis by simp
    next
      case (Suc k)
      obtain toks where t: "Scan_tokens k l' = Inr toks" "length toks = k"
        "\<forall>i<k. fst (snd (toks ! i)) = token_EOF"
        using Scan_tokens_done[OF inv' dn] by blast
      have "Scan_tokens m l = Inr ((pos, tok, lit) # toks)" by (simp add: Suc s t(1))
      moreover have "\<forall>i<m. fst (snd (((pos, tok, lit) # toks) ! i)) = token_EOF"
        using t(3) True Suc by (auto simp: nth_Cons split: nat.splits)
      ultimately show ?thesis using t(2) Suc by auto
    qed
    then show ?thesis by blast
  next
    case False
    have m: "scan_measure l' < scan_measure l" using p False by (simp add: scan_post_def)
    obtain n where n: "n \<le> scan_measure l'"
      and all: "\<And>m. \<exists>toks. Scan_tokens m l' = Inr toks \<and> length toks = m \<and>
          (\<forall>i<m. (fst (snd (toks ! i)) = token_EOF) = (n \<le> i))"
      using less.IH[OF m inv'] by blast
    have "\<exists>toks. Scan_tokens m l = Inr toks \<and> length toks = m \<and>
        (\<forall>i<m. (fst (snd (toks ! i)) = token_EOF) = (Suc n \<le> i))" for m
    proof (cases m)
      case 0
      then show ?thesis by simp
    next
      case (Suc k)
      obtain toks where t: "Scan_tokens k l' = Inr toks" "length toks = k"
        "\<forall>i<k. (fst (snd (toks ! i)) = token_EOF) = (n \<le> i)"
        using all[of k] by blast
      have "Scan_tokens m l = Inr ((pos, tok, lit) # toks)" by (simp add: Suc s t(1))
      moreover have "\<forall>i<m. (fst (snd (((pos, tok, lit) # toks) ! i)) = token_EOF) = (Suc n \<le> i)"
        using t(3) False Suc by (auto simp: nth_Cons split: nat.splits)
      ultimately show ?thesis using t(2) Suc by auto
    qed
    moreover have "Suc n \<le> scan_measure l" using n m by simp
    ultimately show ?thesis by blast
  qed
qed

text \<open>
  C8. For a lexer made by \<^verbatim>\<open>NewLexer\<close> for a file of a registry, in either mode of the
  flag \<^verbatim>\<open>noNewSemi\<close>: there is a number \<open>n\<close>, at most \<open>4 * len(src) + 2\<close>, such that any
  number \<open>m\<close> of calls of \<^verbatim>\<open>Scan\<close> return (none panics, none runs forever), and the call
  number \<open>i\<close> (from 0) returns \<^verbatim>\<open>EOF\<close> exactly when \<open>n \<le> i\<close>.
\<close>

theorem Scan_terminates:
  assumes "NewLexer f src eh = Inr l0" and "1 \<le> f_base f"
  shows "\<exists>n\<le>4 * length src + 2. \<forall>m. \<exists>toks.
     Scan_tokens m (l0\<lparr>l_noNewSemi := b\<rparr>) = Inr toks \<and> length toks = m \<and>
     (\<forall>i<m. (fst (snd (toks ! i)) = token_EOF) = (n \<le> i))"
proof -
  note n = NewLexer_inv[OF assms]
  have inv: "lexer_inv (l0\<lparr>l_noNewSemi := b\<rparr>)" using n(1) by (simp only: lexer_inv_noNewSemi)
  have "length (l_src l0) - l_readOffset l0 \<le> length src" using n(2) by simp
  then have "lexer_fuel l0 \<le> 2 * length src + 1" unfolding lexer_fuel_def by (simp split: if_splits)
  then have "scan_measure (l0\<lparr>l_noNewSemi := b\<rparr>) \<le> 4 * length src + 2"
    using n(5,6) by (simp add: scan_measure_def lexer_fuel_def)
  then show ?thesis using Scan_tokens_terminates[OF inv] by (meson le_trans)
qed

theorem Scan_terminates_witness:
  "NewLexer \<lparr>f_name = ''c.st'', f_base = 1, f_size = 5, f_lines = [0]\<rparr> ''x = 1'' False =
     Inr \<lparr>l_file = \<lparr>f_name = ''c.st'', f_base = 1, f_size = 5, f_lines = [0]\<rparr>,
          l_src = ''x = 1'', l_errFn = False, l_errors = [], l_errCount = 0,
          l_ch = 120, l_offset = 0, l_readOffset = 1, l_lineOffset = 0,
          l_insertSemi = False, l_nlPos = 0, l_noNewSemi = False\<rparr> \<and>
   Scan_tokens 6 \<lparr>l_file = \<lparr>f_name = ''c.st'', f_base = 1, f_size = 5, f_lines = [0]\<rparr>,
          l_src = ''x = 1'', l_errFn = False, l_errors = [], l_errCount = 0,
          l_ch = 120, l_offset = 0, l_readOffset = 1, l_lineOffset = 0,
          l_insertSemi = False, l_nlPos = 0, l_noNewSemi = False\<rparr> =
     Inr [(1, token_Ident, ''x''), (3, token_Assign, []), (5, token_Int, ''1''),
          (6, token_Semicolon, [CHR 0x0A]), (6, token_EOF, []), (6, token_EOF, [])] \<and>
   (\<exists>n\<le>22. \<forall>m. \<exists>toks.
      Scan_tokens m \<lparr>l_file = \<lparr>f_name = ''c.st'', f_base = 1, f_size = 5, f_lines = [0]\<rparr>,
          l_src = ''x = 1'', l_errFn = False, l_errors = [], l_errCount = 0,
          l_ch = 120, l_offset = 0, l_readOffset = 1, l_lineOffset = 0,
          l_insertSemi = False, l_nlPos = 0, l_noNewSemi = False\<rparr> = Inr toks \<and> length toks = m \<and>
      (\<forall>i<m. (fst (snd (toks ! i)) = token_EOF) = (n \<le> i)))"
proof -
  let ?F = "\<lparr>f_name = ''c.st'', f_base = 1, f_size = 5, f_lines = [0]\<rparr>"
  let ?L0 = "\<lparr>l_file = ?F, l_src = ''x = 1'', l_errFn = False, l_errors = [], l_errCount = 0,
          l_ch = 120, l_offset = 0, l_readOffset = 1, l_lineOffset = 0,
          l_insertSemi = False, l_nlPos = 0, l_noNewSemi = False\<rparr>"
  have new: "NewLexer ?F ''x = 1'' False = Inr ?L0" by code_simp
  have base: "1 \<le> f_base ?F" by simp
  have toks: "Scan_tokens 6 ?L0 =
     Inr [(1, token_Ident, ''x''), (3, token_Assign, []), (5, token_Int, ''1''),
          (6, token_Semicolon, [CHR 0x0A]), (6, token_EOF, []), (6, token_EOF, [])]" by code_simp
  from Scan_terminates[OF new base, of False] new toks show ?thesis by simp
qed

section \<open>The lexer: a number that starts with a point\<close>

lemma lexer_at_fields [simp]:
  "l_src (lexer_at l k) = l_src l" "l_file (lexer_at l k) = l_file l"
  "l_errFn (lexer_at l k) = l_errFn l" "l_errors (lexer_at l k) = l_errors l"
  "l_errCount (lexer_at l k) = l_errCount l" "l_insertSemi (lexer_at l k) = l_insertSemi l"
  "l_nlPos (lexer_at l k) = l_nlPos l" "l_noNewSemi (lexer_at l k) = l_noNewSemi l"
  "l_lineOffset (lexer_at l k) = l_lineOffset l"
  by (simp_all add: lexer_at_def)

lemma utf8_DecodeRune_ascii:
  assumes "p \<noteq> []" "(of_char (p ! 0) :: int) < 128"
  shows "utf8_DecodeRune p = (of_char (p ! 0), 1)"
  using assms by (cases p) (simp_all add: utf8_DecodeRune_def Let_def)

lemma lexer_at_inside:
  assumes "k < length (l_src l)"
  shows "l_offset (lexer_at l k) = k"
    "l_ch (lexer_at l k) = fst (utf8_DecodeRune (drop k (l_src l)))"
    "(of_char (l_src l ! k) :: int) < 128 \<Longrightarrow> l_ch (lexer_at l k) = of_char (l_src l ! k)"
    "(of_char (l_src l ! k) :: int) < 128 \<Longrightarrow> l_readOffset (lexer_at l k) = k + 1"
  using assms utf8_DecodeRune_ascii[of "drop k (l_src l)"] by (simp_all add: lexer_at_def)

lemma lexer_at_end:
  assumes "length (l_src l) \<le> k"
  shows "l_ch (lexer_at l k) = eof" "l_offset (lexer_at l k) = length (l_src l)"
    "l_readOffset (lexer_at l k) = length (l_src l)"
  using assms by (simp_all add: lexer_at_def)

lemma Lexer_error_at: "Lexer_error (lexer_at l k) offs msg = lexer_at (Lexer_error l offs msg) k"
  by (simp add: Lexer_error_def lexer_at_def)

text \<open>
  \<^verbatim>\<open>next\<close> from an ASCII character other than a newline: the character after it is read
  without an error when it is not NUL and, when it is not ASCII, is neither an illegal
  encoding nor a byte order mark.
\<close>

lemma Lexer_next_at:
  assumes k: "k < length (l_src l)" and asc: "(of_char (l_src l ! k) :: int) < 128"
    and nl: "(of_char (l_src l ! k) :: int) \<noteq> 10"
    and nx: "Suc k < length (l_src l) \<longrightarrow>
       (of_char (l_src l ! Suc k) :: int) \<noteq> 0 \<and>
       (128 \<le> (of_char (l_src l ! Suc k) :: int) \<longrightarrow>
          utf8_DecodeRune (drop (Suc k) (l_src l)) \<noteq> (utf8_RuneError, 1) \<and>
          fst (utf8_DecodeRune (drop (Suc k) (l_src l))) \<noteq> bom)"
  shows "Lexer_next (lexer_at l k) = lexer_at l (Suc k)"
proof -
  define a where "a = lexer_at l k"
  have a: "l_src a = l_src l" "l_offset a = k" "l_readOffset a = Suc k" "l_ch a = of_char (l_src l ! k)"
    using lexer_at_inside[OF k] asc by (simp_all add: a_def)
  have rest: "a\<lparr>l_offset := x, l_readOffset := y, l_ch := z\<rparr> = l\<lparr>l_offset := x, l_readOffset := y, l_ch := z\<rparr>"
    for x y z by (simp add: a_def lexer_at_def)
  have aeq: "a = l\<lparr>l_offset := k, l_readOffset := Suc k, l_ch := of_char (l_src l ! k)\<rparr>"
    using k asc utf8_DecodeRune_ascii[of "drop k (l_src l)"] by (simp add: a_def lexer_at_def)
  show ?thesis
  proof (cases "Suc k < length (l_src l)")
    case False
    then have "Lexer_next a = a\<lparr>l_offset := length (l_src l), l_ch := eof\<rparr>"
      using a nl by (simp add: Lexer_next_def Let_def)
    also have "\<dots> = lexer_at l (Suc k)"
      using False k by (simp add: aeq lexer_at_def)
    finally show ?thesis unfolding a_def .
  next
    case True
    define r0 where "r0 = (of_char (l_src l ! Suc k) :: int)"
    have nz: "r0 \<noteq> 0" using nx True by (simp add: r0_def)
    have ne: "drop (Suc k) (l_src l) \<noteq> []" using True by simp
    have d0: "drop (Suc k) (l_src l) ! 0 = l_src l ! Suc k" using True by simp
    show ?thesis
    proof (cases "r0 < 128")
      case True
      have dec: "utf8_DecodeRune (drop (Suc k) (l_src l)) = (r0, 1)"
        using utf8_DecodeRune_ascii[OF ne] True d0 by (simp add: r0_def)
      have "Lexer_next a = a\<lparr>l_offset := Suc k, l_readOffset := Suc k + 1, l_ch := r0\<rparr>"
        using a nl nz True \<open>Suc k < length (l_src l)\<close>
        by (simp add: Lexer_next_def Let_def r0_def[symmetric])
      also have "\<dots> = lexer_at l (Suc k)"
        using \<open>Suc k < length (l_src l)\<close> dec by (simp add: rest) (simp add: lexer_at_def)
      finally show ?thesis unfolding a_def .
    next
      case False
      obtain r w where dec: "utf8_DecodeRune (drop (Suc k) (l_src l)) = (r, w)"
        by (cases "utf8_DecodeRune (drop (Suc k) (l_src l))")
      have ok: "\<not> (r = utf8_RuneError \<and> w = 1)" "r \<noteq> bom"
        using nx \<open>Suc k < length (l_src l)\<close> False dec by (auto simp: r0_def)
      have "Lexer_next a = a\<lparr>l_offset := Suc k, l_readOffset := Suc k + w, l_ch := r\<rparr>"
        using a nl nz False \<open>Suc k < length (l_src l)\<close> dec ok
        by (auto simp: Lexer_next_def Let_def r0_def[symmetric])
      also have "\<dots> = lexer_at l (Suc k)"
        using \<open>Suc k < length (l_src l)\<close> dec by (simp add: rest) (simp add: lexer_at_def)
      finally show ?thesis unfolding a_def .
    qed
  qed
qed

lemma isHex_ascii: "isHex c \<Longrightarrow> 48 \<le> c \<and> c < 128 \<and> c \<noteq> 95 \<and> c \<noteq> 10"
  by (auto simp: isHex_def)

text \<open>The loop of \<^verbatim>\<open>scanDigits\<close> over a run of digits with no \<^verbatim>\<open>_\<close> in it.\<close>

lemma scanDigits_loop1_run:
  assumes "\<forall>i<n. isHex (of_char (l_src l ! (k + i)))" and "k + n \<le> length (l_src l)"
    and "k + n < length (l_src l) \<longrightarrow>
       (of_char (l_src l ! (k + n)) :: int) \<noteq> 0 \<and>
       \<not> isHex (of_char (l_src l ! (k + n))) \<and> (of_char (l_src l ! (k + n)) :: int) \<noteq> rune CHR ''_'' \<and>
       (128 \<le> (of_char (l_src l ! (k + n)) :: int) \<longrightarrow>
          utf8_DecodeRune (drop (k + n) (l_src l)) \<noteq> (utf8_RuneError, 1) \<and>
          fst (utf8_DecodeRune (drop (k + n) (l_src l))) \<noteq> bom)"
    and "d = 0 \<or> d = 1"
  shows "\<exists>ivd'. scanDigits_loop1 58 (lexer_at l k) d ivd =
     (lexer_at l (k + n), (if n = 0 then d else 1), ivd')"
  using assms
proof (induction n arbitrary: k d ivd)
  case 0
  have "\<not> isHex (l_ch (lexer_at l k)) \<and> l_ch (lexer_at l k) \<noteq> rune CHR ''_''"
  proof (cases "k < length (l_src l)")
    case False
    then show ?thesis by (simp add: lexer_at_def isHex_def)
  next
    case True
    note i = lexer_at_inside[OF True]
    show ?thesis
    proof (cases "(of_char (l_src l ! k) :: int) < 128")
      case True
      then show ?thesis using 0(3) \<open>k < length (l_src l)\<close> i(3) by simp
    next
      case False
      have ne: "drop k (l_src l) \<noteq> []" using \<open>k < length (l_src l)\<close> by simp
      have "128 \<le> (of_char (drop k (l_src l) ! 0) :: int)" using False \<open>k < length (l_src l)\<close> by simp
      from utf8_DecodeRune_multibyte[OF this ne] have "128 \<le> l_ch (lexer_at l k)"
        unfolding i(2) .
      then show ?thesis by (simp add: isHex_def)
    qed
  qed
  then show ?case by (subst scanDigits_loop1.simps) simp
next
  case (Suc n)
  have k: "k < length (l_src l)" using Suc.prems(2) by simp
  have hx: "isHex (of_char (l_src l ! k))" using Suc.prems(1) by force
  note h = isHex_ascii[OF hx]
  have ch: "l_ch (lexer_at l k) = of_char (l_src l ! k)" using lexer_at_inside(3)[OF k] h by simp
  have hex: "isHex (l_ch (lexer_at l k))" "l_ch (lexer_at l k) \<noteq> rune CHR ''_''"
    using hx h unfolding ch by simp_all
  have nx: "Suc k < length (l_src l) \<longrightarrow>
       (of_char (l_src l ! Suc k) :: int) \<noteq> 0 \<and>
       (128 \<le> (of_char (l_src l ! Suc k) :: int) \<longrightarrow>
          utf8_DecodeRune (drop (Suc k) (l_src l)) \<noteq> (utf8_RuneError, 1) \<and>
          fst (utf8_DecodeRune (drop (Suc k) (l_src l))) \<noteq> bom)"
  proof (cases n)
    case 0
    then show ?thesis using Suc.prems(3) by simp
  next
    case (Suc m)
    have "isHex (of_char (l_src l ! (k + 1)))" using Suc.prems(1) Suc by force
    from isHex_ascii[OF this] show ?thesis by simp
  qed
  have step: "Lexer_next (lexer_at l k) = lexer_at l (Suc k)"
    by (rule Lexer_next_at[OF k _ _ nx]) (use h in simp_all)
  have d1: "or d 1 = (1::nat)" using Suc.prems(4) by auto
  have ih: "\<exists>ivd'. scanDigits_loop1 58 (lexer_at l (Suc k)) 1 ivd0 =
      (lexer_at l (Suc k + n), (if n = 0 then 1 else 1), ivd')" for ivd0
  proof (rule Suc.IH)
    show "\<forall>i<n. isHex (of_char (l_src l ! (Suc k + i)))"
    proof (intro allI impI)
      fix i assume "i < n"
      then have "Suc i < Suc n" by simp
      from Suc.prems(1)[rule_format, OF this] show "isHex (of_char (l_src l ! (Suc k + i)))" by simp
    qed
    show "Suc k + n \<le> length (l_src l)" using Suc.prems(2) by simp
    show "Suc k + n < length (l_src l) \<longrightarrow>
       (of_char (l_src l ! (Suc k + n)) :: int) \<noteq> 0 \<and>
       \<not> isHex (of_char (l_src l ! (Suc k + n))) \<and> (of_char (l_src l ! (Suc k + n)) :: int) \<noteq> rune CHR ''_'' \<and>
       (128 \<le> (of_char (l_src l ! (Suc k + n)) :: int) \<longrightarrow>
          utf8_DecodeRune (drop (Suc k + n) (l_src l)) \<noteq> (utf8_RuneError, 1) \<and>
          fst (utf8_DecodeRune (drop (Suc k + n) (l_src l))) \<noteq> bom)"
      using Suc.prems(3) by simp
    show "(1::nat) = 0 \<or> (1::nat) = 1" by simp
  qed
  define ivd0 where "ivd0 = (if l_ch (lexer_at l k) \<noteq> rune CHR ''_'' \<and> l_ch (lexer_at l k) \<ge> 58 \<and> ivd < 0
                           then int (l_offset (lexer_at l k)) else ivd)"
  obtain ivd' where r: "scanDigits_loop1 58 (lexer_at l (Suc k)) 1 ivd0 = (lexer_at l (Suc (k + n)), 1, ivd')"
    using ih[of ivd0] by auto
  have "scanDigits_loop1 58 (lexer_at l k) d ivd = scanDigits_loop1 58 (lexer_at l (Suc k)) 1 ivd0"
    using hex d1 by (subst scanDigits_loop1.simps) (simp add: step Let_def ivd0_def)
  then show ?case using r by simp
qed

text \<open>
  C10. The claim is that the call reports exactly one error. Reading the last digit reads
  the character after it, and \<^verbatim>\<open>next\<close> reports an error of its own for a NUL byte (and
  for an illegal encoding or a byte order mark): on the input \<^verbatim>\<open>.5\<close> followed by a NUL
  byte the call reports two errors.
\<close>

theorem Scan_dot_digit_NUL_two_errors:
  "NewLexer \<lparr>f_name = ''d.st'', f_base = 1, f_size = 3, f_lines = [0]\<rparr> [CHR ''.'', CHR ''5'', CHR 0x00] True =
     Inr \<lparr>l_file = \<lparr>f_name = ''d.st'', f_base = 1, f_size = 3, f_lines = [0]\<rparr>,
          l_src = [CHR ''.'', CHR ''5'', CHR 0x00], l_errFn = True, l_errors = [], l_errCount = 0,
          l_ch = 46, l_offset = 0, l_readOffset = 1, l_lineOffset = 0,
          l_insertSemi = False, l_nlPos = 0, l_noNewSemi = False\<rparr> \<and>
   Lexer_Scan \<lparr>l_file = \<lparr>f_name = ''d.st'', f_base = 1, f_size = 3, f_lines = [0]\<rparr>,
          l_src = [CHR ''.'', CHR ''5'', CHR 0x00], l_errFn = True, l_errors = [], l_errCount = 0,
          l_ch = 46, l_offset = 0, l_readOffset = 1, l_lineOffset = 0,
          l_insertSemi = False, l_nlPos = 0, l_noNewSemi = False\<rparr> =
     Inr (\<lparr>l_file = \<lparr>f_name = ''d.st'', f_base = 1, f_size = 3, f_lines = [0]\<rparr>,
          l_src = [CHR ''.'', CHR ''5'', CHR 0x00], l_errFn = True,
          l_errors =
            [\<lparr>e_Pos = \<lparr>Filename = ''d.st'', Offset = 0, Line = 1, Column = 1\<rparr>,
              e_Msg = ''decimal literal has no digits''\<rparr>,
             \<lparr>e_Pos = \<lparr>Filename = ''d.st'', Offset = 2, Line = 1, Column = 3\<rparr>,
              e_Msg = ''illegal character NUL''\<rparr>],
          l_errCount = 2, l_ch = 0, l_offset = 2, l_readOffset = 3, l_lineOffset = 0,
          l_insertSemi = True, l_nlPos = 0, l_noNewSemi = False\<rparr>, 1, token_Float, ''.5'')"
  by code_simp

text \<open>
  C10, amended. The source starts with a point and a decimal digit. \<open>ds\<close> is the run of
  digits that \<^verbatim>\<open>scanDigits\<close> reads after the point (its loop accepts the letters of the
  hexadecimal digits too), with no \<^verbatim>\<open>_\<close> in it: after \<open>ds\<close> the source ends, or goes on
  with a character that is neither such a digit nor \<^verbatim>\<open>_\<close> and that \<^verbatim>\<open>next\<close> reads without
  an error of its own, that is any character but NUL, an illegal encoding and a byte
  order mark. Then the first call of \<^verbatim>\<open>Scan\<close> returns \<^verbatim>\<open>FLOAT\<close> at the start of the file
  with the literal \<open>.ds\<close>, and reports one error: \<^verbatim>\<open>decimal literal has no digits\<close> at the
  start of the literal.
\<close>

theorem Scan_dot_digits:
  assumes new: "NewLexer f src eh = Inr l0"
    and src: "src = CHR ''.'' # ds @ rest" and ne: "ds \<noteq> []"
    and dec: "isDecimal (rune (hd ds))" and hex: "\<forall>c\<in>set ds. isHex (rune c)"
    and tail: "rest = [] \<or>
       rune (hd rest) \<noteq> 0 \<and> \<not> isHex (rune (hd rest)) \<and> rune (hd rest) \<noteq> rune CHR ''_'' \<and>
       (utf8_RuneSelf \<le> rune (hd rest) \<longrightarrow>
          utf8_DecodeRune rest \<noteq> (utf8_RuneError, 1) \<and> fst (utf8_DecodeRune rest) \<noteq> bom)"
  shows "\<exists>l'. Lexer_Scan l0 = Inr (l', f_base f, token_Float, CHR ''.'' # ds) \<and>
     l_errCount l' = 1 \<and>
     l_errors l' =
       (if eh then [\<lparr>e_Pos = File_Position f (f_base f), e_Msg = ''decimal literal has no digits''\<rparr>]
        else [])"
proof -
  define n where "n = length ds"
  define r where "r = \<lparr>l_file = f, l_src = src, l_errFn = eh, l_errors = [], l_errCount = 0,
                      l_ch = rune CHR '' '', l_offset = 0, l_readOffset = 0, l_lineOffset = 0,
                      l_insertSemi = False, l_nlPos = NoPos, l_noNewSemi = False\<rparr>"
  define r1 where "r1 = Lexer_error r 0 ''decimal literal has no digits''"
  have len: "length src = Suc n + length rest" by (simp add: src n_def)
  have n0: "0 < n" using ne by (simp add: n_def)
  have sz: "f_size f = int (length src)"
    using new by (simp add: NewLexer_def split: if_splits)
  have s0: "src ! 0 = CHR ''.''" by (simp add: src)
  have sd: "src ! (1 + i) = ds ! i" if "i < n" for i
    using that by (simp add: src n_def nth_append)
  have sr: "src ! (1 + n) = hd rest" if "rest \<noteq> []"
    using that by (simp add: src n_def nth_append hd_conv_nth)
  have dr: "drop (1 + n) src = rest" by (simp add: src n_def)
  have src_r: "l_src r = src" "l_src r1 = src" by (simp_all add: r_def r1_def)
  have digits: "\<forall>i<n. isHex (of_char (l_src r1 ! (1 + i)))"
    using hex sd by (simp add: src_r n_def)
  have stop: "1 + n < length (l_src r1) \<longrightarrow>
       (of_char (l_src r1 ! (1 + n)) :: int) \<noteq> 0 \<and>
       \<not> isHex (of_char (l_src r1 ! (1 + n))) \<and> (of_char (l_src r1 ! (1 + n)) :: int) \<noteq> rune CHR ''_'' \<and>
       (128 \<le> (of_char (l_src r1 ! (1 + n)) :: int) \<longrightarrow>
          utf8_DecodeRune (drop (1 + n) (l_src r1)) \<noteq> (utf8_RuneError, 1) \<and>
          fst (utf8_DecodeRune (drop (1 + n) (l_src r1))) \<noteq> bom)"
  proof
    assume "1 + n < length (l_src r1)"
    then have "rest \<noteq> []" using len by (simp add: src_r)
    then show "(of_char (l_src r1 ! (1 + n)) :: int) \<noteq> 0 \<and>
       \<not> isHex (of_char (l_src r1 ! (1 + n))) \<and> (of_char (l_src r1 ! (1 + n)) :: int) \<noteq> rune CHR ''_'' \<and>
       (128 \<le> (of_char (l_src r1 ! (1 + n)) :: int) \<longrightarrow>
          utf8_DecodeRune (drop (1 + n) (l_src r1)) \<noteq> (utf8_RuneError, 1) \<and>
          fst (utf8_DecodeRune (drop (1 + n) (l_src r1))) \<noteq> bom)"
      using tail sr dr unfolding src_r by simp
  qed
  have p0: "0 < length (l_src r)" "(of_char (l_src r ! 0) :: int) < 128" "(of_char (l_src r ! 0) :: int) = 46"
    using len s0 by (simp_all add: src_r)
  have "src \<noteq> []" using len by auto
  then have dec0: "utf8_DecodeRune (drop 0 src) = (46, 1)"
    using utf8_DecodeRune_ascii[of src] s0 by simp
  have first: "Lexer_next r = lexer_at r 0"
    using len s0 dec0 by (simp add: Lexer_next_def lexer_at_def r_def Let_def)
  have ch0: "l_ch (lexer_at r 0) = rune CHR ''.''" "l_offset (lexer_at r 0) = 0"
    "l_readOffset (lexer_at r 0) = 1"
    using lexer_at_inside[OF p0(1)] p0 by simp_all
  have "l0 = (if l_ch (Lexer_next r) = bom then Lexer_next (Lexer_next r) else Lexer_next r)"
    using new sz by (auto simp: NewLexer_def Let_def r_def)
  then have l0: "l0 = lexer_at r 0" unfolding first by (simp add: ch0)
  have "hd ds = src ! 1" using sd[of 0] n0 ne by (simp add: hd_conv_nth)
  then have d0: "isDecimal (of_char (src ! 1))" using dec by simp
  have peek: "isDecimal (Lexer_peek (lexer_at r 0))"
    using d0 len n0 by (simp add: Lexer_peek_def ch0 src_r)
  have skip: "Lexer_skipWhitespace (lexer_at r 0) = lexer_at r 0"
    unfolding Lexer_skipWhitespace_def by (subst skipWhitespace_loop.simps) (simp add: ch0)
  have dig1: "Lexer_scanDigits (lexer_at r 0) 10 (- 1) = (lexer_at r 0, 0, - 1)"
    unfolding Lexer_scanDigits_def
    by (simp, subst scanDigits_loop1.simps) (simp add: ch0 isHex_def)
  have err: "Lexer_error (lexer_at r 0) 0 ''decimal literal has no digits'' = lexer_at r1 0"
    by (simp add: Lexer_error_at r1_def)
  have ch1: "l_ch (lexer_at r1 0) = rune CHR ''.''"
    using lexer_at_inside(3)[of 0 r1] p0 by (simp add: src_r)
  have nx: "Lexer_next (lexer_at r1 0) = lexer_at r1 (Suc 0)"
  proof (rule Lexer_next_at)
    show "0 < length (l_src r1)" using len by (simp add: src_r)
    show "(of_char (l_src r1 ! 0) :: int) < 128" using s0 by (simp add: src_r)
    show "(of_char (l_src r1 ! 0) :: int) \<noteq> 10" using s0 by (simp add: src_r)
    show "Suc 0 < length (l_src r1) \<longrightarrow>
       (of_char (l_src r1 ! Suc 0) :: int) \<noteq> 0 \<and>
       (128 \<le> (of_char (l_src r1 ! Suc 0) :: int) \<longrightarrow>
          utf8_DecodeRune (drop (Suc 0) (l_src r1)) \<noteq> (utf8_RuneError, 1) \<and>
          fst (utf8_DecodeRune (drop (Suc 0) (l_src r1))) \<noteq> bom)"
      using d0 by (simp add: src_r isDecimal_def)
  qed
  obtain ivd where run: "scanDigits_loop1 58 (lexer_at r1 1) 0 (- 1) =
      (lexer_at r1 (1 + n), (if n = 0 then 0 else 1), ivd)"
    using scanDigits_loop1_run[OF digits _ stop, of 0 "- 1"] len by (auto simp: src_r)
  have dig2: "Lexer_scanDigits (lexer_at r1 (Suc 0)) 10 (- 1) = (lexer_at r1 (Suc n), 1, ivd)"
    unfolding Lexer_scanDigits_def using run n0 by simp
  have off: "l_offset (lexer_at r1 (Suc n)) = Suc n"
    using len by (simp add: lexer_at_def src_r)
  have sl: "go_slice (l_src r1) 0 (int (l_offset (lexer_at r1 (Suc n)))) =
      Inr (CHR ''.'' # ds)"
  proof -
    have "nat (int (Suc n)) = Suc n" by simp
    then have "take (nat (int (Suc n) - 0)) (drop (nat 0) src) = CHR ''.'' # ds"
      by (simp add: src n_def)
    then show ?thesis unfolding off using len by (simp add: go_slice_def src_r del: of_nat_Suc)
  qed
  have num: "Lexer_scanNumber (lexer_at r 0) = Inr (lexer_at r1 (Suc n), token_Float, CHR ''.'' # ds)"
    unfolding Lexer_scanNumber_def
    by (simp add: ch0 dig1 err ch1 nx dig2 sl Let_def digSep_IsEmpty_def digSep_HasSep_def litname_def)
  have pos: "File_Pos (l_file r) 0 = f_base f"
    using sz by (simp add: File_Pos_def File_fixOffset_def r_def)
  define l' where "l' = (lexer_at r1 (Suc n))\<lparr>l_insertSemi := True\<rparr>"
  have fl: "l_nlPos r = NoPos" "\<not> l_noNewSemi r1" by (simp_all add: r_def r1_def Lexer_error_def)
  have scan: "Lexer_Scan (lexer_at r 0) = Inr (l', f_base f, token_Float, CHR ''.'' # ds)"
    unfolding Lexer_Scan_def
    using peek by (simp add: Pos_IsValid_def skip Let_def ch0 isLetter_def isDecimal_def num pos
        Scan_return_def l'_def fl)
  have cnt: "l_errCount l' = 1" by (simp add: l'_def r1_def Lexer_error_def r_def)
  have errs: "l_errors l' =
       (if eh then [\<lparr>e_Pos = File_Position f (f_base f), e_Msg = ''decimal literal has no digits''\<rparr>]
        else [])"
    using sz by (simp add: l'_def r1_def Lexer_error_def r_def ErrorList_Add_def File_Pos_def File_fixOffset_def)
  show ?thesis using scan cnt errs unfolding l0 by blast
qed

theorem Scan_dot_digits_witness:
  "NewLexer \<lparr>f_name = ''d.st'', f_base = 1, f_size = 5, f_lines = [0]\<rparr>
       [CHR ''.'', CHR ''5'', CHR ''a'', CHR 0xC3, CHR 0xA9] True =
     Inr \<lparr>l_file = \<lparr>f_name = ''d.st'', f_base = 1, f_size = 5, f_lines = [0]\<rparr>,
          l_src = [CHR ''.'', CHR ''5'', CHR ''a'', CHR 0xC3, CHR 0xA9], l_errFn = True,
          l_errors = [], l_errCount = 0,
          l_ch = 46, l_offset = 0, l_readOffset = 1, l_lineOffset = 0,
          l_insertSemi = False, l_nlPos = 0, l_noNewSemi = False\<rparr> \<and>
   [CHR ''.'', CHR ''5'', CHR ''a'', CHR 0xC3, CHR 0xA9] = CHR ''.'' # ''5a'' @ [CHR 0xC3, CHR 0xA9] \<and>
   isDecimal (rune CHR ''5'') \<and> isHex (rune CHR ''5'') \<and> isHex (rune CHR ''a'') \<and>
   \<not> isHex (rune (CHR 0xC3)) \<and> utf8_DecodeRune [CHR 0xC3, CHR 0xA9] = (0xE9, 2) \<and>
   Lexer_Scan \<lparr>l_file = \<lparr>f_name = ''d.st'', f_base = 1, f_size = 5, f_lines = [0]\<rparr>,
          l_src = [CHR ''.'', CHR ''5'', CHR ''a'', CHR 0xC3, CHR 0xA9], l_errFn = True,
          l_errors = [], l_errCount = 0,
          l_ch = 46, l_offset = 0, l_readOffset = 1, l_lineOffset = 0,
          l_insertSemi = False, l_nlPos = 0, l_noNewSemi = False\<rparr> =
     Inr (\<lparr>l_file = \<lparr>f_name = ''d.st'', f_base = 1, f_size = 5, f_lines = [0]\<rparr>,
          l_src = [CHR ''.'', CHR ''5'', CHR ''a'', CHR 0xC3, CHR 0xA9], l_errFn = True,
          l_errors =
            [\<lparr>e_Pos = \<lparr>Filename = ''d.st'', Offset = 0, Line = 1, Column = 1\<rparr>,
              e_Msg = ''decimal literal has no digits''\<rparr>],
          l_errCount = 1, l_ch = 0xE9, l_offset = 3, l_readOffset = 5, l_lineOffset = 0,
          l_insertSemi = True, l_nlPos = 0, l_noNewSemi = False\<rparr>, 1, token_Float, ''.5a'') \<and>
   File_Position \<lparr>f_name = ''d.st'', f_base = 1, f_size = 5, f_lines = [0]\<rparr> 1 =
     \<lparr>Filename = ''d.st'', Offset = 0, Line = 1, Column = 1\<rparr>"
proof -
  let ?F = "\<lparr>f_name = ''d.st'', f_base = 1, f_size = 5, f_lines = [0]\<rparr>"
  let ?S = "[CHR ''.'', CHR ''5'', CHR ''a'', CHR 0xC3, CHR 0xA9]"
  let ?L0 = "\<lparr>l_file = ?F, l_src = ?S, l_errFn = True, l_errors = [], l_errCount = 0,
          l_ch = 46, l_offset = 0, l_readOffset = 1, l_lineOffset = 0,
          l_insertSemi = False, l_nlPos = 0, l_noNewSemi = False\<rparr>"
  let ?L1 = "\<lparr>l_file = ?F, l_src = ?S, l_errFn = True,
          l_errors = [\<lparr>e_Pos = \<lparr>Filename = ''d.st'', Offset = 0, Line = 1, Column = 1\<rparr>,
              e_Msg = ''decimal literal has no digits''\<rparr>],
          l_errCount = 1, l_ch = 0xE9, l_offset = 3, l_readOffset = 5, l_lineOffset = 0,
          l_insertSemi = True, l_nlPos = 0, l_noNewSemi = False\<rparr>"
  have new: "NewLexer ?F ?S True = Inr ?L0" by code_simp
  have src: "?S = CHR ''.'' # ''5a'' @ [CHR 0xC3, CHR 0xA9]" by simp
  have ne: "''5a'' \<noteq> []" by simp
  have dec: "isDecimal (rune (hd ''5a''))" by (simp add: isDecimal_def)
  have hex: "\<forall>c\<in>set ''5a''. isHex (rune c)" by (simp add: isHex_def)
  have decode: "utf8_DecodeRune [CHR 0xC3, CHR 0xA9] = (0xE9, 2)" by code_simp
  have tail: "[CHR 0xC3, CHR 0xA9] = [] \<or>
       rune (hd [CHR 0xC3, CHR 0xA9]) \<noteq> 0 \<and> \<not> isHex (rune (hd [CHR 0xC3, CHR 0xA9])) \<and>
       rune (hd [CHR 0xC3, CHR 0xA9]) \<noteq> rune CHR ''_'' \<and>
       (utf8_RuneSelf \<le> rune (hd [CHR 0xC3, CHR 0xA9]) \<longrightarrow>
          utf8_DecodeRune [CHR 0xC3, CHR 0xA9] \<noteq> (utf8_RuneError, 1) \<and>
          fst (utf8_DecodeRune [CHR 0xC3, CHR 0xA9]) \<noteq> bom)"
    unfolding decode by (simp add: isHex_def)
  have pos: "File_Position ?F 1 = \<lparr>Filename = ''d.st'', Offset = 0, Line = 1, Column = 1\<rparr>"
    by code_simp
  obtain l' where scan: "Lexer_Scan ?L0 = Inr (l', f_base ?F, token_Float, CHR ''.'' # ''5a'')"
    and cnt: "l_errCount l' = 1"
    and errs: "l_errors l' =
       (if True then [\<lparr>e_Pos = File_Position ?F (f_base ?F), e_Msg = ''decimal literal has no digits''\<rparr>]
        else [])"
    using Scan_dot_digits[OF new src ne dec hex tail] by blast
  have l': "l' = ?L1"
  proof -
    have "Lexer_Scan ?L0 = Inr (?L1, 1, token_Float, ''.5a'')" by code_simp
    then show ?thesis using scan by simp
  qed
  show ?thesis using new scan pos decode unfolding l' by (simp add: isDecimal_def isHex_def)
qed

text \<open>
  A \<^verbatim>\<open>_\<close> right after the digits belongs to the run that \<^verbatim>\<open>scanDigits\<close> reads, and the
  call reports a second error for it.
\<close>

lemma Scan_dot_digit_underscore_two_errors:
  "map_sum id (\<lambda>(l, pos, tok, lit). (l_errCount l, map e_Msg (l_errors l), tok, lit))
     (bindP (NewLexer \<lparr>f_name = ''d.st'', f_base = 1, f_size = 3, f_lines = [0]\<rparr> ''.5_'' True) Lexer_Scan) =
   Inr (2, [''decimal literal has no digits'',
            [CHR 0x27] @ ''_'' @ [CHR 0x27] @ '' must separate successive digits''],
        token_Float, ''.5_'')"
  by code_simp

section \<open>The parser\<close>

lemma bindR_Inr_E:
  assumes "bindR m f = Some (Inr y)"
  obtains x where "m = Some (Inr x)" "f x = Some (Inr y)"
  using assms by (cases m) (auto simp: bindR_def split: sum.splits)

text \<open>
  What \<^verbatim>\<open>parseFile\<close> returns, when it returns: \<^verbatim>\<open>nil\<close> when an error has been reported
  by the time the first token is read or by the end of the package clause, and otherwise
  the node with the name, the position and the comment of the package clause and the
  lists of the two loops.
\<close>

lemma parser_parseFile_result:
  assumes "parser_parseFile p = Some (Inr (nodeopt, p'))"
  shows "if p_errors p \<noteq> [] then nodeopt = None
     else (\<exists>doc pos ident p1. parser_parsePackageDecl p = Some (Inr ((doc, pos, ident), p1)) \<and>
            (if p_errors p1 \<noteq> [] then nodeopt = None
             else (\<exists>decls0 imports0 p2 decls imports.
                     parseFile_imports [] [] p1 = Some (Inr ((decls0, imports0), p2)) \<and>
                     parseFile_decls token_Import decls0 imports0 p2 = Some (Inr ((decls, imports), p')) \<and>
                     nodeopt = Some \<lparr>File_FileStart = 0, File_FileEnd = 0, File_Doc = doc,
                                      File_Package = pos, File_PkgName = Some ident,
                                      File_Imports = imports, File_Decls = decls,
                                      File_Comments = p_comments p'\<rparr>)))"
proof (cases "p_errors p \<noteq> []")
  case True
  then show ?thesis using assms by (simp add: parser_parseFile_def ErrorList_Len_def returnR_def)
next
  case False
  then have e0: "p_errors p = []" by simp
  have "bindR (parser_parsePackageDecl p) (\<lambda>((doc, pos, ident), p).
             if ErrorList_Len (p_errors p) \<noteq> 0 then returnR (None, p)
             else bindR (parseFile_imports [] [] p) (\<lambda>((decls, imports), p).
                  bindR (parseFile_decls token_Import decls imports p) (\<lambda>((decls, imports), p).
                    returnR (Some \<lparr>File_FileStart = 0, File_FileEnd = 0, File_Doc = doc,
                                   File_Package = pos, File_PkgName = Some ident,
                                   File_Imports = imports, File_Decls = decls,
                                   File_Comments = p_comments p\<rparr>, p)))) = Some (Inr (nodeopt, p'))"
    using assms e0 by (simp add: parser_parseFile_def ErrorList_Len_def)
  then obtain x where pk: "parser_parsePackageDecl p = Some (Inr x)"
    and r1: "(\<lambda>((doc, pos, ident), p).
             if ErrorList_Len (p_errors p) \<noteq> 0 then returnR (None, p)
             else bindR (parseFile_imports [] [] p) (\<lambda>((decls, imports), p).
                  bindR (parseFile_decls token_Import decls imports p) (\<lambda>((decls, imports), p).
                    returnR (Some \<lparr>File_FileStart = 0, File_FileEnd = 0, File_Doc = doc,
                                   File_Package = pos, File_PkgName = Some ident,
                                   File_Imports = imports, File_Decls = decls,
                                   File_Comments = p_comments p\<rparr>, p)))) x = Some (Inr (nodeopt, p'))"
    by (rule bindR_Inr_E)
  obtain doc pos ident p1 where x: "x = ((doc, pos, ident), p1)" by (cases x) auto
  show ?thesis
  proof (cases "p_errors p1 \<noteq> []")
    case True
    then have "nodeopt = None" using r1 unfolding x by (simp add: ErrorList_Len_def returnR_def)
    then show ?thesis using e0 pk x True by simp
  next
    case False
    then have e1: "p_errors p1 = []" by simp
    have r2: "bindR (parseFile_imports [] [] p1) (\<lambda>((decls, imports), p).
                  bindR (parseFile_decls token_Import decls imports p) (\<lambda>((decls, imports), p).
                    returnR (Some \<lparr>File_FileStart = 0, File_FileEnd = 0, File_Doc = doc,
                                   File_Package = pos, File_PkgName = Some ident,
                                   File_Imports = imports, File_Decls = decls,
                                   File_Comments = p_comments p\<rparr>, p))) = Some (Inr (nodeopt, p'))"
      using r1 e1 unfolding x by (simp add: ErrorList_Len_def)
    obtain y where im: "parseFile_imports [] [] p1 = Some (Inr y)"
      and r3: "(\<lambda>((decls, imports), p).
                  bindR (parseFile_decls token_Import decls imports p) (\<lambda>((decls, imports), p).
                    returnR (Some \<lparr>File_FileStart = 0, File_FileEnd = 0, File_Doc = doc,
                                   File_Package = pos, File_PkgName = Some ident,
                                   File_Imports = imports, File_Decls = decls,
                                   File_Comments = p_comments p\<rparr>, p))) y = Some (Inr (nodeopt, p'))"
      by (rule bindR_Inr_E[OF r2])
    obtain decls0 imports0 p2 where y: "y = ((decls0, imports0), p2)" by (cases y) auto
    obtain z where dl: "parseFile_decls token_Import decls0 imports0 p2 = Some (Inr z)"
      and r4: "(\<lambda>((decls, imports), p).
                    returnR (Some \<lparr>File_FileStart = 0, File_FileEnd = 0, File_Doc = doc,
                                   File_Package = pos, File_PkgName = Some ident,
                                   File_Imports = imports, File_Decls = decls,
                                   File_Comments = p_comments p\<rparr>, p)) z = Some (Inr (nodeopt, p'))"
      using r3 unfolding y prod.case by (rule bindR_Inr_E)
    obtain decls imps p3 where z: "z = ((decls, imps), p3)" by (cases z) auto
    have fin: "p3 = p'" "nodeopt = Some \<lparr>File_FileStart = 0, File_FileEnd = 0, File_Doc = doc,
                                   File_Package = pos, File_PkgName = Some ident,
                                   File_Imports = imps, File_Decls = decls,
                                   File_Comments = p_comments p'\<rparr>"
      using r4 unfolding z by (auto simp: returnR_def)
    show ?thesis
      using e0 e1 pk[unfolded x] im[unfolded y] dl[unfolded z fin(1)] fin(2) by auto
  qed
qed

text \<open>
  C4. A call of \<^verbatim>\<open>ParseFile\<close> with a string or a byte slice as source that returns (it
  neither panics nor runs forever) returns a file node. The file set was given, \<^verbatim>\<open>AddFile\<close>
  has made the file with the length of the text as size, and the node has the base of
  that file as \<^verbatim>\<open>FileStart\<close> and base + size as \<^verbatim>\<open>FileEnd\<close>, whatever the errors. When
  an error has been reported by the time the first token is read, or by the end of the
  package clause, the node is the placeholder with these bounds, whose \<^verbatim>\<open>PkgName\<close> is the
  empty identifier; otherwise its \<^verbatim>\<open>PkgName\<close> is the identifier that \<^verbatim>\<open>parsePackageDecl\<close>
  has returned, and its lists are those of the loops of \<^verbatim>\<open>parseFile\<close>.
\<close>

theorem ParseFile_File_bounds:
  assumes ret: "ParseFile fset filename src = Some (Inr (fset', f, err))"
    and mem: "src = Src_string text \<or> src = Src_bytes text"
  shows "\<exists>s s1 k p node.
     fset = Some s \<and> FileSet_AddFile s filename (- 1) (int (length text)) = Inr (s1, k) \<and>
     f_size (s_files s1 ! k) = int (length text) \<and>
     parser_init (s_files s1 ! k) text = Some (Inr p) \<and>
     f = Some node \<and>
     File_FileStart node = f_base (s_files s1 ! k) \<and>
     File_FileEnd node = f_base (s_files s1 ! k) + f_size (s_files s1 ! k) \<and>
     (if p_errors p \<noteq> []
      then node = ast_File_placeholder
                    \<lparr>File_FileStart := f_base (s_files s1 ! k),
                      File_FileEnd := f_base (s_files s1 ! k) + f_size (s_files s1 ! k)\<rparr> \<and>
           File_PkgName node = Some ast_Ident_zero
      else (\<exists>doc pos ident p1.
              parser_parsePackageDecl p = Some (Inr ((doc, pos, ident), p1)) \<and>
              (if p_errors p1 \<noteq> []
               then node = ast_File_placeholder
                             \<lparr>File_FileStart := f_base (s_files s1 ! k),
                               File_FileEnd := f_base (s_files s1 ! k) + f_size (s_files s1 ! k)\<rparr> \<and>
                    File_PkgName node = Some ast_Ident_zero
               else (\<exists>decls0 imports0 p2 decls imports p3.
                       parseFile_imports [] [] p1 = Some (Inr ((decls0, imports0), p2)) \<and>
                       parseFile_decls token_Import decls0 imports0 p2 =
                         Some (Inr ((decls, imports), p3)) \<and>
                       node = \<lparr>File_FileStart = f_base (s_files s1 ! k),
                               File_FileEnd = f_base (s_files s1 ! k) + f_size (s_files s1 ! k),
                               File_Doc = doc, File_Package = pos, File_PkgName = Some ident,
                               File_Imports = imports, File_Decls = decls,
                               File_Comments = p_comments p3\<rparr>))))"
proof -
  obtain s where s: "fset = Some s"
    using ret by (cases fset) (simp_all add: ParseFile_def)
  have rs: "readSource filename src = Inr text" using mem by auto
  define body where "body = (\<lambda>(s1 :: FileSet, k :: nat).
                 (let fl = s_files s1 ! k
                  in bindR (parser_init fl text) (\<lambda>p.
                     bindR (parser_parseFile p) (\<lambda>(f, p).
                       (let f = (case f of None \<Rightarrow> ast_File_placeholder | Some f \<Rightarrow> f);
                            f = f\<lparr>File_FileStart := f_base fl,
                                  File_FileEnd := f_base fl + f_size fl\<rparr>;
                            errors = ErrorList_sort (p_errors p);
                            err = (case ErrorList_Err errors of
                                     None \<Rightarrow> None
                                   | Some e \<Rightarrow> Some (Err_ErrorList e))
                        in returnR (Some (s1\<lparr>s_files := (s_files s1)[k := p_file p]\<rparr>), Some f, err))))))"
  have "bindR (Some (FileSet_AddFile s filename (- 1) (int (length text)))) body =
      Some (Inr (fset', f, err))"
    using ret unfolding ParseFile_def s body_def by (simp add: rs)
  then obtain s1 k where add: "FileSet_AddFile s filename (- 1) (int (length text)) = Inr (s1, k)"
    and b: "body (s1, k) = Some (Inr (fset', f, err))"
    by (elim bindR_Inr_E) (cases "FileSet_AddFile s filename (- 1) (int (length text))"; force)
  define fl where "fl = s_files s1 ! k"
  have sz: "f_size fl = int (length text)"
    using add unfolding fl_def FileSet_AddFile_def Let_def by (auto split: if_splits)
  from b obtain p where init: "parser_init fl text = Some (Inr p)"
    and b2: "bindR (parser_parseFile p) (\<lambda>(f, p).
                       (let f = (case f of None \<Rightarrow> ast_File_placeholder | Some f \<Rightarrow> f);
                            f = f\<lparr>File_FileStart := f_base fl,
                                  File_FileEnd := f_base fl + f_size fl\<rparr>;
                            errors = ErrorList_sort (p_errors p);
                            err = (case ErrorList_Err errors of
                                     None \<Rightarrow> None
                                   | Some e \<Rightarrow> Some (Err_ErrorList e))
                        in returnR (Some (s1\<lparr>s_files := (s_files s1)[k := p_file p]\<rparr>), Some f, err))) =
          Some (Inr (fset', f, err))"
    unfolding body_def prod.case Let_def fl_def[symmetric] by (erule bindR_Inr_E)
  obtain nodeopt p' where pf: "parser_parseFile p = Some (Inr (nodeopt, p'))"
    and f: "f = Some ((case nodeopt of None \<Rightarrow> ast_File_placeholder | Some n \<Rightarrow> n)
              \<lparr>File_FileStart := f_base fl, File_FileEnd := f_base fl + f_size fl\<rparr>)"
    by (rule bindR_Inr_E[OF b2]) (auto simp: returnR_def Let_def)
  define node where "node = (case nodeopt of None \<Rightarrow> ast_File_placeholder | Some n \<Rightarrow> n)
              \<lparr>File_FileStart := f_base fl, File_FileEnd := f_base fl + f_size fl\<rparr>"
  have f': "f = Some node" using f by (simp add: node_def)
  have e1: "File_FileStart node = f_base fl" and e2: "File_FileEnd node = f_base fl + f_size fl"
    by (simp_all add: node_def)
  have none: "node = ast_File_placeholder\<lparr>File_FileStart := f_base fl, File_FileEnd := f_base fl + f_size fl\<rparr> \<and>
      File_PkgName node = Some ast_Ident_zero" if "nodeopt = None"
    using that by (simp add: node_def ast_File_placeholder_def)
  have some: "node = n\<lparr>File_FileStart := f_base fl, File_FileEnd := f_base fl + f_size fl\<rparr>"
    if "nodeopt = Some n" for n
    using that by (simp add: node_def)
  note res = parser_parseFile_result[OF pf]
  have cases: "if p_errors p \<noteq> []
      then node = ast_File_placeholder
                    \<lparr>File_FileStart := f_base fl, File_FileEnd := f_base fl + f_size fl\<rparr> \<and>
           File_PkgName node = Some ast_Ident_zero
      else (\<exists>doc pos ident p1.
              parser_parsePackageDecl p = Some (Inr ((doc, pos, ident), p1)) \<and>
              (if p_errors p1 \<noteq> []
               then node = ast_File_placeholder
                             \<lparr>File_FileStart := f_base fl, File_FileEnd := f_base fl + f_size fl\<rparr> \<and>
                    File_PkgName node = Some ast_Ident_zero
               else (\<exists>decls0 imports0 p2 decls imports p3.
                       parseFile_imports [] [] p1 = Some (Inr ((decls0, imports0), p2)) \<and>
                       parseFile_decls token_Import decls0 imports0 p2 =
                         Some (Inr ((decls, imports), p3)) \<and>
                       node = \<lparr>File_FileStart = f_base fl, File_FileEnd = f_base fl + f_size fl,
                               File_Doc = doc, File_Package = pos, File_PkgName = Some ident,
                               File_Imports = imports, File_Decls = decls,
                               File_Comments = p_comments p3\<rparr>)))"
  proof (cases "p_errors p \<noteq> []")
    case True
    then have "nodeopt = None" using res by simp
    from none[OF this] show ?thesis unfolding if_P[OF True] .
  next
    case False
    then obtain doc pos ident p1 where pk: "parser_parsePackageDecl p = Some (Inr ((doc, pos, ident), p1))"
      and r: "if p_errors p1 \<noteq> [] then nodeopt = None
             else (\<exists>decls0 imports0 p2 decls imports.
                     parseFile_imports [] [] p1 = Some (Inr ((decls0, imports0), p2)) \<and>
                     parseFile_decls token_Import decls0 imports0 p2 = Some (Inr ((decls, imports), p')) \<and>
                     nodeopt = Some \<lparr>File_FileStart = 0, File_FileEnd = 0, File_Doc = doc,
                                      File_Package = pos, File_PkgName = Some ident,
                                      File_Imports = imports, File_Decls = decls,
                                      File_Comments = p_comments p'\<rparr>)"
      using res by auto
    show ?thesis
    proof (cases "p_errors p1 \<noteq> []")
      case True
      then have "nodeopt = None" using r by simp
      from none[OF this] pk have "parser_parsePackageDecl p = Some (Inr ((doc, pos, ident), p1)) \<and>
              (if p_errors p1 \<noteq> []
               then node = ast_File_placeholder
                             \<lparr>File_FileStart := f_base fl, File_FileEnd := f_base fl + f_size fl\<rparr> \<and>
                    File_PkgName node = Some ast_Ident_zero
               else (\<exists>decls0 imports0 p2 decls imports p3.
                       parseFile_imports [] [] p1 = Some (Inr ((decls0, imports0), p2)) \<and>
                       parseFile_decls token_Import decls0 imports0 p2 =
                         Some (Inr ((decls, imports), p3)) \<and>
                       node = \<lparr>File_FileStart = f_base fl, File_FileEnd = f_base fl + f_size fl,
                               File_Doc = doc, File_Package = pos, File_PkgName = Some ident,
                               File_Imports = imports, File_Decls = decls,
                               File_Comments = p_comments p3\<rparr>))"
        unfolding if_P[OF True] by blast
      then show ?thesis unfolding if_not_P[OF False] by (intro exI)
    next
      case e: False
      then obtain decls0 imports0 p2 decls imps where
        im: "parseFile_imports [] [] p1 = Some (Inr ((decls0, imports0), p2))"
        and dl: "parseFile_decls token_Import decls0 imports0 p2 = Some (Inr ((decls, imps), p'))"
        and n: "nodeopt = Some \<lparr>File_FileStart = 0, File_FileEnd = 0, File_Doc = doc,
                                      File_Package = pos, File_PkgName = Some ident,
                                      File_Imports = imps, File_Decls = decls,
                                      File_Comments = p_comments p'\<rparr>"
        using r by auto
      have "node = \<lparr>File_FileStart = f_base fl, File_FileEnd = f_base fl + f_size fl,
                               File_Doc = doc, File_Package = pos, File_PkgName = Some ident,
                               File_Imports = imps, File_Decls = decls,
                               File_Comments = p_comments p'\<rparr>"
        using some[OF n] by simp
      then have "\<exists>decls0 imports0 p2 decls imports p3.
                       parseFile_imports [] [] p1 = Some (Inr ((decls0, imports0), p2)) \<and>
                       parseFile_decls token_Import decls0 imports0 p2 =
                         Some (Inr ((decls, imports), p3)) \<and>
                       node = \<lparr>File_FileStart = f_base fl, File_FileEnd = f_base fl + f_size fl,
                               File_Doc = doc, File_Package = pos, File_PkgName = Some ident,
                               File_Imports = imports, File_Decls = decls,
                               File_Comments = p_comments p3\<rparr>"
        using im dl by blast
      then have "parser_parsePackageDecl p = Some (Inr ((doc, pos, ident), p1)) \<and>
              (if p_errors p1 \<noteq> []
               then node = ast_File_placeholder
                             \<lparr>File_FileStart := f_base fl, File_FileEnd := f_base fl + f_size fl\<rparr> \<and>
                    File_PkgName node = Some ast_Ident_zero
               else (\<exists>decls0 imports0 p2 decls imports p3.
                       parseFile_imports [] [] p1 = Some (Inr ((decls0, imports0), p2)) \<and>
                       parseFile_decls token_Import decls0 imports0 p2 =
                         Some (Inr ((decls, imports), p3)) \<and>
                       node = \<lparr>File_FileStart = f_base fl, File_FileEnd = f_base fl + f_size fl,
                               File_Doc = doc, File_Package = pos, File_PkgName = Some ident,
                               File_Imports = imports, File_Decls = decls,
                               File_Comments = p_comments p3\<rparr>))"
        using pk unfolding if_not_P[OF e] by blast
      then show ?thesis unfolding if_not_P[OF False] by (intro exI)
    qed
  qed
  show ?thesis
    using s add sz[unfolded fl_def] init[unfolded fl_def] f' e1[unfolded fl_def] e2[unfolded fl_def]
      cases[unfolded fl_def]
    by blast
qed

theorem ParseFile_File_bounds_witness:
  "ParseFile (Some NewFileSet) ''x.st'' (Src_string ''package _;'') =
     Some (Inr (Some \<lparr>s_base = 12,
                       s_files = [\<lparr>f_name = ''x.st'', f_base = 1, f_size = 10, f_lines = [0]\<rparr>],
                       s_last = Some 0\<rparr>,
                Some \<lparr>File_FileStart = 1, File_FileEnd = 11, File_Doc = None, File_Package = 0,
                       File_PkgName = Some \<lparr>Ident_NamePos = 0, Ident_Name = []\<rparr>,
                       File_Imports = [], File_Decls = [], File_Comments = []\<rparr>,
                Some (Err_ErrorList
                       [\<lparr>e_Pos = \<lparr>Filename = ''x.st'', Offset = 9, Line = 1, Column = 10\<rparr>,
                         e_Msg = ''invalid package name _''\<rparr>]))) \<and>
   FileSet_AddFile NewFileSet ''x.st'' (- 1) 10 =
     Inr (\<lparr>s_base = 12,
           s_files = [\<lparr>f_name = ''x.st'', f_base = 1, f_size = 10, f_lines = [0]\<rparr>],
           s_last = Some 0\<rparr>, 0) \<and>
   (\<exists>p p1. parser_init \<lparr>f_name = ''x.st'', f_base = 1, f_size = 10, f_lines = [0]\<rparr> ''package _;'' =
              Some (Inr p) \<and> p_errors p = [] \<and>
            parser_parsePackageDecl p =
              Some (Inr ((None, 1, \<lparr>Ident_NamePos = 9, Ident_Name = ''_''\<rparr>), p1)) \<and>
            p_errors p1 =
              [\<lparr>e_Pos = \<lparr>Filename = ''x.st'', Offset = 9, Line = 1, Column = 10\<rparr>,
                e_Msg = ''invalid package name _''\<rparr>])"
proof -
  let ?F = "\<lparr>f_name = ''x.st'', f_base = 1, f_size = 10, f_lines = [0]\<rparr>"
  let ?s1 = "\<lparr>s_base = 12, s_files = [?F], s_last = Some 0\<rparr>"
  let ?node = "\<lparr>File_FileStart = 1, File_FileEnd = 11, File_Doc = None, File_Package = 0,
                       File_PkgName = Some \<lparr>Ident_NamePos = 0, Ident_Name = []\<rparr>,
                       File_Imports = [], File_Decls = [], File_Comments = []\<rparr>"
  let ?E = "[\<lparr>e_Pos = \<lparr>Filename = ''x.st'', Offset = 9, Line = 1, Column = 10\<rparr>,
                         e_Msg = ''invalid package name _''\<rparr>]"
  let ?P0 = "\<lparr>p_scanner =
          \<lparr>l_file = ?F, l_src = ''package _;'', l_errFn = True, l_errors = [],
             l_errCount = 0, l_ch = 32, l_offset = 7, l_readOffset = 8,
             l_lineOffset = 0, l_insertSemi = False, l_nlPos = 0, l_noNewSemi = False\<rparr>,
          p_comments = [], p_leadComment = None, p_lineComment = None,
          p_pos = 1, p_tok = token_Package, p_lit = ''package'', p_syncPos = 0,
          p_syncCount = 0, p_exprLevel = 0, p_inRHS = False, p_nestLevel = 0\<rparr>"
  let ?P1 = "\<lparr>p_scanner =
           \<lparr>l_file = ?F, l_src = ''package _;'', l_errFn = True, l_errors = ?E,
              l_errCount = 0, l_ch = - 1, l_offset = 10, l_readOffset = 10,
              l_lineOffset = 0, l_insertSemi = False, l_nlPos = 0, l_noNewSemi = False\<rparr>,
           p_comments = [], p_leadComment = None, p_lineComment = None,
           p_pos = 11, p_tok = token_EOF, p_lit = [], p_syncPos = 0,
           p_syncCount = 0, p_exprLevel = 0, p_inRHS = False, p_nestLevel = 0\<rparr>"
  have ret: "ParseFile (Some NewFileSet) ''x.st'' (Src_string ''package _;'') =
      Some (Inr (Some ?s1, Some ?node, Some (Err_ErrorList ?E)))"
    by code_simp
  have mem: "Src_string ''package _;'' = Src_string ''package _;'' \<or>
      Src_string ''package _;'' = Src_bytes ''package _;''" by simp
  have add: "FileSet_AddFile NewFileSet ''x.st'' (- 1) 10 = Inr (?s1, 0)" by code_simp
  have init: "parser_init ?F ''package _;'' = Some (Inr ?P0)" by code_simp
  have pk: "parser_parsePackageDecl ?P0 =
      Some (Inr ((None, 1, \<lparr>Ident_NamePos = 9, Ident_Name = ''_''\<rparr>), ?P1))" by code_simp
  have e: "p_errors ?P0 = []" "p_errors ?P1 = ?E" by (simp_all add: p_errors_def)
  have ex: "\<exists>p p1. parser_init ?F ''package _;'' = Some (Inr p) \<and> p_errors p = [] \<and>
            parser_parsePackageDecl p =
              Some (Inr ((None, 1, \<lparr>Ident_NamePos = 9, Ident_Name = ''_''\<rparr>), p1)) \<and>
            p_errors p1 = ?E"
    using init pk e by blast
  from ParseFile_File_bounds[OF ret mem] ret add ex show ?thesis by simp
qed

end
